(* ===== verification/Js_Prelude.thy ===== *)
theory Js_Prelude
  imports Main "HOL-Library.Multiset" "HOL-Library.Char_ord" "HOL-Library.List_Lexorder"
begin

text \<open>
  What every component shares: the outcome of running a piece of JavaScript on a state, the
  loop over an array, the values jQuery's \<open>data()\<close> returns and their use as property keys,
  the array functions the code calls (\<open>$.inArray\<close>, \<open>splice(i, 1)\<close>, \<open>sort\<close>), and the
  string functions (\<open>$.trim\<close>, \<open>toUpperCase\<close>, \<open>substring\<close>, a number turned into a string).
  A string is a list of 8-bit characters, the texts of Latin-1.
\<close>

named_theorems outcome_simps "running outcomes and loops"
named_theorems frame_simps "what an operation leaves unchanged"

section \<open>Outcomes\<close>

text \<open>
  Running code on a state returns normally with a new state, or throws with the state as it
  was left at the throw (JavaScript does not roll back), or does not return: an endless loop
  or a recursion without bound.
\<close>

datatype js_error =
    TypeError
  | UnknownNode string
  | NoSuchMethod string

datatype 's outcome = Returns 's | Throws js_error 's | Diverges

primrec and_then :: "'s outcome \<Rightarrow> ('s \<Rightarrow> 's outcome) \<Rightarrow> 's outcome" where
  "and_then (Returns s) k = k s"
| "and_then (Throws e s) k = Throws e s"
| "and_then Diverges k = Diverges"

declare and_then.simps [outcome_simps]

lemma and_then_Returns_iff:
  "and_then m k = Returns t \<longleftrightarrow> (\<exists>s. m = Returns s \<and> k s = Returns t)"
  by (cases m) auto

lemma and_then_Returns_right [simp]: "and_then m Returns = m"
  by (cases m) auto

lemma and_then_assoc: "and_then (and_then m k) l = and_then m (\<lambda>s. and_then (k s) l)"
  by (cases m) auto

text \<open>\<open>for (i = 0; i < xs.length; i++) body(xs[i])\<close> over an array that the body does not
  change.\<close>

primrec each :: "('s \<Rightarrow> 'x \<Rightarrow> 's outcome) \<Rightarrow> 's \<Rightarrow> 'x list \<Rightarrow> 's outcome" where
  "each body s [] = Returns s"
| "each body s (x # xs) = and_then (body s x) (\<lambda>s'. each body s' xs)"

declare each.simps [outcome_simps]

lemma each_append:
  "each body s (xs @ ys) = and_then (each body s xs) (\<lambda>s'. each body s' ys)"
  by (induction xs arbitrary: s) (auto simp: and_then_assoc)

lemma each_invariant:
  assumes "I s"
    and "\<And>x s. x \<in> set xs \<Longrightarrow> I s \<Longrightarrow> \<exists>s'. body s x = Returns s' \<and> I s'"
  shows "\<exists>s'. each body s xs = Returns s' \<and> I s'"
  using assms
proof (induction xs arbitrary: s)
  case Nil
  then show ?case by simp
next
  case (Cons x xs)
  from Cons.prems obtain s1 where "body s x = Returns s1" and "I s1"
    by fastforce
  then show ?case using Cons.IH [of s1] Cons.prems(2) by simp
qed

lemma each_cong_body:
  "(\<And>s x. x \<in> set xs \<Longrightarrow> f s x = g s x) \<Longrightarrow> each f s xs = each g s xs"
proof (induction xs arbitrary: s)
  case (Cons x xs)
  have "each f t xs = each g t xs" for t by (rule Cons.IH) (simp add: Cons.prems)
  then show ?case by (simp add: Cons.prems)
qed simp

lemma each_pure:
  "(\<And>s x. x \<in> set xs \<Longrightarrow> body s x = Returns (f x s)) \<Longrightarrow> each body s xs = Returns (fold f xs s)"
  by (induction xs arbitrary: s) auto

section \<open>Values of data() and property keys\<close>

text \<open>
  jQuery's \<open>data()\<close> converts an attribute: a text that is the rendering of a number becomes
  that number, \<open>true\<close> and \<open>false\<close> become booleans, other text stays a string. \<open>undefined\<close>
  and \<open>null\<close> are \<open>None\<close> where a value is optional.
\<close>

datatype dval = DStr string | DNum int | DBool bool

fun show_nat :: "nat \<Rightarrow> string" where
  "show_nat n =
     (if n < 10 then [char_of (48 + n)] else show_nat (n div 10) @ [char_of (48 + n mod 10)])"

declare show_nat.simps [simp del]

definition show_int :: "int \<Rightarrow> string" where
  "show_int i = (if i < 0 then ''-'' @ show_nat (nat (- i)) else show_nat (nat i))"

text \<open>The property name under which \<open>tree[id]\<close> looks an id up.\<close>

fun prop_key :: "dval \<Rightarrow> string" where
  "prop_key (DStr s) = s"
| "prop_key (DNum i) = show_int i"
| "prop_key (DBool b) = (if b then ''true'' else ''false'')"

section \<open>Array functions\<close>

text \<open>\<open>$.inArray(x, xs)\<close>: the first index of \<open>x\<close>, or -1.\<close>

fun in_array :: "'a \<Rightarrow> 'a list \<Rightarrow> int" where
  "in_array x [] = -1"
| "in_array x (y # ys) =
     (if x = y then 0 else let i = in_array x ys in if i = -1 then -1 else i + 1)"

text \<open>\<open>xs.splice(i, 1)\<close> as it leaves \<open>xs\<close>: a negative start counts from the end, and
  the start is clamped to the array.\<close>

definition splice1 :: "int \<Rightarrow> 'a list \<Rightarrow> 'a list" where
  "splice1 i xs =
     (let n = int (length xs);
          k = nat (if i < 0 then max (n + i) 0 else min i n)
      in take k xs @ drop (Suc k) xs)"

lemma in_array_ge: "in_array x xs \<ge> -1"
  by (induction xs) (auto simp: Let_def)

lemma in_array_neg_iff: "in_array x xs = -1 \<longleftrightarrow> x \<notin> set xs"
proof (induction xs)
  case (Cons y ys)
  then show ?case using in_array_ge [of x ys] by (auto simp: Let_def)
qed simp

lemma in_array_less: "in_array x xs < int (length xs)"
  by (induction xs) (auto simp: Let_def)

lemma splice1_in_array:
  "x \<in> set xs \<Longrightarrow> splice1 (in_array x xs) xs = remove1 x xs"
proof (induction xs)
  case Nil
  then show ?case by simp
next
  case (Cons y ys)
  show ?case
  proof (cases "x = y")
    case True
    then show ?thesis by (simp add: splice1_def)
  next
    case False
    with Cons have IH: "splice1 (in_array x ys) ys = remove1 x ys" and "in_array x ys \<noteq> -1"
      by (auto simp: in_array_neg_iff)
    moreover have "in_array x ys \<ge> -1" and "in_array x ys < int (length ys)"
      by (simp_all add: in_array_ge in_array_less)
    ultimately show ?thesis using False
      by (auto simp: splice1_def Let_def nat_add_distrib)
  qed
qed

text \<open>\<open>splice(-1, 1)\<close> removes the last element: what \<open>removeChild\<close> does to an array that
  does not hold the child.\<close>

lemma splice1_absent: "x \<notin> set xs \<Longrightarrow> splice1 (in_array x xs) xs = butlast xs"
  by (cases xs rule: rev_cases) (auto simp: in_array_neg_iff [THEN iffD2] splice1_def)

lemma splice1_in_array_distinct:
  "x \<in> set xs \<Longrightarrow> distinct xs \<Longrightarrow> splice1 (in_array x xs) xs = filter (\<lambda>y. y \<noteq> x) xs"
  by (simp add: splice1_in_array distinct_remove1_removeAll removeAll_filter_not_eq eq_commute)

text \<open>\<open>Array.prototype.sort\<close> with a comparator, which the language requires to be stable.\<close>

fun sort_insert :: "('a \<Rightarrow> 'a \<Rightarrow> int) \<Rightarrow> 'a \<Rightarrow> 'a list \<Rightarrow> 'a list" where
  "sort_insert cmp x [] = [x]"
| "sort_insert cmp x (y # ys) =
     (if cmp x y \<le> 0 then x # y # ys else y # sort_insert cmp x ys)"

definition js_sort :: "('a \<Rightarrow> 'a \<Rightarrow> int) \<Rightarrow> 'a list \<Rightarrow> 'a list" where
  "js_sort cmp xs = foldr (sort_insert cmp) xs []"

text \<open>A consistent comparator: the sign of \<open>cmp\<close> turns over with its arguments and is a total
  preorder. For other comparators, such as one that answers 1 or 0 and never -1, the
  language leaves the order of the result open; \<open>js_sort\<close> is one of the results it allows.\<close>

definition consistent :: "('a \<Rightarrow> 'a \<Rightarrow> int) \<Rightarrow> bool" where
  "consistent cmp \<longleftrightarrow>
     (\<forall>x y. cmp x y < 0 \<longleftrightarrow> 0 < cmp y x) \<and>
     (\<forall>x y z. cmp x y \<le> 0 \<longrightarrow> cmp y z \<le> 0 \<longrightarrow> cmp x z \<le> 0)"

lemma consistent_le:
  assumes "consistent cmp"
  shows "cmp x x \<le> 0" and "cmp x y \<le> 0 \<or> cmp y x \<le> 0"
    and "cmp x y \<le> 0 \<Longrightarrow> cmp y z \<le> 0 \<Longrightarrow> cmp x z \<le> 0"
proof -
  have sign: "cmp a b < 0 \<longleftrightarrow> 0 < cmp b a" for a b using assms by (simp add: consistent_def)
  show "cmp x x \<le> 0" using sign [of x x] by linarith
  show "cmp x y \<le> 0 \<or> cmp y x \<le> 0" using sign [of x y] by linarith
  show "cmp x y \<le> 0 \<Longrightarrow> cmp y z \<le> 0 \<Longrightarrow> cmp x z \<le> 0" using assms by (auto simp: consistent_def)
qed

text \<open>What the language promises of \<open>sort\<close>, as an interface: a permutation whatever the
  comparator answers, and for a consistent one the sorted and stable one, which
  \<open>srt_unique\<close> shows to be the only one.\<close>

locale stable_sort =
  fixes srt :: "('a \<Rightarrow> 'a \<Rightarrow> int) \<Rightarrow> 'a list \<Rightarrow> 'a list"
  assumes mset_srt: "mset (srt cmp xs) = mset xs"
    and ordered_srt: "consistent cmp \<Longrightarrow> sorted_wrt (\<lambda>x y. cmp x y \<le> 0) (srt cmp xs)"
    and stable_srt: "consistent cmp \<Longrightarrow>
      filter (\<lambda>y. cmp x y \<le> 0 \<and> cmp y x \<le> 0) (srt cmp xs) =
      filter (\<lambda>y. cmp x y \<le> 0 \<and> cmp y x \<le> 0) xs"
begin

lemma set_srt: "set (srt cmp xs) = set xs"
  by (metis mset_srt set_mset_mset)

lemma distinct_srt: "distinct (srt cmp xs) \<longleftrightarrow> distinct xs"
  by (rule mset_eq_imp_distinct_iff) (rule mset_srt)

lemma length_srt: "length (srt cmp xs) = length xs"
  by (metis mset_srt size_mset)

text \<open>The three laws determine the result.\<close>

lemma srt_unique:
  assumes cons: "consistent cmp"
    and ord: "sorted_wrt (\<lambda>x y. cmp x y \<le> 0) ys"
    and stab: "\<And>x. filter (\<lambda>y. cmp x y \<le> 0 \<and> cmp y x \<le> 0) ys =
                 filter (\<lambda>y. cmp x y \<le> 0 \<and> cmp y x \<le> 0) xs"
  shows "srt cmp xs = ys"
proof -
  have key: "as = bs"
    if "sorted_wrt (\<lambda>x y. cmp x y \<le> 0) as" and "sorted_wrt (\<lambda>x y. cmp x y \<le> 0) bs"
      and "\<And>x. filter (\<lambda>y. cmp x y \<le> 0 \<and> cmp y x \<le> 0) as =
               filter (\<lambda>y. cmp x y \<le> 0 \<and> cmp y x \<le> 0) bs" for as bs
    using that
  proof (induction as arbitrary: bs)
    case Nil
    have refl: "cmp x x \<le> 0" for x by (rule consistent_le(1) [OF cons])
    show ?case
    proof (cases bs)
      case (Cons b bs')
      then show ?thesis using Nil.prems(3) [of b] refl by simp
    qed simp
  next
    case (Cons a as)
    have refl: "cmp x x \<le> 0" for x by (rule consistent_le(1) [OF cons])
    obtain b bs' where bs: "bs = b # bs'"
      using Cons.prems(3) [of a] refl by (cases bs) auto
    have "a \<in> set (filter (\<lambda>y. cmp a y \<le> 0 \<and> cmp y a \<le> 0) bs)"
      by (simp add: refl flip: Cons.prems(3))
    then have "a \<in> set bs" by simp
    then have ba: "cmp b a \<le> 0" using Cons.prems(2) bs refl by auto
    have "b \<in> set (filter (\<lambda>y. cmp b y \<le> 0 \<and> cmp y b \<le> 0) (a # as))"
      unfolding Cons.prems(3) by (simp add: bs refl)
    then have "b \<in> set (a # as)" by (rule filter_is_subset [THEN subsetD])
    then have ab: "cmp a b \<le> 0" using Cons.prems(1) refl by auto
    from Cons.prems(3) [of a] have eq: "a = b" using ab ba refl bs by simp
    moreover have "as = bs'"
    proof (rule Cons.IH)
      show "filter (\<lambda>y. cmp x y \<le> 0 \<and> cmp y x \<le> 0) as =
            filter (\<lambda>y. cmp x y \<le> 0 \<and> cmp y x \<le> 0) bs'" for x
        using Cons.prems(3) [of x] bs eq by (auto split: if_splits)
    qed (use Cons.prems bs in auto)
    ultimately show ?case using bs by simp
  qed
  show ?thesis
    by (rule key) (use cons ord stab in \<open>simp_all add: ordered_srt stable_srt\<close>)
qed

end

lemma mset_sort_insert: "mset (sort_insert cmp x xs) = add_mset x (mset xs)"
  by (induction xs) auto

lemma set_sort_insert: "set (sort_insert cmp x xs) = insert x (set xs)"
  by (induction xs) auto

lemma ordered_sort_insert:
  assumes "consistent cmp" and "sorted_wrt (\<lambda>x y. cmp x y \<le> 0) xs"
  shows "sorted_wrt (\<lambda>x y. cmp x y \<le> 0) (sort_insert cmp x xs)"
  using assms(2)
proof (induction xs)
  case Nil
  then show ?case by simp
next
  case (Cons y ys)
  from assms(1) have tot: "\<not> cmp x y \<le> 0 \<Longrightarrow> cmp y x \<le> 0"
    and tr: "\<And>z. cmp x y \<le> 0 \<Longrightarrow> cmp y z \<le> 0 \<Longrightarrow> cmp x z \<le> 0"
    using consistent_le [OF assms(1)] by blast+
  from Cons tot tr show ?case by (auto simp: set_sort_insert)
qed

lemma stable_sort_insert:
  assumes "consistent cmp"
  shows "filter (\<lambda>y. cmp a y \<le> 0 \<and> cmp y a \<le> 0) (sort_insert cmp x xs) =
         filter (\<lambda>y. cmp a y \<le> 0 \<and> cmp y a \<le> 0) (x # xs)"
proof (induction xs)
  case Nil
  then show ?case by simp
next
  case (Cons y ys)
  have "\<not> (cmp a y \<le> 0 \<and> cmp y a \<le> 0)"
    if "\<not> cmp x y \<le> 0" and "cmp a x \<le> 0 \<and> cmp x a \<le> 0"
    using consistent_le [OF assms] that by blast
  with Cons show ?case by auto
qed

interpretation js: stable_sort js_sort
proof
  fix cmp :: "'a \<Rightarrow> 'a \<Rightarrow> int" and xs x
  show "mset (js_sort cmp xs) = mset xs"
    by (induction xs) (auto simp: js_sort_def mset_sort_insert)
  assume c: "consistent cmp"
  show "sorted_wrt (\<lambda>x y. cmp x y \<le> 0) (js_sort cmp xs)"
    by (induction xs) (auto simp: js_sort_def ordered_sort_insert [OF c])
  show "filter (\<lambda>y. cmp x y \<le> 0 \<and> cmp y x \<le> 0) (js_sort cmp xs) =
      filter (\<lambda>y. cmp x y \<le> 0 \<and> cmp y x \<le> 0) xs"
    by (induction xs) (auto simp: js_sort_def stable_sort_insert [OF c])
qed

section \<open>String functions\<close>

definition is_space :: "char \<Rightarrow> bool" where
  "is_space c \<longleftrightarrow> (let n = of_char c :: nat in 9 \<le> n \<and> n \<le> 13 \<or> n = 32 \<or> n = 160)"

definition js_trim :: "string \<Rightarrow> string" where
  "js_trim s = rev (dropWhile is_space (rev (dropWhile is_space s)))"

text \<open>\<open>toUpperCase\<close> gives a text of 16-bit units: the letters of ASCII and Latin-1, the sharp s
  (which becomes two letters), and the two letters of Latin-1 whose capitals lie beyond it.\<close>

definition upper_units :: "char \<Rightarrow> nat list" where
  "upper_units c =
     (let n = of_char c :: nat in
      if 97 \<le> n \<and> n \<le> 122 \<or> 224 \<le> n \<and> n \<le> 254 \<and> n \<noteq> 247 then [n - 32]
      else if n = 223 then [83, 83]
      else if n = 181 then [924]
      else if n = 255 then [376]
      else [n])"

definition js_upper :: "string \<Rightarrow> nat list" where
  "js_upper s = concat (map upper_units s)"

text \<open>\<open>s.substring(a, b)\<close>: both ends are clamped to the length and swapped when \<open>b < a\<close>.\<close>

definition substring :: "string \<Rightarrow> nat \<Rightarrow> nat \<Rightarrow> string" where
  "substring s a b =
     (let a' = min a (length s); b' = min b (length s);
          lo = min a' b'; hi = max a' b'
      in take (hi - lo) (drop lo s))"

lemma js_trim_skip_prefix: "is_space c \<Longrightarrow> js_trim (c # s) = js_trim s"
  by (simp add: js_trim_def)

lemma substring_prefix: "substring s 0 b = take b s"
  by (simp add: substring_def Let_def min_def)

lemma substring_suffix: "a \<le> length s \<Longrightarrow> substring s a (length s) = drop a s"
  by (simp add: substring_def Let_def)

lemma substring_past_end: "length s < a \<Longrightarrow> substring s a (length s) = []"
  by (simp add: substring_def Let_def)

end
