(* ===== verification/Rose_Forest.thy ===== *)
theory Rose_Forest
  imports Js_Prelude
begin

text \<open>
  The abstract shape of a tree table: a forest of rose trees, its preorder, its subtrees, and
  the three ways the operations of the tree change it (cut a subtree out, hang a subtree
  under a node as the last child, put a block of rows behind a row). Nothing here mentions
  the program's state.
\<close>

section \<open>Rose trees\<close>

datatype 'a rose = Rose (root: 'a) (kids: "'a rose list")

primrec preorder :: "'a rose \<Rightarrow> 'a list" where
  "preorder (Rose a ts) = a # concat (map preorder ts)"

definition forder :: "'a rose list \<Rightarrow> 'a list" where
  "forder fs = concat (map preorder fs)"

primrec height :: "'a rose \<Rightarrow> nat" where
  "height (Rose a ts) = Suc (Max (insert 0 (set (map height ts))))"

primrec subtrees :: "'a rose \<Rightarrow> 'a rose list" where
  "subtrees (Rose a ts) = Rose a ts # concat (map subtrees ts)"

definition fsubtrees :: "'a rose list \<Rightarrow> 'a rose list" where
  "fsubtrees fs = concat (map subtrees fs)"

text \<open>The proper descendants of the root.\<close>

definition below :: "'a rose \<Rightarrow> 'a list" where
  "below t = forder (kids t)"

lemma forder_simps [simp]:
  "forder [] = []"
  "forder (t # fs) = preorder t @ forder fs"
  "forder (fs @ gs) = forder fs @ forder gs"
  by (simp_all add: forder_def)

lemma fsubtrees_simps [simp]:
  "fsubtrees [] = []"
  "fsubtrees (t # fs) = subtrees t @ fsubtrees fs"
  "fsubtrees (fs @ gs) = fsubtrees fs @ fsubtrees gs"
  by (simp_all add: fsubtrees_def)

lemma set_forder: "set (forder fs) = (\<Union>t\<in>set fs. set (preorder t))"
  by (simp add: forder_def)

lemma set_fsubtrees: "set (fsubtrees fs) = (\<Union>t\<in>set fs. set (subtrees t))"
  by (simp add: fsubtrees_def)

lemma preorder_unfold: "preorder t = root t # below t"
  by (cases t) (simp add: below_def forder_def)

lemma root_in_preorder [simp]: "root t \<in> set (preorder t)"
  by (simp add: preorder_unfold)

lemma self_in_subtrees [simp]: "t \<in> set (subtrees t)"
  by (cases t) simp

lemma root_in_forder: "t \<in> set fs \<Longrightarrow> root t \<in> set (forder fs)"
  using root_in_preorder [of t] by (auto simp: set_forder simp del: root_in_preorder)

lemma kids_subtrees: "c \<in> set (kids t) \<Longrightarrow> set (subtrees c) \<subseteq> set (subtrees t)"
  by (cases t) auto

lemma kids_preorder: "c \<in> set (kids t) \<Longrightarrow> set (preorder c) \<subseteq> set (below t)"
  by (auto simp: below_def set_forder)

lemma subtrees_trans: "u \<in> set (subtrees t) \<Longrightarrow> t \<in> set (subtrees v) \<Longrightarrow> u \<in> set (subtrees v)"
  by (induction v) auto

lemma fsubtrees_trans: "u \<in> set (subtrees t) \<Longrightarrow> t \<in> set (fsubtrees fs) \<Longrightarrow> u \<in> set (fsubtrees fs)"
  by (auto simp: set_fsubtrees intro: subtrees_trans)

lemma subtree_preorder: "t \<in> set (subtrees v) \<Longrightarrow> set (preorder t) \<subseteq> set (preorder v)"
  by (induction v) auto

lemma fsubtree_forder: "t \<in> set (fsubtrees fs) \<Longrightarrow> set (preorder t) \<subseteq> set (forder fs)"
  using subtree_preorder by (fastforce simp: set_fsubtrees set_forder)

lemma subtree_of_root: "a \<in> set (preorder v) \<Longrightarrow> \<exists>t\<in>set (subtrees v). root t = a"
  by (induction v) auto

lemma fsubtree_of_root: "a \<in> set (forder fs) \<Longrightarrow> \<exists>t\<in>set (fsubtrees fs). root t = a"
  using subtree_of_root by (fastforce simp: set_fsubtrees set_forder)

lemma distinct_concat_member:
  "distinct (concat (map f xs)) \<Longrightarrow> x \<in> set xs \<Longrightarrow> distinct (f x)"
  by (induction xs) auto

lemma distinct_preorder_kid:
  "distinct (preorder t) \<Longrightarrow> c \<in> set (kids t) \<Longrightarrow> distinct (preorder c)"
  by (cases t) (auto intro: distinct_concat_member)

lemma distinct_subtree:
  "distinct (preorder v) \<Longrightarrow> t \<in> set (subtrees v) \<Longrightarrow> distinct (preorder t)"
  by (induction v) (auto dest: distinct_concat_member)

lemma distinct_forder_member:
  "distinct (forder fs) \<Longrightarrow> t \<in> set fs \<Longrightarrow> distinct (preorder t)"
  by (auto simp: forder_def intro: distinct_concat_member)

lemma distinct_fsubtree:
  "distinct (forder fs) \<Longrightarrow> t \<in> set (fsubtrees fs) \<Longrightarrow> distinct (preorder t)"
  by (auto simp: set_fsubtrees dest: distinct_forder_member intro: distinct_subtree)

lemma height_kid: "c \<in> set (kids t) \<Longrightarrow> height c < height t"
  by (cases t) (auto simp: less_Suc_eq_le intro!: Max_ge)

lemma height_pos [simp]: "0 < height t"
  by (cases t) simp

lemma length_preorder_member:
  "t \<in> set fs \<Longrightarrow> length (preorder t) \<le> length (forder fs)"
  by (induction fs) auto

lemma height_le_length: "height t \<le> length (preorder t)"
proof (induction t)
  case (Rose a ts)
  have "Max (insert 0 (set (map height ts))) \<le> length (forder ts)"
  proof (rule Max.boundedI)
    fix h assume "h \<in> insert 0 (set (map height ts))"
    then show "h \<le> length (forder ts)"
      using Rose length_preorder_member le_trans by fastforce
  qed auto
  then show ?case by (simp add: forder_def)
qed

text \<open>Subtrees of a forest with distinct nodes are determined by their root, and two
  disjoint members of it share no node.\<close>

lemma disjoint_forder_members:
  assumes "distinct (forder fs)" and "t \<in> set fs" and "u \<in> set fs" and "t \<noteq> u"
  shows "set (preorder t) \<inter> set (preorder u) = {}"
  using assms
proof (induction fs)
  case (Cons v fs)
  then show ?case by (fastforce simp: set_forder)
qed simp

lemma subtree_root_unique:
  "distinct (preorder v) \<Longrightarrow> t \<in> set (subtrees v) \<Longrightarrow> u \<in> set (subtrees v) \<Longrightarrow>
    root t = root u \<Longrightarrow> t = u"
proof (induction v)
  case (Rose a ts)
  have below_a: "root x \<noteq> a" if "c \<in> set ts" and "x \<in> set (subtrees c)" for x c
  proof -
    have "root x \<in> set (preorder c)"
      using subtree_preorder [OF that(2)] root_in_preorder [of x] by blast
    then show ?thesis using Rose.prems(1) that(1) by auto
  qed
  have dis: "distinct (forder ts)" using Rose.prems(1) by (simp add: forder_def)
  show ?case
  proof (cases "t = Rose a ts \<or> u = Rose a ts")
    case True
    then show ?thesis using Rose.prems below_a by fastforce
  next
    case False
    then obtain c d where c: "c \<in> set ts" "t \<in> set (subtrees c)"
      and d: "d \<in> set ts" "u \<in> set (subtrees d)"
      using Rose.prems by auto
    have "root t \<in> set (preorder c)" and "root t \<in> set (preorder d)"
      using subtree_preorder [OF c(2)] subtree_preorder [OF d(2)] Rose.prems(4)
        root_in_preorder [of t] root_in_preorder [of u] by auto
    then have "c = d" using disjoint_forder_members [OF dis c(1) d(1)] by blast
    then show ?thesis
      using Rose.IH [OF c(1)] c d Rose.prems(4) distinct_forder_member [OF dis c(1)] by simp
  qed
qed

lemma fsubtree_root_unique:
  assumes "distinct (forder fs)" and "t \<in> set (fsubtrees fs)" and "u \<in> set (fsubtrees fs)"
    and "root t = root u"
  shows "t = u"
proof -
  from assms(2,3) obtain c d where c: "c \<in> set fs" "t \<in> set (subtrees c)"
    and d: "d \<in> set fs" "u \<in> set (subtrees d)"
    by (auto simp: set_fsubtrees)
  have "root t \<in> set (preorder c)" and "root t \<in> set (preorder d)"
    using subtree_preorder [OF c(2)] subtree_preorder [OF d(2)] assms(4)
      root_in_preorder [of t] root_in_preorder [of u] by auto
  then have "c = d" using disjoint_forder_members [OF assms(1) c(1) d(1)] by blast
  then show ?thesis
    using subtree_root_unique [OF distinct_forder_member [OF assms(1) c(1)]] c d assms(4) by simp
qed

lemma distinct_roots: "distinct (forder ts) \<Longrightarrow> distinct (map root ts)"
proof (induction ts)
  case (Cons u ts)
  then show ?case using root_in_forder [of _ ts] root_in_preorder [of u]
    by (auto simp del: root_in_preorder)
qed simp

section \<open>Cutting a subtree out\<close>

primrec prune :: "'a \<Rightarrow> 'a rose \<Rightarrow> 'a rose" where
  "prune a (Rose b ts) = Rose b (filter (\<lambda>t. root t \<noteq> a) (map (prune a) ts))"

definition fprune :: "'a \<Rightarrow> 'a rose list \<Rightarrow> 'a rose list" where
  "fprune a fs = filter (\<lambda>t. root t \<noteq> a) (map (prune a) fs)"

lemma root_prune [simp]: "root (prune a t) = root t"
  by (cases t) simp

lemma kids_prune: "kids (prune a t) = fprune a (kids t)"
  by (cases t) (simp add: fprune_def)

lemma fprune_simps [simp]:
  "fprune a [] = []"
  "fprune a (t # fs) = (if root t = a then fprune a fs else prune a t # fprune a fs)"
  by (simp_all add: fprune_def)

lemma prune_absent: "a \<notin> set (below t) \<Longrightarrow> prune a t = t"
proof (induction t)
  case (Rose b ts)
  have kid: "prune a t = t \<and> root t \<noteq> a" if "t \<in> set ts" for t
  proof -
    have "a \<notin> set (preorder t)" using Rose.prems that by (auto simp: below_def set_forder)
    then show ?thesis using Rose.IH [OF that] by (auto simp: preorder_unfold)
  qed
  then have "filter (\<lambda>t. root t \<noteq> a) (map (prune a) ts) = ts"
    by (induction ts) auto
  then show ?case by simp
qed

lemma fprune_absent: "a \<notin> set (forder fs) \<Longrightarrow> fprune a fs = fs"
proof (induction fs)
  case (Cons t fs)
  then show ?case by (auto simp: preorder_unfold prune_absent)
qed simp

lemma filter_id_disjoint: "set xs \<inter> S = {} \<Longrightarrow> filter (\<lambda>x. x \<notin> S) xs = xs"
  by (induction xs) auto

lemma filter_none_subset: "set xs \<subseteq> S \<Longrightarrow> filter (\<lambda>x. x \<notin> S) xs = []"
  by (induction xs) auto

text \<open>Pruning removes exactly the nodes of the subtree and keeps the order of the rest.\<close>

lemma forder_fprune_aux:
  assumes IH: "\<And>u. u \<in> set fs \<Longrightarrow> distinct (preorder u) \<Longrightarrow> t \<in> set (subtrees u) \<Longrightarrow> root u \<noteq> root t \<Longrightarrow>
      preorder (prune (root t) u) = filter (\<lambda>x. x \<notin> set (preorder t)) (preorder u)"
    and "distinct (forder fs)" and "t \<in> set (fsubtrees fs)"
  shows "forder (fprune (root t) fs) = filter (\<lambda>x. x \<notin> set (preorder t)) (forder fs)"
  using assms
proof (induction fs)
  case Nil
  then show ?case by simp
next
  case (Cons u fs)
  have dis: "set (preorder u) \<inter> set (forder fs) = {}" and du: "distinct (preorder u)"
    and df: "distinct (forder fs)"
    using Cons.prems(2) by auto
  show ?case
  proof (cases "t \<in> set (subtrees u)")
    case True
    have tu: "set (preorder t) \<subseteq> set (preorder u)" by (rule subtree_preorder [OF True])
    have rest: "filter (\<lambda>x. x \<notin> set (preorder t)) (forder fs) = forder fs"
      using dis tu by (intro filter_id_disjoint) auto
    have abs: "root t \<notin> set (forder fs)"
      using dis tu root_in_preorder [of t] by blast
    show ?thesis
    proof (cases "root u = root t")
      case True
      then have "u = t" using subtree_root_unique [OF du _ \<open>t \<in> set (subtrees u)\<close>] by simp
      then show ?thesis using rest abs by (simp add: fprune_absent filter_none_subset)
    next
      case False
      then show ?thesis using Cons.prems(1) [of u] True du rest abs by (simp add: fprune_absent)
    qed
  next
    case False
    then have tf: "t \<in> set (fsubtrees fs)" using Cons.prems(3) by simp
    have sub: "set (preorder t) \<subseteq> set (forder fs)" by (rule fsubtree_forder [OF tf])
    have "root t \<notin> set (preorder u)" using sub dis root_in_preorder [of t] by blast
    then have "root u \<noteq> root t" and "prune (root t) u = u"
      by (auto simp: preorder_unfold prune_absent)
    moreover have "filter (\<lambda>x. x \<notin> set (preorder t)) (preorder u) = preorder u"
      using sub dis by (intro filter_id_disjoint) auto
    ultimately show ?thesis using Cons.IH Cons.prems(1) df tf by simp
  qed
qed

lemma preorder_prune:
  "distinct (preorder u) \<Longrightarrow> t \<in> set (subtrees u) \<Longrightarrow> root u \<noteq> root t \<Longrightarrow>
    preorder (prune (root t) u) = filter (\<lambda>x. x \<notin> set (preorder t)) (preorder u)"
proof (induction u)
  case (Rose a ts)
  then have ne: "t \<noteq> Rose a ts" by auto
  then have t: "t \<in> set (fsubtrees ts)" using Rose.prems by (simp add: fsubtrees_def)
  have "forder (fprune (root t) ts) = filter (\<lambda>x. x \<notin> set (preorder t)) (forder ts)"
    using Rose.IH Rose.prems(1) t by (intro forder_fprune_aux) (auto simp: forder_def)
  moreover have "a \<notin> set (preorder t)"
    using fsubtree_forder [OF t] Rose.prems(1) by (auto simp: forder_def)
  ultimately show ?case by (simp add: forder_def fprune_def)
qed

lemma forder_fprune:
  assumes "distinct (forder fs)" and "t \<in> set (fsubtrees fs)"
  shows "forder (fprune (root t) fs) = filter (\<lambda>x. x \<notin> set (preorder t)) (forder fs)"
  using assms by (intro forder_fprune_aux preorder_prune)

text \<open>Emptying a node: everything below it goes.\<close>

primrec clear :: "'a \<Rightarrow> 'a rose \<Rightarrow> 'a rose" where
  "clear a (Rose b ts) = Rose b (if b = a then [] else map (clear a) ts)"

definition fclear :: "'a \<Rightarrow> 'a rose list \<Rightarrow> 'a rose list" where
  "fclear a fs = map (clear a) fs"

lemma root_clear [simp]: "root (clear a t) = root t"
  by (cases t) simp

lemma clear_absent: "a \<notin> set (preorder v) \<Longrightarrow> clear a v = v"
  by (induction v) (auto intro: map_idI)

lemma forder_fclear_aux:
  assumes "\<And>c. c \<in> set fs \<Longrightarrow> t \<in> set (subtrees c) \<Longrightarrow>
      preorder (clear (root t) c) = filter (\<lambda>x. x \<notin> set (below t)) (preorder c)"
    and dis: "distinct (forder fs)" and "t \<in> set (fsubtrees fs)"
  shows "forder (fclear (root t) fs) = filter (\<lambda>x. x \<notin> set (below t)) (forder fs)"
proof -
  obtain c where c: "c \<in> set fs" "t \<in> set (subtrees c)" using assms(3) by (auto simp: set_fsubtrees)
  have tc: "set (below t) \<subseteq> set (preorder c)" "root t \<in> set (preorder c)"
    using subtree_preorder [OF c(2)] by (auto simp: preorder_unfold [of t])
  have "preorder (clear (root t) v) = filter (\<lambda>x. x \<notin> set (below t)) (preorder v)"
    if v: "v \<in> set fs" for v
  proof (cases "v = c")
    case True
    then show ?thesis using assms(1) [OF c] by simp
  next
    case False
    then have d: "set (preorder v) \<inter> set (preorder c) = {}"
      using disjoint_forder_members [OF dis v c(1)] by simp
    then have "clear (root t) v = v" using tc(2) by (intro clear_absent) auto
    moreover have "filter (\<lambda>x. x \<notin> set (below t)) (preorder v) = preorder v"
      using d tc(1) by (intro filter_id_disjoint) auto
    ultimately show ?thesis by simp
  qed
  then have "concat (map (\<lambda>v. preorder (clear (root t) v)) fs) =
      concat (map (\<lambda>v. filter (\<lambda>x. x \<notin> set (below t)) (preorder v)) fs)"
    by (intro arg_cong [of _ _ concat] map_cong) auto
  then show ?thesis by (simp add: forder_def fclear_def filter_concat comp_def)
qed

lemma preorder_clear:
  "distinct (preorder u) \<Longrightarrow> t \<in> set (subtrees u) \<Longrightarrow>
    preorder (clear (root t) u) = filter (\<lambda>x. x \<notin> set (below t)) (preorder u)"
proof (induction u)
  case (Rose a ts)
  have dts: "distinct (forder ts)" and a: "a \<notin> set (forder ts)"
    using Rose.prems(1) by (simp_all add: forder_def)
  show ?case
  proof (cases "t = Rose a ts")
    case True
    then show ?thesis using a by (auto simp: below_def filter_none_subset forder_def)
  next
    case False
    then have t: "t \<in> set (fsubtrees ts)" using Rose.prems(2) by (auto simp: set_fsubtrees)
    have "a \<notin> set (preorder t)" using fsubtree_forder [OF t] a by blast
    then have "a \<noteq> root t" "a \<notin> set (below t)" by (auto simp: preorder_unfold)
    moreover have "forder (fclear (root t) ts) = filter (\<lambda>x. x \<notin> set (below t)) (forder ts)"
      using Rose.IH distinct_forder_member [OF dts] by (intro forder_fclear_aux dts t) auto
    ultimately show ?thesis by (simp add: forder_def fclear_def)
  qed
qed

lemma forder_fclear:
  assumes "distinct (forder fs)" and "t \<in> set (fsubtrees fs)"
  shows "forder (fclear (root t) fs) = filter (\<lambda>x. x \<notin> set (below t)) (forder fs)"
  using assms distinct_forder_member by (intro forder_fclear_aux preorder_clear) auto

section \<open>Hanging a subtree under a node\<close>

primrec graft :: "'a \<Rightarrow> 'a rose \<Rightarrow> 'a rose \<Rightarrow> 'a rose" where
  "graft d t (Rose b ts) = Rose b (map (graft d t) ts @ (if b = d then [t] else []))"

definition fgraft :: "'a \<Rightarrow> 'a rose \<Rightarrow> 'a rose list \<Rightarrow> 'a rose list" where
  "fgraft d t fs = map (graft d t) fs"

lemma root_graft [simp]: "root (graft d t u) = root u"
  by (cases u) simp

lemma fgraft_simps [simp]:
  "fgraft d t [] = []"
  "fgraft d t (u # fs) = graft d t u # fgraft d t fs"
  by (simp_all add: fgraft_def)

lemma graft_absent: "d \<notin> set (preorder u) \<Longrightarrow> graft d t u = u"
proof (induction u)
  case (Rose b ts)
  then have "map (graft d t) ts = ts" by (intro map_idI) auto
  then show ?case using Rose.prems by auto
qed

lemma fgraft_absent: "d \<notin> set (forder fs) \<Longrightarrow> fgraft d t fs = fs"
  by (induction fs) (auto simp: graft_absent)

lemma mset_forder_fgraft_aux:
  assumes "\<And>u. u \<in> set fs \<Longrightarrow> distinct (preorder u) \<Longrightarrow> d \<in> set (preorder u) \<Longrightarrow>
      mset (preorder (graft d t u)) = mset (preorder u) + mset (preorder t)"
    and "distinct (forder fs)" and "d \<in> set (forder fs)"
  shows "mset (forder (fgraft d t fs)) = mset (forder fs) + mset (preorder t)"
  using assms
proof (induction fs)
  case (Cons u fs)
  show ?case
  proof (cases "d \<in> set (preorder u)")
    case True
    then have "d \<notin> set (forder fs)" using Cons.prems(2) by auto
    then show ?thesis using True Cons.prems(1) [of u] Cons.prems(2) by (simp add: fgraft_absent)
  next
    case False
    then show ?thesis using Cons by (auto simp: graft_absent)
  qed
qed simp

lemma mset_preorder_graft:
  "distinct (preorder u) \<Longrightarrow> d \<in> set (preorder u) \<Longrightarrow>
    mset (preorder (graft d t u)) = mset (preorder u) + mset (preorder t)"
proof (induction u)
  case (Rose b ts)
  have dts: "distinct (forder ts)" using Rose.prems(1) by (simp add: forder_def)
  show ?case
  proof (cases "b = d")
    case True
    then have "d \<notin> set (forder ts)" using Rose.prems(1) by (simp add: forder_def)
    then have "map (graft d t) ts = ts" using fgraft_absent [of d ts t] by (simp add: fgraft_def)
    then show ?thesis using True by simp
  next
    case False
    then have "d \<in> set (forder ts)" using Rose.prems(2) by (simp add: forder_def)
    then have "mset (forder (fgraft d t ts)) = mset (forder ts) + mset (preorder t)"
      using Rose.IH dts by (intro mset_forder_fgraft_aux) auto
    then show ?thesis using False by (simp add: forder_def fgraft_def)
  qed
qed

lemma mset_forder_fgraft:
  "distinct (forder fs) \<Longrightarrow> d \<in> set (forder fs) \<Longrightarrow>
    mset (forder (fgraft d t fs)) = mset (forder fs) + mset (preorder t)"
  by (intro mset_forder_fgraft_aux mset_preorder_graft)

lemma distinct_fgraft:
  assumes "distinct (forder fs)" and "d \<in> set (forder fs)" and "distinct (preorder t)"
    and "set (forder fs) \<inter> set (preorder t) = {}"
  shows "distinct (forder (fgraft d t fs))"
    and "set (forder (fgraft d t fs)) = set (forder fs) \<union> set (preorder t)"
proof -
  have m: "mset (forder (fgraft d t fs)) = mset (forder fs @ preorder t)"
    using assms by (simp add: mset_forder_fgraft)
  show "distinct (forder (fgraft d t fs))"
    using assms mset_eq_imp_distinct_iff [OF m] by simp
  show "set (forder (fgraft d t fs)) = set (forder fs) \<union> set (preorder t)"
    using mset_eq_setD [OF m] by simp
qed

section \<open>Blocks of rows\<close>

text \<open>\<open>xs\<close> with the block \<open>rs\<close> put directly behind \<open>d\<close>; unchanged when \<open>d\<close> is not there.\<close>

fun put_behind :: "'r \<Rightarrow> 'r list \<Rightarrow> 'r list \<Rightarrow> 'r list" where
  "put_behind d rs [] = []"
| "put_behind d rs (x # xs) = (if x = d then x # rs @ xs else x # put_behind d rs xs)"

lemma put_behind_split: "d \<notin> set as \<Longrightarrow> put_behind d rs (as @ d # bs) = as @ d # rs @ bs"
  by (induction as) auto

lemma put_behind_absent: "d \<notin> set xs \<Longrightarrow> put_behind d rs xs = xs"
  by (induction xs) auto

lemma put_behind_split_any:
  assumes "d \<in> set xs"
  obtains as bs where "xs = as @ d # bs" and "d \<notin> set as"
  using assms by (metis split_list_first)

lemma set_put_behind: "d \<in> set xs \<Longrightarrow> set (put_behind d rs xs) = set xs \<union> set rs"
  by (induction xs) auto

lemma mset_put_behind: "d \<in> set xs \<Longrightarrow> mset (put_behind d rs xs) = mset xs + mset rs"
  by (induction xs) auto

lemma distinct_put_behind:
  "d \<in> set xs \<Longrightarrow> distinct xs \<Longrightarrow> distinct rs \<Longrightarrow> set xs \<inter> set rs = {} \<Longrightarrow>
    distinct (put_behind d rs xs)"
  by (induction xs) (auto simp: set_put_behind put_behind_absent)

lemma filter_put_behind:
  "P d \<Longrightarrow> filter P (put_behind d rs xs) = put_behind d (filter P rs) (filter P xs)"
  by (induction xs) auto

end
