(* ===== verification/Table_Dom.thy ===== *)
theory Table_Dom
  imports Rose_Forest
begin

text \<open>
  The part of the page a tree table lives on, as far as \<open>jquery.treetable.js\<close> reads and writes
  it: the \<open>tr\<close> elements of one table in document order, and for every row its \<open>data-*\<close>
  attributes, jQuery's data store, its cells, its classes and whether \<open>hide()\<close> or \<open>show()\<close>
  was applied last. The jQuery calls the code makes are one definition each. The interface
  \<open>row_order\<close> states what moving a row behind another one means for the document order.
\<close>

section \<open>Rows and the table\<close>

type_synonym rref = nat

record row =
  r_attrs :: "string \<Rightarrow> dval option"
  r_store :: "string \<Rightarrow> dval option"
  r_cells :: "(string \<times> string) list"
  r_classes :: "string set"
  r_displayed :: bool
  r_indenters :: nat

record dom =
  d_row :: "rref \<Rightarrow> row"
  d_order :: "rref list"
  d_visible :: bool

definition upd_row :: "('a dom_scheme) \<Rightarrow> rref \<Rightarrow> (row \<Rightarrow> row) \<Rightarrow> 'a dom_scheme" where
  "upd_row w r f = w\<lparr>d_row := (d_row w)(r := f (d_row w r))\<rparr>"

text \<open>\<open>$(row).data(k)\<close> and \<open>$(row).data(k, v)\<close>: the store is read first, then the attribute.\<close>

definition row_data :: "('a dom_scheme) \<Rightarrow> rref \<Rightarrow> string \<Rightarrow> dval option" where
  "row_data w r k =
     (case r_store (d_row w r) k of Some v \<Rightarrow> Some v | None \<Rightarrow> r_attrs (d_row w r) k)"

definition set_row_data :: "('a dom_scheme) \<Rightarrow> rref \<Rightarrow> string \<Rightarrow> dval \<Rightarrow> 'a dom_scheme" where
  "set_row_data w r k v = upd_row w r (\<lambda>x. x\<lparr>r_store := (r_store x)(k \<mapsto> v)\<rparr>)"

definition has_class :: "('a dom_scheme) \<Rightarrow> rref \<Rightarrow> string \<Rightarrow> bool" where
  "has_class w r c \<longleftrightarrow> c \<in> r_classes (d_row w r)"

definition add_class :: "('a dom_scheme) \<Rightarrow> rref \<Rightarrow> string \<Rightarrow> 'a dom_scheme" where
  "add_class w r c = upd_row w r (\<lambda>x. x\<lparr>r_classes := insert c (r_classes x)\<rparr>)"

definition remove_class :: "('a dom_scheme) \<Rightarrow> rref \<Rightarrow> string \<Rightarrow> 'a dom_scheme" where
  "remove_class w r c = upd_row w r (\<lambda>x. x\<lparr>r_classes := r_classes x - {c}\<rparr>)"

definition set_displayed :: "('a dom_scheme) \<Rightarrow> rref \<Rightarrow> bool \<Rightarrow> 'a dom_scheme" where
  "set_displayed w r b = upd_row w r (\<lambda>x. x\<lparr>r_displayed := b\<rparr>)"

text \<open>\<open>$(row).is(":visible")\<close>: the row is in the document, not hidden itself, and neither is
  what contains the table.\<close>

definition is_visible :: "('a dom_scheme) \<Rightarrow> rref \<Rightarrow> bool" where
  "is_visible w r \<longleftrightarrow> d_visible w \<and> r \<in> set (d_order w) \<and> r_displayed (d_row w r)"

text \<open>\<open>row.insertAfter(target)\<close>: the row leaves its place and is put behind the target; on
  itself the call does nothing; behind a target that is not in the table the row is lost
  from it.\<close>

definition ins_after :: "'r \<Rightarrow> 'r \<Rightarrow> 'r list \<Rightarrow> 'r list" where
  "ins_after r d xs = (if r = d then xs else put_behind d [r] (filter (\<lambda>x. x \<noteq> r) xs))"

definition insert_after :: "rref \<Rightarrow> rref \<Rightarrow> ('a dom_scheme) \<Rightarrow> 'a dom_scheme" where
  "insert_after r d w = w\<lparr>d_order := ins_after r d (d_order w)\<rparr>"

text \<open>The same for a collection of rows, which keep their order; \<open>append\<close> puts a collection
  at the end of the table.\<close>

definition insert_rows_after :: "rref list \<Rightarrow> rref \<Rightarrow> ('a dom_scheme) \<Rightarrow> 'a dom_scheme" where
  "insert_rows_after rs d w =
     (let rs' = filter (\<lambda>r. r \<noteq> d) rs
      in w\<lparr>d_order := put_behind d rs' (filter (\<lambda>x. x \<notin> set rs') (d_order w))\<rparr>)"

definition append_rows :: "rref list \<Rightarrow> ('a dom_scheme) \<Rightarrow> 'a dom_scheme" where
  "append_rows rs w = w\<lparr>d_order := filter (\<lambda>x. x \<notin> set rs) (d_order w) @ rs\<rparr>"

text \<open>\<open>row.remove()\<close> takes the row out of the table and drops its jQuery data.\<close>

definition remove_row :: "('a dom_scheme) \<Rightarrow> rref \<Rightarrow> 'a dom_scheme" where
  "remove_row w r =
     (upd_row w r (\<lambda>x. x\<lparr>r_store := Map.empty\<rparr>))\<lparr>d_order := filter (\<lambda>x. x \<noteq> r) (d_order w)\<rparr>"

section \<open>What the operations leave alone\<close>

lemmas dom_defs = upd_row_def set_row_data_def add_class_def remove_class_def set_displayed_def
  insert_after_def insert_rows_after_def append_rows_def remove_row_def Let_def

lemma upd_row_simps [simp]:
  "d_order (upd_row w r f) = d_order w"
  "d_visible (upd_row w r f) = d_visible w"
  "d_row (upd_row w r f) q = (if q = r then f (d_row w r) else d_row w q)"
  "dom.more (upd_row w r f) = dom.more w"
  by (simp_all add: upd_row_def)

lemma row_ops_order [simp]:
  "d_order (set_row_data w r k v) = d_order w"
  "d_order (add_class w r c) = d_order w"
  "d_order (remove_class w r c) = d_order w"
  "d_order (set_displayed w r b) = d_order w"
  "d_visible (set_row_data w r k v) = d_visible w"
  "d_visible (add_class w r c) = d_visible w"
  "d_visible (remove_class w r c) = d_visible w"
  "d_visible (set_displayed w r b) = d_visible w"
  "d_visible (insert_after r d w) = d_visible w"
  "d_visible (remove_row w r) = d_visible w"
  by (simp_all add: dom_defs)

lemma row_ops_more [simp]:
  "dom.more (set_row_data w r k v) = dom.more w"
  "dom.more (add_class w r c) = dom.more w"
  "dom.more (remove_class w r c) = dom.more w"
  "dom.more (set_displayed w r b) = dom.more w"
  "dom.more (insert_after r d w) = dom.more w"
  "dom.more (insert_rows_after rs d w) = dom.more w"
  "dom.more (append_rows rs w) = dom.more w"
  "dom.more (remove_row w r) = dom.more w"
  by (simp_all add: dom_defs)

lemma order_ops_row [simp]:
  "d_row (insert_after r d w) = d_row w"
  "d_row (insert_rows_after rs d w) = d_row w"
  "d_row (append_rows rs w) = d_row w"
  by (simp_all add: dom_defs)

lemma has_class_simps [simp]:
  "has_class (add_class w r c) q e \<longleftrightarrow> (q = r \<and> e = c) \<or> has_class w q e"
  "has_class (remove_class w r c) q e \<longleftrightarrow> \<not> (q = r \<and> e = c) \<and> has_class w q e"
  "has_class (set_displayed w r b) q e \<longleftrightarrow> has_class w q e"
  "has_class (set_row_data w r k v) q e \<longleftrightarrow> has_class w q e"
  "has_class (insert_after r d w) q e \<longleftrightarrow> has_class w q e"
  by (auto simp: has_class_def dom_defs)

lemma displayed_simps [simp]:
  "r_displayed (d_row (add_class w r c) q) \<longleftrightarrow> r_displayed (d_row w q)"
  "r_displayed (d_row (remove_class w r c) q) \<longleftrightarrow> r_displayed (d_row w q)"
  "r_displayed (d_row (set_row_data w r k v) q) \<longleftrightarrow> r_displayed (d_row w q)"
  "r_displayed (d_row (set_displayed w r b) q) \<longleftrightarrow> (if q = r then b else r_displayed (d_row w q))"
  by (simp_all add: dom_defs)

lemma row_data_simps [simp]:
  "row_data (add_class w r c) q k = row_data w q k"
  "row_data (remove_class w r c) q k = row_data w q k"
  "row_data (set_displayed w r b) q k = row_data w q k"
  "row_data (insert_after r d w) q k = row_data w q k"
  "row_data (set_row_data w r j v) q k = (if q = r \<and> k = j then Some v else row_data w q k)"
  by (auto simp: row_data_def dom_defs split: option.split)

lemma row_ops_other [simp]:
  "q \<noteq> r \<Longrightarrow> d_row (set_row_data w r k v) q = d_row w q"
  "q \<noteq> r \<Longrightarrow> d_row (add_class w r c) q = d_row w q"
  "q \<noteq> r \<Longrightarrow> d_row (remove_class w r c) q = d_row w q"
  "q \<noteq> r \<Longrightarrow> d_row (set_displayed w r b) q = d_row w q"
  "q \<noteq> r \<Longrightarrow> d_row (remove_row w r) q = d_row w q"
  by (simp_all add: dom_defs)

section \<open>The document order as an interface\<close>

text \<open>
  A structure that lists rows and can move one row behind another. The client is the
  recursion of \<open>_moveRows\<close>: put a node's row behind the destination, then its children, last
  one first, behind the node's own row. The law below is all it needs.
\<close>

primrec move_block :: "('r \<Rightarrow> 'r \<Rightarrow> 'l \<Rightarrow> 'l) \<Rightarrow> 'r rose \<Rightarrow> 'r \<Rightarrow> 'l \<Rightarrow> 'l" where
  "move_block ins (Rose r ts) d l = foldr (\<lambda>mv l'. mv r l') (map (move_block ins) ts) (ins r d l)"

locale row_order =
  fixes ins :: "'r \<Rightarrow> 'r \<Rightarrow> 'l \<Rightarrow> 'l" and listing :: "'l \<Rightarrow> 'r list"
  assumes listing_ins: "r \<noteq> d \<Longrightarrow>
      listing (ins r d l) = put_behind d [r] (filter (\<lambda>x. x \<noteq> r) (listing l))"
    and listing_ins_self: "listing (ins r r l) = listing l"
begin

lemma listing_kids:
  assumes IH: "\<And>c l. c \<in> set ts \<Longrightarrow> r \<notin> set (preorder c) \<Longrightarrow> r \<in> set (listing l) \<Longrightarrow>
      distinct (listing l) \<Longrightarrow> distinct (preorder c) \<Longrightarrow>
      listing (move_block ins c r l) =
        put_behind r (preorder c) (filter (\<lambda>x. x \<notin> set (preorder c)) (listing l))"
    and "listing l = as @ r # bs" and "distinct (listing l)"
    and "r \<notin> set (forder ts)" and "distinct (forder ts)"
  shows "listing (foldr (\<lambda>mv l'. mv r l') (map (move_block ins) ts) l) =
      filter (\<lambda>x. x \<notin> set (forder ts)) as @ r # forder ts @
      filter (\<lambda>x. x \<notin> set (forder ts)) bs"
  using assms
proof (induction ts)
  case Nil
  then show ?case by simp
next
  case (Cons c ts)
  let ?l = "foldr (\<lambda>mv l'. mv r l') (map (move_block ins) ts) l"
  let ?F = "set (forder ts)" and ?C = "set (preorder c)"
  have disj: "?F \<inter> ?C = {}" and rC: "r \<notin> ?C" and rF: "r \<notin> ?F" and dF: "distinct (forder ts)"
    and dC: "distinct (preorder c)"
    using Cons.prems by auto
  have l: "listing ?l = filter (\<lambda>x. x \<notin> ?F) as @ r # forder ts @ filter (\<lambda>x. x \<notin> ?F) bs"
    using Cons.prems rF dF by (intro Cons.IH) auto
  have ras: "r \<notin> set as" "distinct as" "distinct bs" "r \<notin> set bs" "set as \<inter> set bs = {}"
    using Cons.prems(2,3) by auto
  have dl: "distinct (listing ?l)" unfolding l using ras rF dF by (simp add: disjoint_iff)
  have "listing (move_block ins c r ?l) =
      put_behind r (preorder c) (filter (\<lambda>x. x \<notin> ?C) (listing ?l))"
  proof (rule Cons.prems(1))
    show "r \<in> set (listing ?l)" by (simp add: l)
  qed (use rC dC dl in simp_all)
  also have "filter (\<lambda>x. x \<notin> ?C) (listing ?l) =
      filter (\<lambda>x. x \<notin> ?C) (filter (\<lambda>x. x \<notin> ?F) as) @ r #
      forder ts @ filter (\<lambda>x. x \<notin> ?C) (filter (\<lambda>x. x \<notin> ?F) bs)"
    using rC disj by (simp add: l filter_id_disjoint)
  also have "put_behind r (preorder c) \<dots> =
      filter (\<lambda>x. x \<notin> ?C) (filter (\<lambda>x. x \<notin> ?F) as) @ r # preorder c @
      forder ts @ filter (\<lambda>x. x \<notin> ?C) (filter (\<lambda>x. x \<notin> ?F) bs)"
    using ras by (intro put_behind_split) auto
  finally show ?case by (simp add: conj_commute)
qed

text \<open>The whole block ends up directly behind the destination, in preorder, and every other
  row keeps its place.\<close>

lemma listing_move_block:
  "d \<notin> set (preorder t) \<Longrightarrow> d \<in> set (listing l) \<Longrightarrow> distinct (listing l) \<Longrightarrow>
    distinct (preorder t) \<Longrightarrow>
    listing (move_block ins t d l) =
      put_behind d (preorder t) (filter (\<lambda>x. x \<notin> set (preorder t)) (listing l))"
proof (induction t arbitrary: d l)
  case (Rose r ts)
  let ?F = "set (forder ts)"
  have pre: "preorder (Rose r ts) = r # forder ts" by (simp add: forder_def)
  have rd: "r \<noteq> d" and rF: "r \<notin> ?F" and dF: "distinct (forder ts)" and dnF: "d \<notin> ?F"
    using Rose.prems by (auto simp: pre simp del: preorder.simps)
  let ?xs = "filter (\<lambda>x. x \<noteq> r) (listing l)"
  have "d \<in> set ?xs" using rd Rose.prems by simp
  then obtain as bs where xs: "?xs = as @ d # bs" and das: "d \<notin> set as"
    by (rule put_behind_split_any)
  have ins: "listing (ins r d l) = (as @ [d]) @ r # bs"
    by (simp add: listing_ins [OF rd] xs put_behind_split das)
  have "distinct ?xs" using Rose.prems by simp
  then have asbs: "distinct (as @ d # bs)" and rn: "r \<notin> set (as @ d # bs)"
    unfolding xs [symmetric] by auto
  have "listing (move_block ins (Rose r ts) d l) =
      filter (\<lambda>x. x \<notin> ?F) (as @ [d]) @ r # forder ts @ filter (\<lambda>x. x \<notin> ?F) bs"
    unfolding move_block.simps
  proof (rule listing_kids)
    show "distinct (listing (ins r d l))" unfolding ins using asbs rn by auto
  qed (use Rose.IH ins rF dF in auto)
  also have "\<dots> = put_behind d (r # forder ts) (filter (\<lambda>x. x \<notin> ?F) ?xs)"
    using das dnF by (simp add: xs put_behind_split)
  also have "filter (\<lambda>x. x \<notin> ?F) ?xs = filter (\<lambda>x. x \<notin> set (preorder (Rose r ts))) (listing l)"
    by (auto simp: pre simp del: preorder.simps intro: filter_cong)
  finally show ?case by (simp only: pre)
qed

text \<open>Moving a node behind itself lays its subtree out again in place: this is how
  \<open>sortBranch\<close> makes the page follow the sorted children.\<close>

lemma listing_move_self:
  assumes "r \<in> set (listing l)" and "distinct (listing l)" and "distinct (preorder (Rose r ts))"
  shows "listing (move_block ins (Rose r ts) r l) =
      put_behind r (forder ts) (filter (\<lambda>x. x \<notin> set (forder ts)) (listing l))"
proof -
  have rF: "r \<notin> set (forder ts)" and dF: "distinct (forder ts)"
    using assms(3) by (auto simp: forder_def)
  obtain as bs where l: "listing l = as @ r # bs" and ras: "r \<notin> set as"
    using assms(1) by (metis split_list_first)
  have "listing (move_block ins (Rose r ts) r l) =
      filter (\<lambda>x. x \<notin> set (forder ts)) as @ r # forder ts @ filter (\<lambda>x. x \<notin> set (forder ts)) bs"
    unfolding move_block.simps
  proof (rule listing_kids)
    show "distinct (listing (ins r r l))" using assms(2) by (simp add: listing_ins_self)
    show "listing (ins r r l) = as @ r # bs" by (simp add: listing_ins_self l)
  qed (use rF dF listing_move_block in auto)
  then show ?thesis using ras rF by (simp add: l put_behind_split)
qed

end

interpretation dom_rows: row_order insert_after d_order
  by unfold_locales (simp_all add: insert_after_def ins_after_def)

interpretation list_rows: row_order ins_after "\<lambda>xs. xs"
  by unfold_locales (simp_all add: ins_after_def)

end
