(* ===== verification/Tree_Node.thy ===== *)
theory Tree_Node
  imports Table_Dom
begin

text \<open>
  The class \<open>Node\<close> of \<open>jquery.treetable.js\<close>. The state is the page together with the Node
  objects (a heap indexed by references; a reference, once handed out, never dangles) and the
  fields of the Tree object they belong to. Methods that follow parent or child references
  recurse on a fuel: \<open>fuel_of\<close> is one more than the number of Node objects, so running out of
  it means that a node was visited twice on one path, and the code would recurse or loop
  without end: the outcome is \<open>Diverges\<close>. The callbacks of the settings are recorded in a log.
\<close>

section \<open>State\<close>

type_synonym nref = nat

datatype click_target = TreeCell | Expander

record settings =
  branchAttr :: string
  clickableNodeNames :: bool
  column :: nat
  columnElType :: "string list"
  expandable :: bool
  expanderText :: string
  indent :: int
  indenterText :: string
  initialState :: string
  nodeIdAttr :: string
  parentIdAttr :: string
  stringExpand :: string
  stringCollapse :: string
  onInitialized :: bool
  onNodeCollapse :: bool
  onNodeExpand :: bool
  onNodeInitialized :: bool

record node =
  n_row :: rref
  n_id :: dval
  n_parentId :: "dval option"
  n_treeCell :: "nat option"
  n_children :: "nref list"
  n_initialized :: bool
  n_padding :: "string option"
  n_hasExpander :: bool
  n_title :: "string option"
  n_clicks :: "click_target \<Rightarrow> nat"
  n_keydowns :: "click_target \<Rightarrow> nat"

datatype tt_event = NodeCollapse nref | NodeExpand nref | NodeInitialized nref | Initialized

record world = dom +
  heap :: "nref \<Rightarrow> node"
  nextn :: nref
  tmap :: "string \<Rightarrow> nref option"
  tnodes :: "nref list"
  troots :: "nref list"
  tdata :: bool
  tclass :: bool
  tlog :: "tt_event list"

definition upd_node :: "world \<Rightarrow> nref \<Rightarrow> (node \<Rightarrow> node) \<Rightarrow> world" where
  "upd_node w n f = w\<lparr>heap := (heap w)(n := f (heap w n))\<rparr>"

definition log_event :: "world \<Rightarrow> tt_event \<Rightarrow> world" where
  "log_event w e = w\<lparr>tlog := tlog w @ [e]\<rparr>"

abbreviation row_of :: "world \<Rightarrow> nref \<Rightarrow> rref" where
  "row_of w n \<equiv> n_row (heap w n)"

abbreviation children :: "world \<Rightarrow> nref \<Rightarrow> nref list" where
  "children w n \<equiv> n_children (heap w n)"

definition fuel_of :: "world \<Rightarrow> nat" where
  "fuel_of w = Suc (nextn w)"

section \<open>The constructor\<close>

text \<open>\<open>$(this.row.children(columnElType)[column])\<close>: the position of the tree cell among the
  cells of the row, if the row has that many cells of the wanted types.\<close>

definition tree_cell :: "settings \<Rightarrow> row \<Rightarrow> nat option" where
  "tree_cell s x =
     (let cs = filter (\<lambda>i. fst (r_cells x ! i) \<in> set (columnElType s)) [0..<length (r_cells x)]
      in if column s < length cs then Some (cs ! column s) else None)"

definition parent_id_of :: "settings \<Rightarrow> world \<Rightarrow> rref \<Rightarrow> dval option" where
  "parent_id_of s w r =
     (case row_data w r (parentIdAttr s) of
        None \<Rightarrow> None
      | Some p \<Rightarrow> if p = DStr '''' then None else Some p)"

text \<open>\<open>new Node(row, tree, settings)\<close>, where \<open>i\<close> is the id the row carries. The reference of
  the new object is the old \<open>nextn\<close>.\<close>

definition new_node :: "settings \<Rightarrow> world \<Rightarrow> rref \<Rightarrow> dval \<Rightarrow> world" where
  "new_node s w r i =
     (let c = tree_cell s (d_row w r);
          x = \<lparr>n_row = r, n_id = i, n_parentId = parent_id_of s w r, n_treeCell = c,
               n_children = [], n_initialized = False, n_padding = None,
               n_hasExpander = False, n_title = None,
               n_clicks = (\<lambda>_. 0), n_keydowns = (\<lambda>_. 0)\<rparr>;
          w1 = (if c = None then w
                else upd_row w r (\<lambda>y. y\<lparr>r_indenters := Suc (r_indenters y)\<rparr>))
      in w1\<lparr>heap := (heap w1)(nextn w := x), nextn := Suc (nextn w)\<rparr>)"

section \<open>Links between nodes\<close>

definition add_child :: "world \<Rightarrow> nref \<Rightarrow> nref \<Rightarrow> world" where
  "add_child w p c = upd_node w p (\<lambda>x. x\<lparr>n_children := n_children x @ [c]\<rparr>)"

definition remove_child :: "world \<Rightarrow> nref \<Rightarrow> nref \<Rightarrow> world" where
  "remove_child w p c =
     upd_node w p (\<lambda>x. x\<lparr>n_children := splice1 (in_array c (n_children x)) (n_children x)\<rparr>)"

definition parent_node :: "world \<Rightarrow> nref \<Rightarrow> nref option" where
  "parent_node w n =
     (case n_parentId (heap w n) of None \<Rightarrow> None | Some p \<Rightarrow> tmap w (prop_key p))"

text \<open>The loop \<open>while (node = node.parentNode())\<close>.\<close>

primrec ancestors :: "nat \<Rightarrow> world \<Rightarrow> nref \<Rightarrow> nref list option" where
  "ancestors 0 w n = None"
| "ancestors (Suc f) w n =
     (case parent_node w n of
        None \<Rightarrow> Some []
      | Some p \<Rightarrow> map_option ((#) p) (ancestors f w p))"

definition level :: "world \<Rightarrow> nref \<Rightarrow> nat option" where
  "level w n = map_option length (ancestors (fuel_of w) w n)"

definition set_parent :: "settings \<Rightarrow> world \<Rightarrow> nref \<Rightarrow> nref \<Rightarrow> world outcome" where
  "set_parent s w n d =
     and_then
       (if n_parentId (heap w n) \<noteq> None
        then (case parent_node w n of
                None \<Rightarrow> Throws TypeError w
              | Some p \<Rightarrow> Returns (remove_child w p n))
        else Returns w)
       (\<lambda>w1.
         let w2 = upd_node w1 n (\<lambda>x. x\<lparr>n_parentId := Some (n_id (heap w1 d))\<rparr>);
             w3 = set_row_data w2 (row_of w2 n) (parentIdAttr s) (n_id (heap w2 d))
         in Returns (add_child w3 d n))"

section \<open>Classes of the row\<close>

definition collapsed :: "world \<Rightarrow> nref \<Rightarrow> bool" where
  "collapsed w n = has_class w (row_of w n) ''collapsed''"

definition expanded :: "world \<Rightarrow> nref \<Rightarrow> bool" where
  "expanded w n = has_class w (row_of w n) ''expanded''"

definition is_branch_node :: "settings \<Rightarrow> world \<Rightarrow> nref \<Rightarrow> bool" where
  "is_branch_node s w n =
     (if children w n \<noteq> [] \<or> row_data w (row_of w n) (branchAttr s) = Some (DBool True)
      then True else False)"

definition update_branch_leaf_class :: "settings \<Rightarrow> world \<Rightarrow> nref \<Rightarrow> world" where
  "update_branch_leaf_class s w n =
     (let w1 = remove_class w (row_of w n) ''branch'';
          w2 = remove_class w1 (row_of w n) ''leaf''
      in add_class w2 (row_of w n) (if is_branch_node s w2 n then ''branch'' else ''leaf''))"

section \<open>Rendering\<close>

text \<open>\<open>off\<close> and \<open>on\<close> of the \<open>click.treetable\<close> and \<open>keydown.treetable\<close> handlers. A
  tree cell that does not exist is an empty jQuery object, on which both do nothing.
  \<open>indenter.html(expander)\<close> empties the indenter first, which drops the handlers of an
  expander that was in it.\<close>

definition target_exists :: "node \<Rightarrow> click_target \<Rightarrow> bool" where
  "target_exists x t = (case t of TreeCell \<Rightarrow> n_treeCell x \<noteq> None | Expander \<Rightarrow> True)"

definition off_click :: "click_target \<Rightarrow> node \<Rightarrow> node" where
  "off_click t x = (if target_exists x t then x\<lparr>n_clicks := (n_clicks x)(t := 0)\<rparr> else x)"

definition on_click :: "click_target \<Rightarrow> node \<Rightarrow> node" where
  "on_click t x = (if target_exists x t then x\<lparr>n_clicks := (n_clicks x)(t := Suc (n_clicks x t))\<rparr> else x)"

definition off_keydown :: "click_target \<Rightarrow> node \<Rightarrow> node" where
  "off_keydown t x = (if target_exists x t then x\<lparr>n_keydowns := (n_keydowns x)(t := 0)\<rparr> else x)"

definition on_keydown :: "click_target \<Rightarrow> node \<Rightarrow> node" where
  "on_keydown t x =
     (if target_exists x t then x\<lparr>n_keydowns := (n_keydowns x)(t := Suc (n_keydowns x t))\<rparr> else x)"

definition put_expander :: "node \<Rightarrow> node" where
  "put_expander x =
     (if n_hasExpander x
      then x\<lparr>n_clicks := (n_clicks x)(Expander := 0), n_keydowns := (n_keydowns x)(Expander := 0)\<rparr>
      else x)\<lparr>n_hasExpander := True\<rparr>"

definition attach_expander :: "settings \<Rightarrow> node \<Rightarrow> node" where
  "attach_expander s x =
     (let t = (if clickableNodeNames s then TreeCell else Expander)
      in on_keydown t (off_keydown t (on_click t (off_click t (put_expander x)))))"

lemmas attach_defs = attach_expander_def put_expander_def on_click_def off_click_def on_keydown_def
  off_keydown_def Let_def

definition render :: "settings \<Rightarrow> world \<Rightarrow> nref \<Rightarrow> world outcome" where
  "render s w n =
     (let w1 = (if expandable s \<and> is_branch_node s w n then upd_node w n (attach_expander s) else w)
      in case level w1 n of
           None \<Rightarrow> Diverges
         | Some l \<Rightarrow>
             Returns (upd_node w1 n
               (\<lambda>x. x\<lparr>n_padding := Some (show_int (int l * indent s) @ ''px'')\<rparr>)))"

section \<open>Hiding, showing, collapsing, expanding\<close>

primrec node_hide :: "nat \<Rightarrow> world \<Rightarrow> nref \<Rightarrow> world outcome" where
  "node_hide 0 w n = Diverges"
| "node_hide (Suc f) w n =
     and_then (each (node_hide f) w (children w n))
       (\<lambda>w1. Returns (set_displayed w1 (row_of w1 n) False))"

definition hide_children :: "nat \<Rightarrow> world \<Rightarrow> nref \<Rightarrow> world outcome" where
  "hide_children f w n = each (node_hide f) w (children w n)"

definition node_collapse :: "settings \<Rightarrow> nat \<Rightarrow> world \<Rightarrow> nref \<Rightarrow> world outcome" where
  "node_collapse s f w n =
     (if collapsed w n then Returns w
      else
        let w1 = add_class (remove_class w (row_of w n) ''expanded'') (row_of w n) ''collapsed''
        in and_then (hide_children f w1 n)
          (\<lambda>w2.
            let w3 = upd_node w2 n (\<lambda>x. x\<lparr>n_title := Some (stringExpand s)\<rparr>)
            in Returns
                 (if n_initialized (heap w3 n) \<and> onNodeCollapse s
                  then log_event w3 (NodeCollapse n) else w3)))"

text \<open>
  \<open>expand\<close>, \<open>_initialize\<close>, \<open>show\<close> and \<open>_showChildren\<close> call each other. The first two are
  written over the showing of one child, which is then tied by the recursion of \<open>show\<close>.
\<close>

definition expand_via ::
    "(world \<Rightarrow> nref \<Rightarrow> world outcome) \<Rightarrow> settings \<Rightarrow> world \<Rightarrow> nref \<Rightarrow> world outcome" where
  "expand_via sh s w n =
     (if expanded w n then Returns w
      else
        let w1 = add_class (remove_class w (row_of w n) ''collapsed'') (row_of w n) ''expanded'';
            w2 = (if n_initialized (heap w1 n) \<and> onNodeExpand s
                  then log_event w1 (NodeExpand n) else w1)
        in and_then
             (if is_visible w2 (row_of w2 n) then each sh w2 (children w2 n) else Returns w2)
             (\<lambda>w3. Returns (upd_node w3 n (\<lambda>x. x\<lparr>n_title := Some (stringCollapse s)\<rparr>))))"

definition initialize_via ::
    "(world \<Rightarrow> nref \<Rightarrow> world outcome) \<Rightarrow> nat \<Rightarrow> settings \<Rightarrow> world \<Rightarrow> nref \<Rightarrow> world outcome" where
  "initialize_via sh f s w n =
     and_then (render s w n) (\<lambda>w1.
       and_then
         (if expandable s \<and> initialState s = ''collapsed''
          then node_collapse s f w1 n else expand_via sh s w1 n)
         (\<lambda>w2.
           let w3 = (if onNodeInitialized s then log_event w2 (NodeInitialized n) else w2)
           in Returns (upd_node w3 n (\<lambda>x. x\<lparr>n_initialized := True\<rparr>))))"

primrec node_show :: "settings \<Rightarrow> nat \<Rightarrow> world \<Rightarrow> nref \<Rightarrow> world outcome" where
  "node_show s 0 w n = Diverges"
| "node_show s (Suc f) w n =
     and_then
       (if \<not> n_initialized (heap w n) then initialize_via (node_show s f) f s w n else Returns w)
       (\<lambda>w1.
         let w2 = set_displayed w1 (row_of w1 n) True
         in if expanded w2 n then each (node_show s f) w2 (children w2 n) else Returns w2)"

definition show_children :: "settings \<Rightarrow> nat \<Rightarrow> world \<Rightarrow> nref \<Rightarrow> world outcome" where
  "show_children s f w n = each (node_show s f) w (children w n)"

definition node_expand :: "settings \<Rightarrow> nat \<Rightarrow> world \<Rightarrow> nref \<Rightarrow> world outcome" where
  "node_expand s f w n = expand_via (node_show s f) s w n"

definition node_initialize :: "settings \<Rightarrow> nat \<Rightarrow> world \<Rightarrow> nref \<Rightarrow> world outcome" where
  "node_initialize s f w n = initialize_via (node_show s f) f s w n"

definition node_toggle :: "settings \<Rightarrow> nat \<Rightarrow> world \<Rightarrow> nref \<Rightarrow> world outcome" where
  "node_toggle s f w n = (if expanded w n then node_collapse s f w n else node_expand s f w n)"

text \<open>\<open>reveal\<close> climbs to the root first and expands on the way back.\<close>

primrec node_reveal :: "settings \<Rightarrow> nat \<Rightarrow> world \<Rightarrow> nref \<Rightarrow> world outcome" where
  "node_reveal s 0 w n = Diverges"
| "node_reveal s (Suc f) w n =
     and_then
       (if n_parentId (heap w n) \<noteq> None
        then (case parent_node w n of
                None \<Rightarrow> Throws TypeError w
              | Some p \<Rightarrow> node_reveal s f w p)
        else Returns w)
       (\<lambda>w1. node_expand s (fuel_of w1) w1 n)"

section \<open>The handlers render() binds\<close>

text \<open>The click handler asks the plugin of the surrounding table for the node with the id of
  the surrounding row and toggles it. \<open>undefined\<close> as a property name is the text
  \<open>undefined\<close>.\<close>

definition click_handler :: "settings \<Rightarrow> world \<Rightarrow> rref \<Rightarrow> world outcome" where
  "click_handler s w r =
     (if r \<notin> set (d_order w) \<or> \<not> tdata w then Throws TypeError w
      else case tmap w (case row_data w r (nodeIdAttr s) of
                          None \<Rightarrow> ''undefined'' | Some v \<Rightarrow> prop_key v) of
             None \<Rightarrow> Throws TypeError w
           | Some m \<Rightarrow> node_toggle s (fuel_of w) w m)"

definition fire_click :: "settings \<Rightarrow> world \<Rightarrow> nref \<Rightarrow> click_target \<Rightarrow> world outcome" where
  "fire_click s w n t =
     each (\<lambda>w1 _. click_handler s w1 (row_of w1 n)) w (replicate (n_clicks (heap w n) t) ())"

definition fire_keydown :: "settings \<Rightarrow> world \<Rightarrow> nref \<Rightarrow> click_target \<Rightarrow> nat \<Rightarrow> world outcome" where
  "fire_keydown s w n t keyCode =
     each (\<lambda>w1 _. if keyCode = 13 then click_handler s w1 (row_of w1 n) else Returns w1)
       w (replicate (n_keydowns (heap w n) t) ())"

end
