(* ===== verification/Tree_Table.thy ===== *)
theory Tree_Table
  imports Tree_Node
begin

text \<open>
  The class \<open>Tree\<close> of \<open>jquery.treetable.js\<close> and the methods of the jQuery plugin. The Tree
  object's fields are part of the state (\<open>tmap\<close> is \<open>this.tree\<close>, \<open>tnodes\<close> and \<open>troots\<close> are
  \<open>this.nodes\<close> and \<open>this.roots\<close>); \<open>tdata\<close> says whether the table element carries it as its
  \<open>treetable\<close> data.
\<close>

section \<open>Class Tree: loading\<close>

text \<open>The body of the loop of \<open>loadRows\<close>. The node is entered in the map before its parent is
  looked up.\<close>

definition load_row :: "settings \<Rightarrow> world \<Rightarrow> rref \<Rightarrow> world" where
  "load_row s w r =
     (case row_data w r (nodeIdAttr s) of
        None \<Rightarrow> w
      | Some i \<Rightarrow>
          let n = nextn w;
              w1 = new_node s w r i;
              w2 = w1\<lparr>tnodes := tnodes w1 @ [n], tmap := (tmap w1)(prop_key i \<mapsto> n)\<rparr>
          in case parent_node w2 n of
               Some p \<Rightarrow> add_child w2 p n
             | None \<Rightarrow> w2\<lparr>troots := troots w2 @ [n]\<rparr>)"

definition load_rows :: "settings \<Rightarrow> world \<Rightarrow> rref list \<Rightarrow> world" where
  "load_rows s w rows =
     (let w1 = foldl (load_row s) w rows
      in foldl (update_branch_leaf_class s) w1 (tnodes w1))"

definition tree_render :: "settings \<Rightarrow> world \<Rightarrow> world outcome" where
  "tree_render s w = each (\<lambda>w1 n. node_show s (fuel_of w1) w1 n) w (troots w)"

definition tree_collapse_all :: "settings \<Rightarrow> world \<Rightarrow> world outcome" where
  "tree_collapse_all s w = each (\<lambda>w1 n. node_collapse s (fuel_of w1) w1 n) w (tnodes w)"

definition tree_expand_all :: "settings \<Rightarrow> world \<Rightarrow> world outcome" where
  "tree_expand_all s w = each (\<lambda>w1 n. node_expand s (fuel_of w1) w1 n) w (tnodes w)"

primrec find_last_node :: "nat \<Rightarrow> world \<Rightarrow> nref \<Rightarrow> nref option" where
  "find_last_node 0 w n = None"
| "find_last_node (Suc f) w n =
     (if children w n \<noteq> [] then find_last_node f w (last (children w n)) else Some n)"

section \<open>Class Tree: moving and sorting\<close>

primrec move_rows :: "settings \<Rightarrow> nat \<Rightarrow> world \<Rightarrow> nref \<Rightarrow> nref \<Rightarrow> world outcome" where
  "move_rows s 0 w n d = Diverges"
| "move_rows s (Suc f) w n d =
     and_then (render s (insert_after (row_of w n) (row_of w d) w) n)
       (\<lambda>w1. each (\<lambda>w2 c. move_rows s f w2 c n) w1 (rev (children w n)))"

definition update_opt :: "settings \<Rightarrow> nref option \<Rightarrow> world \<Rightarrow> world" where
  "update_opt s p w = (case p of None \<Rightarrow> w | Some m \<Rightarrow> update_branch_leaf_class s w m)"

text \<open>The part of \<open>move\<close> behind the three conditions.\<close>

definition relocate :: "settings \<Rightarrow> world \<Rightarrow> nref \<Rightarrow> nref \<Rightarrow> world outcome" where
  "relocate s w n d =
     and_then (set_parent s w n d) (\<lambda>w1.
       and_then (move_rows s (fuel_of w1) w1 n d) (\<lambda>w2.
         case parent_node w2 n of
           None \<Rightarrow> Throws TypeError w2
         | Some p \<Rightarrow> if length (children w2 p) = 1 then render s w2 p else Returns w2))"

definition tree_move :: "settings \<Rightarrow> world \<Rightarrow> nref \<Rightarrow> nref \<Rightarrow> world outcome" where
  "tree_move s w n d =
     (let np = parent_node w n;
          fin = (\<lambda>w1. Returns (update_branch_leaf_class s
                   (update_opt s (parent_node w1 n) (update_opt s np w1)) n))
      in if n \<noteq> d \<and> n_parentId (heap w n) \<noteq> Some (n_id (heap w d))
         then (case ancestors (fuel_of w) w d of
                 None \<Rightarrow> Diverges
               | Some as \<Rightarrow>
                   if in_array n as = -1 then and_then (relocate s w n d) fin else fin w)
         else fin w)"

definition tree_sort_branch ::
    "settings \<Rightarrow> (nref \<Rightarrow> nref \<Rightarrow> int) \<Rightarrow> world \<Rightarrow> nref \<Rightarrow> world outcome" where
  "tree_sort_branch s cmp w n =
     (let w1 = upd_node w n (\<lambda>x. x\<lparr>n_children := js_sort cmp (n_children x)\<rparr>)
      in move_rows s (fuel_of w1) w1 n n)"

section \<open>Class Tree: removing\<close>

text \<open>\<open>node.row.remove()\<close> also drops the handlers bound inside the row.\<close>

definition detach_row :: "world \<Rightarrow> nref \<Rightarrow> world" where
  "detach_row w n =
     upd_node (remove_row w (row_of w n)) n
       (\<lambda>x. x\<lparr>n_clicks := (\<lambda>_. 0), n_keydowns := (\<lambda>_. 0)\<rparr>)"

definition unload_via :: "(world \<Rightarrow> nref \<Rightarrow> world outcome) \<Rightarrow> settings \<Rightarrow> world \<Rightarrow> nref \<Rightarrow> world outcome" where
  "unload_via rm s w n =
     and_then (each rm w (children w n)) (\<lambda>w1.
       Returns (update_branch_leaf_class s (upd_node w1 n (\<lambda>x. x\<lparr>n_children := []\<rparr>)) n))"

definition drop_node :: "world \<Rightarrow> nref \<Rightarrow> world outcome" where
  "drop_node w n =
     and_then
       (if n_parentId (heap w n) \<noteq> None
        then (case parent_node w n of
                None \<Rightarrow> Throws TypeError w
              | Some p \<Rightarrow> Returns (remove_child w p n))
        else Returns w)
       (\<lambda>w1. Returns (w1\<lparr>tmap := (tmap w1)(prop_key (n_id (heap w1 n)) := None),
                         tnodes := splice1 (in_array n (tnodes w1)) (tnodes w1)\<rparr>))"

primrec remove_node :: "settings \<Rightarrow> nat \<Rightarrow> world \<Rightarrow> nref \<Rightarrow> world outcome" where
  "remove_node s 0 w n = Diverges"
| "remove_node s (Suc f) w n =
     and_then (unload_via (remove_node s f) s w n) (\<lambda>w1. drop_node (detach_row w1 n) n)"

definition unload_branch :: "settings \<Rightarrow> nat \<Rightarrow> world \<Rightarrow> nref \<Rightarrow> world outcome" where
  "unload_branch s f w n = unload_via (remove_node s f) s w n"

section \<open>Sorting by a column\<close>

text \<open>Texts compare by code units.\<close>

datatype sort_key = SortKey (key_text: "nat list")

instantiation sort_key :: linorder
begin

definition less_eq_sort_key :: "sort_key \<Rightarrow> sort_key \<Rightarrow> bool" where
  "less_eq_sort_key a b \<longleftrightarrow> key_text a \<le> key_text b"

definition less_sort_key :: "sort_key \<Rightarrow> sort_key \<Rightarrow> bool" where
  "less_sort_key a b \<longleftrightarrow> key_text a < key_text b"

instance
  by intro_classes
    (auto simp: less_eq_sort_key_def less_sort_key_def sort_key.expand intro: sort_key.expand)

end

definition cell_text :: "settings \<Rightarrow> world \<Rightarrow> nref \<Rightarrow> nat \<Rightarrow> string" where
  "cell_text s w n i =
     (if n_treeCell (heap w n) = Some i
      then (if n_hasExpander (heap w n) then expanderText s else indenterText s) else [])
     @ snd (r_cells (d_row w (row_of w n)) ! i)"

text \<open>\<open>row.find("td:eq(c)").text()\<close>, trimmed and in upper case: a negative position counts
  from the end, and a position that is not there gives the empty text.\<close>

definition extract_value :: "settings \<Rightarrow> world \<Rightarrow> int \<Rightarrow> nref \<Rightarrow> sort_key" where
  "extract_value s w c n =
     (let cells = r_cells (d_row w (row_of w n));
          tds = filter (\<lambda>i. fst (cells ! i) = ''td'') [0..<length cells];
          k = (if c < 0 then c + int (length tds) else c);
          val = (if 0 \<le> k \<and> k < int (length tds) then cell_text s w n (tds ! nat k) else [])
      in SortKey (js_upper (js_trim val)))"

definition column_cmp :: "settings \<Rightarrow> world \<Rightarrow> int \<Rightarrow> nref \<Rightarrow> nref \<Rightarrow> int" where
  "column_cmp s w c a b =
     (let valA = extract_value s w c a; valB = extract_value s w c b
      in if valA < valB then -1 else if valA > valB then 1 else 0)"

section \<open>The plugin\<close>

text \<open>A table with the settings its tree was made with.\<close>

record ttable =
  t_world :: world
  t_settings :: settings

definition default_settings :: settings where
  "default_settings =
     \<lparr>branchAttr = ''ttBranch'', clickableNodeNames = False, column = 0, columnElType = [''td''],
      expandable = False, expanderText = [char_of (160::nat)], indent = 19, indenterText = [],
      initialState = ''collapsed'', nodeIdAttr = ''ttId'', parentIdAttr = ''ttParentId'',
      stringExpand = ''Expand'', stringCollapse = ''Collapse'', onInitialized = False,
      onNodeCollapse = False, onNodeExpand = False, onNodeInitialized = False\<rparr>"

text \<open>\<open>$.extend(defaults, options)\<close>: the options are the change they make to the defaults.\<close>

type_synonym options = "settings \<Rightarrow> settings"

definition tt_init :: "options \<Rightarrow> bool \<Rightarrow> ttable \<Rightarrow> ttable outcome" where
  "tt_init opts force t =
     (let s = opts default_settings; w = t_world t
      in if force \<or> \<not> tdata w
         then map_outcome (\<lambda>w3. \<lparr>t_world = w3, t_settings = s\<rparr>)
                (and_then
                  (tree_render s
                    (load_rows s (w\<lparr>tmap := Map.empty, tnodes := [], troots := []\<rparr>) (d_order w)))
                  (\<lambda>w1.
                    let w2 = w1\<lparr>tclass := True, tdata := True\<rparr>
                    in Returns (if onInitialized s then log_event w2 Initialized else w2)))
         else Returns t)"

definition tt_destroy :: "world \<Rightarrow> world" where
  "tt_destroy w = w\<lparr>tdata := False, tclass := False\<rparr>"

text \<open>\<open>this.data("treetable")\<close> is \<open>undefined\<close> before \<open>init\<close> and after \<open>destroy\<close>; reading a
  field of it throws.\<close>

definition with_tree :: "world \<Rightarrow> world outcome \<Rightarrow> world outcome" where
  "with_tree w m = (if tdata w then m else Throws TypeError w)"

text \<open>The methods that look a node up and complain when there is none.\<close>

definition with_node :: "world \<Rightarrow> dval \<Rightarrow> (nref \<Rightarrow> world outcome) \<Rightarrow> world outcome" where
  "with_node w i k =
     with_tree w
       (case tmap w (prop_key i) of
          Some n \<Rightarrow> k n
        | None \<Rightarrow> Throws (UnknownNode (prop_key i)) w)"

definition tt_collapseAll :: "settings \<Rightarrow> world \<Rightarrow> world outcome" where
  "tt_collapseAll s w = with_tree w (tree_collapse_all s w)"

definition tt_expandAll :: "settings \<Rightarrow> world \<Rightarrow> world outcome" where
  "tt_expandAll s w = with_tree w (tree_expand_all s w)"

definition tt_collapseNode :: "settings \<Rightarrow> dval \<Rightarrow> world \<Rightarrow> world outcome" where
  "tt_collapseNode s i w = with_node w i (\<lambda>n. node_collapse s (fuel_of w) w n)"

definition tt_expandNode :: "settings \<Rightarrow> dval \<Rightarrow> world \<Rightarrow> world outcome" where
  "tt_expandNode s i w =
     with_node w i (\<lambda>n.
       and_then
         (if \<not> n_initialized (heap w n) then node_initialize s (fuel_of w) w n else Returns w)
         (\<lambda>w1. node_expand s (fuel_of w1) w1 n))"

text \<open>Rows without an id end the loop over the new rows with an error.\<close>

definition show_row_node :: "settings \<Rightarrow> world \<Rightarrow> rref \<Rightarrow> world outcome" where
  "show_row_node s w r =
     (case tmap w (case row_data w r (nodeIdAttr s) of
                     None \<Rightarrow> ''undefined'' | Some v \<Rightarrow> prop_key v) of
        None \<Rightarrow> Throws TypeError w
      | Some n \<Rightarrow> node_show s (fuel_of w) w n)"

definition insert_branch_rows :: "nref option \<Rightarrow> rref list \<Rightarrow> world \<Rightarrow> world outcome" where
  "insert_branch_rows node rows w =
     (case node of
        None \<Rightarrow> Returns (append_rows rows w)
      | Some n \<Rightarrow>
          (case find_last_node (fuel_of w) w n of
             None \<Rightarrow> Diverges
           | Some l \<Rightarrow> Returns (insert_rows_after rows (row_of w l) w)))"

definition tt_loadBranch :: "settings \<Rightarrow> nref option \<Rightarrow> rref list \<Rightarrow> world \<Rightarrow> world outcome" where
  "tt_loadBranch s node rows w =
     with_tree w
       (and_then (insert_branch_rows node rows w) (\<lambda>w1.
         and_then (each (show_row_node s) (load_rows s w1 rows) rows) (\<lambda>w2.
           case node of
             None \<Rightarrow> Returns w2
           | Some n \<Rightarrow> and_then (render s w2 n) (\<lambda>w3. node_expand s (fuel_of w3) w3 n))))"

text \<open>\<open>move\<close> does not check its ids: with an unknown node, or an unknown destination for a
  known node, a method of \<open>undefined\<close> is called.\<close>

definition tt_move :: "settings \<Rightarrow> dval \<Rightarrow> dval \<Rightarrow> world \<Rightarrow> world outcome" where
  "tt_move s i j w =
     with_tree w
       (case (tmap w (prop_key i), tmap w (prop_key j)) of
          (Some n, Some d) \<Rightarrow> tree_move s w n d
        | _ \<Rightarrow> Throws TypeError w)"

definition tt_node :: "dval \<Rightarrow> world \<Rightarrow> nref option" where
  "tt_node i w = tmap w (prop_key i)"

definition tt_removeNode :: "settings \<Rightarrow> dval \<Rightarrow> world \<Rightarrow> world outcome" where
  "tt_removeNode s i w = with_node w i (\<lambda>n. remove_node s (fuel_of w) w n)"

definition tt_reveal :: "settings \<Rightarrow> dval \<Rightarrow> world \<Rightarrow> world outcome" where
  "tt_reveal s i w = with_node w i (\<lambda>n. node_reveal s (fuel_of w) w n)"

datatype sort_arg = SortDefault | SortColumn int | SortFunction "nref \<Rightarrow> nref \<Rightarrow> int"

text \<open>\<open>columnOrFunction || settings.column\<close>: column 0 is falsy and gives way to the setting.\<close>

definition sort_comparator :: "settings \<Rightarrow> world \<Rightarrow> sort_arg \<Rightarrow> nref \<Rightarrow> nref \<Rightarrow> int" where
  "sort_comparator s w a =
     (case a of
        SortDefault \<Rightarrow> column_cmp s w (int (column s))
      | SortColumn c \<Rightarrow> column_cmp s w (if c = 0 then int (column s) else c)
      | SortFunction f \<Rightarrow> f)"

definition tt_sortBranch :: "settings \<Rightarrow> nref \<Rightarrow> sort_arg \<Rightarrow> world \<Rightarrow> world outcome" where
  "tt_sortBranch s n a w = with_tree w (tree_sort_branch s (sort_comparator s w a) w n)"

definition tt_unloadBranch :: "settings \<Rightarrow> nref \<Rightarrow> world \<Rightarrow> world outcome" where
  "tt_unloadBranch s n w = with_tree w (unload_branch s (fuel_of w) w n)"

section \<open>Dispatch\<close>

text \<open>A call of the plugin: a method with its arguments, the options (an object or nothing, which is
  \<open>init\<close>), or \<open>CallOther\<close>, a text without further arguments, which may name a method, a property that
  every object inherits, or nothing. Only the effect of a call is modelled here; what \<open>node\<close> returns
  is \<open>tt_node\<close>.\<close>

datatype tt_call =
    CallInit options bool
  | CallDestroy
  | CallCollapseAll
  | CallCollapseNode dval
  | CallExpandAll
  | CallExpandNode dval
  | CallLoadBranch "nref option" "rref list"
  | CallMove dval dval
  | CallNode dval
  | CallRemoveNode dval
  | CallReveal dval
  | CallSortBranch nref sort_arg
  | CallUnloadBranch nref
  | CallOther string

definition on_world :: "(settings \<Rightarrow> world \<Rightarrow> world outcome) \<Rightarrow> ttable \<Rightarrow> ttable outcome" where
  "on_world f t =
     map_outcome (\<lambda>w. t\<lparr>t_world := w\<rparr>) (f (t_settings t) (t_world t))"

text \<open>The functions of \<open>Object.prototype\<close>, which \<open>methods[method]\<close> finds too. Without arguments they
  answer something about the collection and change nothing, but for the two that want a function;
  \<open>__proto__\<close> is an object without \<open>apply\<close>.\<close>

definition inherited_quiet :: "string list" where
  "inherited_quiet =
     [''constructor'', ''hasOwnProperty'', ''isPrototypeOf'', ''propertyIsEnumerable'', ''toLocaleString'',
      ''toString'', ''valueOf'', ''__lookupGetter__'', ''__lookupSetter__'']"

definition inherited_throwing :: "string list" where
  "inherited_throwing = [''__defineGetter__'', ''__defineSetter__'', ''__proto__'']"

text \<open>An argument that is not given is \<open>undefined\<close>, which as a property name is the text
  \<open>undefined\<close>, and has no fields.\<close>

definition call_by_name :: "string \<Rightarrow> ttable \<Rightarrow> ttable outcome" where
  "call_by_name m t =
     (let undef = DStr ''undefined'' in
      if m = '''' \<or> m = ''init'' then tt_init (\<lambda>s. s) False t
      else if m = ''destroy'' then on_world (\<lambda>s w. Returns (tt_destroy w)) t
      else if m = ''collapseAll'' then on_world tt_collapseAll t
      else if m = ''collapseNode'' then on_world (\<lambda>s. tt_collapseNode s undef) t
      else if m = ''expandAll'' then on_world tt_expandAll t
      else if m = ''expandNode'' then on_world (\<lambda>s. tt_expandNode s undef) t
      else if m = ''loadBranch'' then on_world (\<lambda>s. tt_loadBranch s None []) t
      else if m = ''move'' then on_world (\<lambda>s. tt_move s undef undef) t
      else if m = ''node'' then on_world (\<lambda>s w. with_tree w (Returns w)) t
      else if m = ''removeNode'' then on_world (\<lambda>s. tt_removeNode s undef) t
      else if m = ''reveal'' then on_world (\<lambda>s. tt_reveal s undef) t
      else if m = ''sortBranch'' \<or> m = ''unloadBranch'' then Throws TypeError t
      else if m \<in> set inherited_quiet then Returns t
      else if m \<in> set inherited_throwing then Throws TypeError t
      else Throws (NoSuchMethod m) t)"

fun treetable :: "tt_call \<Rightarrow> ttable \<Rightarrow> ttable outcome" where
  "treetable (CallInit opts force) t = tt_init opts force t"
| "treetable CallDestroy t = on_world (\<lambda>s w. Returns (tt_destroy w)) t"
| "treetable CallCollapseAll t = on_world tt_collapseAll t"
| "treetable (CallCollapseNode i) t = on_world (\<lambda>s. tt_collapseNode s i) t"
| "treetable CallExpandAll t = on_world tt_expandAll t"
| "treetable (CallExpandNode i) t = on_world (\<lambda>s. tt_expandNode s i) t"
| "treetable (CallLoadBranch n rows) t = on_world (\<lambda>s. tt_loadBranch s n rows) t"
| "treetable (CallMove i j) t = on_world (\<lambda>s. tt_move s i j) t"
| "treetable (CallNode i) t = on_world (\<lambda>s w. with_tree w (Returns w)) t"
| "treetable (CallRemoveNode i) t = on_world (\<lambda>s. tt_removeNode s i) t"
| "treetable (CallReveal i) t = on_world (\<lambda>s. tt_reveal s i) t"
| "treetable (CallSortBranch n a) t = on_world (\<lambda>s. tt_sortBranch s n a) t"
| "treetable (CallUnloadBranch n) t = on_world (\<lambda>s. tt_unloadBranch s n) t"
| "treetable (CallOther m) t = call_by_name m t"

text \<open>\<open>$(tables).treetable(options)\<close>: \<open>init\<close> on every table of the collection.\<close>

type_synonym page = "nat \<Rightarrow> ttable"

definition tt_init_each :: "options \<Rightarrow> bool \<Rightarrow> nat list \<Rightarrow> page \<Rightarrow> page outcome" where
  "tt_init_each opts force ts pg =
     each (\<lambda>p i. map_outcome (\<lambda>t. p(i := t)) (tt_init opts force (p i))) pg ts"

end
