(* ===== verification/Tree_Forest.thy ===== *)
theory Tree_Forest
  imports Tree_Table
begin

text \<open>
  The abstraction of the node heap to a forest: \<open>forest_of s w fs\<close> says that the Node objects
  of the tree, their links, the map from ids and the rows of the table agree and form the
  forest \<open>fs\<close>. Next to it the frame of the operations that only change how rows are displayed
  (\<open>same_shape\<close>, \<open>touches\<close>), and the loop \<open>ancestors\<close> against the chain of parents.
\<close>

section \<open>A tree in the heap\<close>

fun rep :: "(nref \<Rightarrow> node) \<Rightarrow> nref rose \<Rightarrow> bool" where
  "rep h (Rose n ts) \<longleftrightarrow>
     n_children (h n) = map root ts \<and>
     (\<forall>t\<in>set ts. rep h t \<and>
        (\<exists>p. n_parentId (h (root t)) = Some p \<and> prop_key p = prop_key (n_id (h n))))"

definition keyed :: "world \<Rightarrow> nref set \<Rightarrow> bool" where
  "keyed w N \<longleftrightarrow> (\<forall>n\<in>N. tmap w (prop_key (n_id (heap w n))) = Some n)"

definition forest_of :: "settings \<Rightarrow> world \<Rightarrow> nref rose list \<Rightarrow> bool" where
  "forest_of s w fs \<longleftrightarrow>
     (\<forall>t\<in>set fs. rep (heap w) t \<and> n_parentId (heap w (root t)) = None) \<and>
     distinct (forder fs) \<and>
     distinct (tnodes w) \<and> set (tnodes w) = set (forder fs) \<and>
     (\<forall>n\<in>set (forder fs). n < nextn w) \<and>
     keyed w (set (forder fs)) \<and>
     (\<forall>k n. tmap w k = Some n \<longrightarrow> n \<in> set (forder fs) \<and> prop_key (n_id (heap w n)) = k) \<and>
     inj_on (row_of w) (set (forder fs)) \<and>
     distinct (d_order w) \<and> row_of w ` set (forder fs) \<subseteq> set (d_order w) \<and>
     (\<forall>n\<in>set (forder fs). row_data w (row_of w n) (nodeIdAttr s) = Some (n_id (heap w n)))"

lemma forest_ofD:
  assumes "forest_of s w fs"
  shows "\<And>t. t \<in> set fs \<Longrightarrow> rep (heap w) t"
    and "\<And>t. t \<in> set fs \<Longrightarrow> n_parentId (heap w (root t)) = None"
    and "distinct (forder fs)"
    and "distinct (tnodes w)" and "set (tnodes w) = set (forder fs)"
    and "\<And>n. n \<in> set (forder fs) \<Longrightarrow> n < nextn w"
    and "keyed w (set (forder fs))"
    and "\<And>k n. tmap w k = Some n \<Longrightarrow> n \<in> set (forder fs)"
    and "\<And>k n. tmap w k = Some n \<Longrightarrow> prop_key (n_id (heap w n)) = k"
    and "inj_on (row_of w) (set (forder fs))"
    and "distinct (d_order w)"
    and "\<And>n. n \<in> set (forder fs) \<Longrightarrow> row_of w n \<in> set (d_order w)"
    and "\<And>n. n \<in> set (forder fs) \<Longrightarrow> row_data w (row_of w n) (nodeIdAttr s) = Some (n_id (heap w n))"
  using assms by (auto simp: forest_of_def)

lemma rep_children: "rep h t \<Longrightarrow> n_children (h (root t)) = map root (kids t)"
  by (cases t) simp

lemma rep_kid: "rep h t \<Longrightarrow> c \<in> set (kids t) \<Longrightarrow> rep h c"
  by (cases t) simp

lemma rep_subtree: "rep h v \<Longrightarrow> t \<in> set (subtrees v) \<Longrightarrow> rep h t"
  by (induction v) auto

lemma rep_cong:
  assumes "\<And>n. n \<in> set (preorder t) \<Longrightarrow> n_children (g n) = n_children (h n) \<and>
      n_id (g n) = n_id (h n) \<and> n_parentId (g n) = n_parentId (h n)"
    and "rep h t"
  shows "rep g t"
  using assms
proof (induction t)
  case (Rose n ts)
  have "rep g t \<and> (\<exists>p. n_parentId (g (root t)) = Some p \<and> prop_key p = prop_key (n_id (g n)))"
    if "t \<in> set ts" for t
  proof
    have in_ts: "set (preorder t) \<subseteq> set (preorder (Rose n ts))" using that by auto
    show "rep g t"
      using Rose.IH [OF that] Rose.prems in_ts that by (meson rep.simps subsetD)
    have "root t \<in> set (preorder (Rose n ts))" using in_ts root_in_preorder by blast
    then show "\<exists>p. n_parentId (g (root t)) = Some p \<and> prop_key p = prop_key (n_id (g n))"
      using Rose.prems that by simp
  qed
  moreover have "n_children (g n) = map root ts" using Rose.prems by simp
  ultimately show ?case by simp
qed

text \<open>The node objects of the tree and the subtrees they are the roots of.\<close>

lemma forest_of_subtree:
  assumes "forest_of s w fs" and "t \<in> set (fsubtrees fs)"
  shows "rep (heap w) t" and "distinct (preorder t)"
    and "set (preorder t) \<subseteq> set (forder fs)"
  using assms forest_ofD(1,3) [OF assms(1)]
  by (auto simp: set_fsubtrees dest: rep_subtree distinct_fsubtree fsubtree_forder)
    (metis assms(2) distinct_fsubtree, meson assms(2) fsubtree_forder subsetD)

lemma rep_parent_node:
  assumes "rep (heap w) t" and "keyed w {root t}" and "c \<in> set (kids t)"
  shows "parent_node w (root c) = Some (root t)"
  using assms by (cases t) (auto simp: parent_node_def keyed_def)

section \<open>Frames\<close>

text \<open>Two states that differ in how rows are displayed, in the markup of indenter and
  expander, in handlers, the \<open>initialized\<close> flags and the log only.\<close>

definition same_node :: "node \<Rightarrow> node \<Rightarrow> bool" where
  "same_node x y \<longleftrightarrow> n_row x = n_row y \<and> n_id x = n_id y \<and> n_parentId x = n_parentId y \<and>
     n_treeCell x = n_treeCell y \<and> n_children x = n_children y"

definition same_row :: "row \<Rightarrow> row \<Rightarrow> bool" where
  "same_row x y \<longleftrightarrow> r_attrs x = r_attrs y \<and> r_store x = r_store y \<and> r_cells x = r_cells y \<and>
     r_indenters x = r_indenters y"

definition same_shape :: "world \<Rightarrow> world \<Rightarrow> bool" where
  "same_shape w v \<longleftrightarrow>
     (\<forall>n. same_node (heap w n) (heap v n)) \<and> (\<forall>r. same_row (d_row w r) (d_row v r)) \<and>
     nextn w = nextn v \<and> tmap w = tmap v \<and> tnodes w = tnodes v \<and> troots w = troots v \<and>
     d_order w = d_order v \<and> d_visible w = d_visible v \<and> tdata w = tdata v \<and> tclass w = tclass v"

text \<open>\<open>touches w N v\<close>: the two states agree outside the nodes \<open>N\<close> and their rows, too.\<close>

definition touches :: "world \<Rightarrow> nref set \<Rightarrow> world \<Rightarrow> bool" where
  "touches w N v \<longleftrightarrow>
     same_shape w v \<and> (\<forall>n. n \<notin> N \<longrightarrow> heap v n = heap w n) \<and>
     (\<forall>r. r \<notin> row_of w ` N \<longrightarrow> d_row v r = d_row w r)"

lemma same_shape_simps:
  assumes "same_shape w v"
  shows "row_of v n = row_of w n" and "n_id (heap v n) = n_id (heap w n)"
    and "n_parentId (heap v n) = n_parentId (heap w n)" and "children v n = children w n"
    and "n_treeCell (heap v n) = n_treeCell (heap w n)"
    and "nextn v = nextn w" and "tmap v = tmap w" and "tnodes v = tnodes w"
    and "troots v = troots w" and "d_order v = d_order w" and "d_visible v = d_visible w"
    and "tdata v = tdata w" and "fuel_of v = fuel_of w"
    and "row_data v r k = row_data w r k"
    and "parent_node v n = parent_node w n"
  using assms
  by (simp_all add: same_shape_def same_node_def same_row_def fuel_of_def row_data_def
      parent_node_def split: option.split)

lemma same_shape_refl [simp]: "same_shape w w"
  by (simp add: same_shape_def same_node_def same_row_def)

lemma same_shape_trans: "same_shape w v \<Longrightarrow> same_shape v u \<Longrightarrow> same_shape w u"
  by (simp add: same_shape_def same_node_def same_row_def)

lemma touches_refl [simp]: "touches w N w"
  by (simp add: touches_def)

lemma touches_trans:
  assumes "touches w N v" and "touches v N u"
  shows "touches w N u"
proof -
  have "row_of v ` N = row_of w ` N"
    using assms(1) by (auto simp: touches_def same_shape_simps)
  then show ?thesis
    using assms by (auto simp: touches_def intro: same_shape_trans)
qed

lemma touches_mono: "touches w M v \<Longrightarrow> M \<subseteq> N \<Longrightarrow> touches w N v"
  unfolding touches_def by blast

lemma touches_shape: "touches w N v \<Longrightarrow> same_shape w v"
  by (simp add: touches_def)

lemma touches_heap: "touches w N v \<Longrightarrow> n \<notin> N \<Longrightarrow> heap v n = heap w n"
  by (simp add: touches_def)

lemma touches_row: "touches w N v \<Longrightarrow> r \<notin> row_of w ` N \<Longrightarrow> d_row v r = d_row w r"
  by (simp add: touches_def)

text \<open>The single steps.\<close>

lemma touches_upd_row:
  assumes "\<And>x. same_row x (f x)"
  shows "touches w {n} (upd_row w (row_of w n) f)"
  using assms by (auto simp: touches_def same_shape_def same_node_def same_row_def upd_row_def)

lemma touches_row_ops:
  "touches w {n} (add_class w (row_of w n) c)"
  "touches w {n} (remove_class w (row_of w n) c)"
  "touches w {n} (set_displayed w (row_of w n) b)"
  by (simp_all add: add_class_def remove_class_def set_displayed_def same_row_def touches_upd_row)

lemma touches_upd_node:
  assumes "\<And>x. same_node x (f x)"
  shows "touches w {n} (upd_node w n f)"
  using assms by (auto simp: touches_def same_shape_def same_node_def same_row_def upd_node_def)

lemma touches_log [simp]: "touches w N (log_event w e)"
  by (simp add: touches_def log_event_def same_shape_def same_node_def same_row_def)

lemma same_node_simps [simp]:
  "same_node x x"
  "same_node x (x\<lparr>n_title := t\<rparr>)"
  "same_node x (x\<lparr>n_initialized := b\<rparr>)"
  "same_node x (x\<lparr>n_padding := p\<rparr>)"
  "same_node x (attach_expander s x)"
  by (simp_all add: same_node_def attach_defs)

lemma upd_node_simps [simp]:
  "heap (upd_node w n f) m = (if m = n then f (heap w n) else heap w m)"
  "d_row (upd_node w n f) = d_row w"
  "d_order (upd_node w n f) = d_order w"
  "d_visible (upd_node w n f) = d_visible w"
  "nextn (upd_node w n f) = nextn w"
  "tmap (upd_node w n f) = tmap w"
  "tnodes (upd_node w n f) = tnodes w"
  "troots (upd_node w n f) = troots w"
  "tdata (upd_node w n f) = tdata w"
  by (simp_all add: upd_node_def)

lemma log_event_simps [simp]:
  "heap (log_event w e) = heap w" "d_row (log_event w e) = d_row w"
  "d_order (log_event w e) = d_order w" "d_visible (log_event w e) = d_visible w"
  "nextn (log_event w e) = nextn w" "tmap (log_event w e) = tmap w"
  "tnodes (log_event w e) = tnodes w" "troots (log_event w e) = troots w"
  "tdata (log_event w e) = tdata w"
  by (simp_all add: log_event_def)

lemma row_ops_world [simp]:
  "heap (upd_row w r f) = heap w" "nextn (upd_row w r f) = nextn w"
  "tmap (upd_row w r f) = tmap w" "tnodes (upd_row w r f) = tnodes w"
  "troots (upd_row w r f) = troots w" "tdata (upd_row w r f) = tdata w"
  by (simp_all add: upd_row_def)

lemma row_ops_heap [simp]:
  "heap (set_row_data w r k v) = heap w" "heap (add_class w r c) = heap w"
  "heap (remove_class w r c) = heap w" "heap (set_displayed w r b) = heap w"
  "heap (insert_after r d w) = heap w" "heap (insert_rows_after rs d w) = heap w"
  "heap (append_rows rs w) = heap w" "heap (remove_row w r) = heap w"
  by (simp_all add: dom_defs)

lemma row_ops_tree [simp]:
  "tmap (set_row_data w r k v) = tmap w" "tmap (add_class w r c) = tmap w"
  "tmap (remove_class w r c) = tmap w" "tmap (set_displayed w r b) = tmap w"
  "tmap (insert_after r d w) = tmap w" "tmap (insert_rows_after rs d w) = tmap w"
  "tmap (append_rows rs w) = tmap w" "tmap (remove_row w r) = tmap w"
  "tnodes (set_row_data w r k v) = tnodes w" "tnodes (add_class w r c) = tnodes w"
  "tnodes (remove_class w r c) = tnodes w" "tnodes (set_displayed w r b) = tnodes w"
  "tnodes (insert_after r d w) = tnodes w" "tnodes (insert_rows_after rs d w) = tnodes w"
  "tnodes (append_rows rs w) = tnodes w" "tnodes (remove_row w r) = tnodes w"
  "nextn (set_row_data w r k v) = nextn w" "nextn (add_class w r c) = nextn w"
  "nextn (remove_class w r c) = nextn w" "nextn (set_displayed w r b) = nextn w"
  "nextn (insert_after r d w) = nextn w" "nextn (insert_rows_after rs d w) = nextn w"
  "nextn (append_rows rs w) = nextn w" "nextn (remove_row w r) = nextn w"
  by (simp_all add: dom_defs)

lemma row_ops_data [simp]:
  "tdata (set_row_data w r k v) = tdata w" "tdata (add_class w r c) = tdata w"
  "tdata (remove_class w r c) = tdata w" "tdata (set_displayed w r b) = tdata w"
  "tdata (insert_after r d w) = tdata w" "tdata (insert_rows_after rs d w) = tdata w"
  "tdata (append_rows rs w) = tdata w" "tdata (remove_row w r) = tdata w"
  "troots (set_row_data w r k v) = troots w" "troots (add_class w r c) = troots w"
  "troots (remove_class w r c) = troots w" "troots (set_displayed w r b) = troots w"
  "troots (insert_after r d w) = troots w" "troots (insert_rows_after rs d w) = troots w"
  "troots (append_rows rs w) = troots w" "troots (remove_row w r) = troots w"
  by (simp_all add: dom_defs)

section \<open>Ancestors\<close>

text \<open>The chain of parents, without fuel.\<close>

primrec chain :: "world \<Rightarrow> nref \<Rightarrow> nref list \<Rightarrow> bool" where
  "chain w n [] \<longleftrightarrow> parent_node w n = None"
| "chain w n (p # ps) \<longleftrightarrow> parent_node w n = Some p \<and> chain w p ps"

lemma ancestors_chain: "ancestors f w n = Some as \<longleftrightarrow> chain w n as \<and> length as < f"
proof (induction f arbitrary: n as)
  case (Suc f)
  then show ?case by (cases as) (auto split: option.splits)
qed simp

lemma chain_unique: "chain w n as \<Longrightarrow> chain w n bs \<Longrightarrow> as = bs"
proof (induction as arbitrary: n bs)
  case Nil
  then show ?case by (cases bs) auto
next
  case (Cons a as)
  then show ?case by (cases bs) auto
qed

lemma chain_suffix: "chain w n (as @ m # bs) \<Longrightarrow> chain w m bs"
  by (induction as arbitrary: n) auto

text \<open>A chain that ends meets no node twice.\<close>

lemma chain_distinct: "chain w n as \<Longrightarrow> distinct (n # as)"
proof (induction as arbitrary: n)
  case (Cons p ps)
  have "n \<notin> set (p # ps)"
  proof
    assume "n \<in> set (p # ps)"
    then obtain us vs where "p # ps = us @ n # vs" by (meson split_list)
    then have "chain w n vs" and "length vs < length (p # ps)"
      using Cons.prems chain_suffix by (metis, simp)
    then show False using chain_unique [OF Cons.prems] by auto
  qed
  moreover have "distinct (p # ps)" by (rule Cons.IH) (use Cons.prems in simp)
  ultimately show ?case by simp
qed simp

lemma chain_members: "chain w n as \<Longrightarrow> set as \<subseteq> ran (tmap w)"
  by (induction as arbitrary: n)
    (auto simp: parent_node_def ran_def split: option.splits)

lemma chain_shape: "same_shape w v \<Longrightarrow> chain v n as \<longleftrightarrow> chain w n as"
  by (induction as arbitrary: n) (auto simp: same_shape_simps)

lemma ancestors_shape: "same_shape w v \<Longrightarrow> ancestors f v n = ancestors f w n"
proof (induction f arbitrary: n)
  case (Suc f)
  then show ?case by (simp add: same_shape_simps split: option.split)
qed simp

lemma level_shape: "same_shape w v \<Longrightarrow> level v n = level w n"
  by (simp add: level_def ancestors_shape same_shape_simps)

text \<open>In a represented forest every chain ends, within the fuel.\<close>

lemma chain_below:
  assumes "rep (heap w) t" and "keyed w (set (preorder t))" and "chain w (root t) as"
    and "d \<in> set (below t)"
  shows "\<exists>bs. chain w d (bs @ root t # as)"
  using assms
proof (induction t arbitrary: as)
  case (Rose n ts)
  then obtain c where c: "c \<in> set ts" and d: "d \<in> set (preorder c)"
    by (auto simp: below_def set_forder)
  have pc: "parent_node w (root c) = Some n"
    using rep_parent_node [of w "Rose n ts" c] Rose.prems c by (auto simp: keyed_def)
  then have ch: "chain w (root c) (n # as)" using Rose.prems by simp
  show ?case
  proof (cases "d = root c")
    case True
    then have "chain w d ([] @ root (Rose n ts) # as)" using ch by simp
    then show ?thesis by blast
  next
    case False
    then have "d \<in> set (below c)" using d by (auto simp: preorder_unfold)
    moreover have "keyed w (set (preorder c))" using Rose.prems(2) c by (auto simp: keyed_def)
    ultimately obtain bs where "chain w d (bs @ root c # n # as)"
      using Rose.IH [OF c _ _ ch] Rose.prems(1) c by auto
    then have "chain w d ((bs @ [root c]) @ root (Rose n ts) # as)" by simp
    then show ?thesis by blast
  qed
qed

lemma forest_of_root_chain: "forest_of s w fs \<Longrightarrow> t \<in> set fs \<Longrightarrow> chain w (root t) []"
  by (simp add: parent_node_def forest_ofD(2))

lemma keyed_subset: "keyed w N \<Longrightarrow> M \<subseteq> N \<Longrightarrow> keyed w M"
  by (auto simp: keyed_def)

lemma forest_of_keyed_member:
  "forest_of s w fs \<Longrightarrow> t \<in> set fs \<Longrightarrow> keyed w (set (preorder t))"
  by (auto intro!: keyed_subset [OF forest_ofD(7)] simp: set_forder)

lemma forest_of_chain:
  assumes "forest_of s w fs" and "n \<in> set (forder fs)"
  obtains as where "chain w n as"
proof -
  from assms(2) obtain t where t: "t \<in> set fs" and n: "n \<in> set (preorder t)"
    by (auto simp: set_forder)
  show thesis
  proof (cases "n = root t")
    case True
    then show thesis using forest_of_root_chain [OF assms(1) t] that by blast
  next
    case False
    then have "n \<in> set (below t)" using n by (simp add: preorder_unfold)
    then show thesis
      using chain_below [OF forest_ofD(1) [OF assms(1) t] forest_of_keyed_member [OF assms(1) t]
          forest_of_root_chain [OF assms(1) t]] that by blast
  qed
qed

lemma chain_length:
  assumes "forest_of s w fs" and "chain w n as"
  shows "length as < fuel_of w"
proof -
  have "set as \<subseteq> ran (tmap w)" by (rule chain_members [OF assms(2)])
  also have "\<dots> \<subseteq> {..<nextn w}"
    using forest_ofD(6,8) [OF assms(1)] by (auto simp: ran_def)
  finally have "card (set as) \<le> nextn w" by (metis card_lessThan card_mono finite_lessThan)
  then show ?thesis
    using chain_distinct [OF assms(2)] by (simp add: distinct_card fuel_of_def)
qed

lemma forest_of_ancestors:
  assumes "forest_of s w fs" and "n \<in> set (forder fs)"
  obtains as where "ancestors (fuel_of w) w n = Some as" and "chain w n as"
  using assms by (metis ancestors_chain chain_length forest_of_chain)

lemma forest_of_level:
  "forest_of s w fs \<Longrightarrow> n \<in> set (forder fs) \<Longrightarrow> \<exists>l. level w n = Some l"
  by (metis forest_of_ancestors level_def option.map(2))

text \<open>A node in the subtree of \<open>n\<close> is \<open>n\<close> or has \<open>n\<close> among its ancestors.\<close>

lemma subtree_chain:
  assumes fo: "forest_of s w fs" and t: "t \<in> set (fsubtrees fs)"
    and d: "d \<in> set (preorder t)" and ch: "chain w d as"
  shows "d = root t \<or> root t \<in> set as"
proof (cases "d = root t")
  case False
  then have db: "d \<in> set (below t)" using d by (simp add: preorder_unfold)
  have rt: "root t \<in> set (forder fs)"
    using forest_of_subtree(3) [OF fo t] by auto
  obtain bs where "chain w (root t) bs" by (rule forest_of_chain [OF fo rt])
  then obtain cs where "chain w d (cs @ root t # bs)"
    using chain_below [OF forest_of_subtree(1) [OF fo t] _ _ db]
      keyed_subset [OF forest_ofD(7) [OF fo] forest_of_subtree(3) [OF fo t]] by blast
  then have "as = cs @ root t # bs" by (rule chain_unique [OF ch])
  then show ?thesis by simp
qed simp

section \<open>Frames and the abstraction\<close>

lemma rep_shape: "same_shape w v \<Longrightarrow> rep (heap w) t \<Longrightarrow> rep (heap v) t"
  by (erule rep_cong [rotated]) (simp add: same_shape_simps)

lemma keyed_shape: "same_shape w v \<Longrightarrow> keyed w N \<Longrightarrow> keyed v N"
  by (simp add: keyed_def same_shape_simps)

lemma forest_of_shape:
  assumes "same_shape w v" and "forest_of s w fs"
  shows "forest_of s v fs"
proof -
  note sh = same_shape_simps [OF assms(1)]
  show ?thesis
    using assms(2) rep_shape [OF assms(1)] keyed_shape [OF assms(1)]
    unfolding forest_of_def sh inj_on_def by (simp add: sh)
qed

end
