(* ===== verification/Tree_Display.thy ===== *)
theory Tree_Display
  imports Tree_Forest
begin

text \<open>
  What hiding, showing, collapsing and expanding do to the page. The contract of a tree table
  is \<open>vis_ok\<close>: the row of a child is displayed exactly when its parent's row is displayed and
  expanded. Hiding and collapsing have closed forms; showing and expanding are proved against
  the interface \<open>child_display\<close> (what showing one child achieves), on which \<open>expand\<close> and
  \<open>_initialize\<close> rest and which \<open>show\<close> provides, by induction on its fuel.
\<close>

section \<open>Displayed rows\<close>

definition disp :: "world \<Rightarrow> nref \<Rightarrow> bool" where
  "disp w n = r_displayed (d_row w (row_of w n))"

definition vis_ok :: "world \<Rightarrow> nref set \<Rightarrow> bool" where
  "vis_ok w N \<longleftrightarrow>
     (\<forall>n\<in>N. \<forall>c\<in>set (children w n). disp w c \<longleftrightarrow> disp w n \<and> expanded w n)"

text \<open>Nodes just made from rows that carry neither class.\<close>

definition fresh :: "world \<Rightarrow> nref set \<Rightarrow> bool" where
  "fresh w N \<longleftrightarrow>
     (\<forall>n\<in>N. \<not> n_initialized (heap w n) \<and> \<not> collapsed w n \<and> \<not> expanded w n)"

definition good :: "world \<Rightarrow> nref rose \<Rightarrow> bool" where
  "good w t \<longleftrightarrow> vis_ok w (set (preorder t)) \<or> fresh w (set (preorder t))"

text \<open>Trees whose nodes do not share rows and whose chains of parents end.\<close>

definition sound :: "world \<Rightarrow> nref rose list \<Rightarrow> bool" where
  "sound w ts \<longleftrightarrow> (\<forall>t\<in>set ts. rep (heap w) t) \<and> distinct (forder ts) \<and>
     inj_on (row_of w) (set (forder ts)) \<and> (\<forall>n\<in>set (forder ts). level w n \<noteq> None)"

lemma sound_shape: "same_shape w v \<Longrightarrow> sound w ts \<Longrightarrow> sound v ts"
  by (auto simp: sound_def same_shape_simps level_shape inj_on_def intro: rep_shape)

lemma sound_Cons:
  assumes "sound w (t # ts)"
  shows "sound w [t]" and "sound w ts" and "set (preorder t) \<inter> set (forder ts) = {}"
    and "inj_on (row_of w) (set (preorder t) \<union> set (forder ts))"
  using assms by (auto simp: sound_def inj_on_Un)

lemma sound_kids:
  assumes "sound w [t]"
  shows "sound w (kids t)"
proof (cases t)
  case (Rose n ts)
  then have "set (forder ts) \<subseteq> set (preorder t)" and "distinct (forder ts)"
    using assms by (auto simp: sound_def forder_def)
  then show ?thesis using assms Rose by (auto simp: sound_def intro: inj_on_subset)
qed

lemma sound_rep: "sound w [t] \<Longrightarrow> rep (heap w) t"
  by (simp add: sound_def)

lemma sound_forest:
  "forest_of s w fs \<Longrightarrow> sound w fs"
  using forest_of_level [of s w fs] by (auto simp: sound_def forest_of_def)

lemma sound_forest_subtree:
  "forest_of s w fs \<Longrightarrow> t \<in> set (fsubtrees fs) \<Longrightarrow> sound w [t]"
  using forest_of_subtree [of s w fs t] sound_forest [of s w fs]
  by (auto simp: sound_def intro: inj_on_subset)

lemma rep_closed:
  "rep h t \<Longrightarrow> n \<in> set (preorder t) \<Longrightarrow> set (n_children (h n)) \<subseteq> set (below t)"
proof (induction t)
  case (Rose m ts)
  show ?case
  proof (cases "n = m")
    case True
    then show ?thesis using Rose.prems by (auto simp: below_def set_forder)
  next
    case False
    then obtain c where c: "c \<in> set ts" "n \<in> set (preorder c)" using Rose.prems(2) by auto
    then have "set (n_children (h n)) \<subseteq> set (below c)" using Rose.IH Rose.prems(1) by simp
    also have "\<dots> \<subseteq> set (preorder c)" by (simp add: preorder_unfold subset_insertI)
    finally show ?thesis using c by (auto simp: below_def set_forder)
  qed
qed

lemma below_preorder: "set (below t) \<subseteq> set (preorder t)"
  by (simp add: preorder_unfold subset_insertI)

text \<open>What is outside the touched nodes looks the same.\<close>

lemma touches_outside:
  assumes "touches w M v" and "n \<notin> M" and "inj_on (row_of w) (insert n M)"
  shows "disp v n = disp w n" and "expanded v n = expanded w n"
    and "collapsed v n = collapsed w n" and "heap v n = heap w n"
proof -
  have "row_of w n \<notin> row_of w ` M" using assms(2,3) by (auto simp: inj_on_def)
  then have "d_row v (row_of w n) = d_row w (row_of w n)" by (rule touches_row [OF assms(1)])
  moreover show "heap v n = heap w n" by (rule touches_heap [OF assms(1,2)])
  ultimately show "disp v n = disp w n" and "expanded v n = expanded w n"
    and "collapsed v n = collapsed w n"
    by (simp_all add: disp_def expanded_def collapsed_def has_class_def)
qed

lemma touches_outside_set:
  assumes "touches w M v" and "N \<inter> M = {}" and "inj_on (row_of w) (M \<union> N)" and "n \<in> N"
  shows "disp v n = disp w n" and "expanded v n = expanded w n"
    and "collapsed v n = collapsed w n" and "heap v n = heap w n"
proof -
  have "inj_on (row_of w) (insert n M)" by (rule inj_on_subset [OF assms(3)]) (use assms(4) in auto)
  moreover have "n \<notin> M" using assms(2,4) by auto
  ultimately show "disp v n = disp w n" and "expanded v n = expanded w n"
    and "collapsed v n = collapsed w n" and "heap v n = heap w n"
    using touches_outside [OF assms(1)] by auto
qed

lemma good_untouched:
  assumes "touches w M v" and "set (preorder t) \<inter> M = {}"
    and inj: "inj_on (row_of w) (M \<union> set (preorder t))" and "rep (heap w) t"
  shows "good v t = good w t" and "vis_ok v (set (preorder t)) = vis_ok w (set (preorder t))"
proof -
  note out = touches_outside_set [OF assms(1,2) inj]
  have kids: "c \<in> set (preorder t)" if "n \<in> set (preorder t)" "c \<in> set (children w n)" for n c
    by (rule subsetD [OF below_preorder]) (rule subsetD [OF rep_closed [OF assms(4) that(1)] that(2)])
  have ch: "children v n = children w n" for n
    by (rule same_shape_simps(4) [OF touches_shape [OF assms(1)]])
  show v: "vis_ok v (set (preorder t)) = vis_ok w (set (preorder t))"
    unfolding vis_ok_def ch
  proof (intro ball_cong refl)
    fix n c assume n: "n \<in> set (preorder t)" and c: "c \<in> set (children w n)"
    show "(disp v c \<longleftrightarrow> disp v n \<and> expanded v n) = (disp w c \<longleftrightarrow> disp w n \<and> expanded w n)"
      by (simp add: out [OF n] out [OF kids [OF n c]])
  qed
  have "fresh v (set (preorder t)) = fresh w (set (preorder t))"
    unfolding fresh_def using out by auto
  then show "good v t = good w t" using v by (simp add: good_def)
qed

section \<open>Hiding\<close>

definition display_all :: "world \<Rightarrow> rref set \<Rightarrow> bool \<Rightarrow> world" where
  "display_all w R b =
     w\<lparr>d_row := (\<lambda>r. if r \<in> R then (d_row w r)\<lparr>r_displayed := b\<rparr> else d_row w r)\<rparr>"

lemma display_all_simps [simp]:
  "heap (display_all w R b) = heap w" "nextn (display_all w R b) = nextn w"
  "tmap (display_all w R b) = tmap w" "tnodes (display_all w R b) = tnodes w"
  "d_order (display_all w R b) = d_order w" "d_visible (display_all w R b) = d_visible w"
  "display_all w {} b = w"
  "r_displayed (d_row (display_all w R b) r) = (if r \<in> R then b else r_displayed (d_row w r))"
  "r_classes (d_row (display_all w R b) r) = r_classes (d_row w r)"
  by (simp_all add: display_all_def)

lemma display_all_twice: "display_all (display_all w R b) Q b = display_all w (R \<union> Q) b"
  by (auto simp: display_all_def fun_eq_iff)

lemma set_displayed_all: "set_displayed w r b = display_all w {r} b"
  by (auto simp: set_displayed_def upd_row_def display_all_def fun_eq_iff)

lemma touches_display_all: "touches w N (display_all w (row_of w ` N) b)"
  by (auto simp: touches_def same_shape_def same_node_def same_row_def display_all_def)

lemma each_hide:
  assumes "\<And>t w. t \<in> set ts \<Longrightarrow> rep (heap w) t \<Longrightarrow>
      hd1 w (root t) = Returns (display_all w (row_of w ` set (preorder t)) False)"
    and "\<forall>t\<in>set ts. rep (heap w) t"
  shows "each hd1 w (map root ts) = Returns (display_all w (row_of w ` set (forder ts)) False)"
  using assms by (induction ts arbitrary: w) (auto simp: display_all_twice image_Un)

text \<open>\<open>hide\<close> hides the row of the node and of every descendant, and nothing else.\<close>

lemma node_hide_eq:
  "rep (heap w) t \<Longrightarrow> height t \<le> f \<Longrightarrow>
    node_hide f w (root t) = Returns (display_all w (row_of w ` set (preorder t)) False)"
proof (induction f arbitrary: t w)
  case 0
  then show ?case using height_pos [of t] by simp
next
  case (Suc f)
  obtain n ts where t: "t = Rose n ts" by (cases t)
  have "each (node_hide f) w (map root ts) =
      Returns (display_all w (row_of w ` set (forder ts)) False)"
  proof (rule each_hide)
    fix c and v :: world assume "c \<in> set ts" and "rep (heap v) c"
    then show "node_hide f v (root c) = Returns (display_all v (row_of v ` set (preorder c)) False)"
      using Suc.IH height_kid [of c t] Suc.prems(2) t by simp
  qed (use Suc.prems t in simp)
  moreover have "children w n = map root ts" using Suc.prems t by simp
  ultimately show ?case
    by (simp add: t set_displayed_all display_all_twice forder_def insert_commute)
qed

lemma hide_children_eq:
  assumes "rep (heap w) t" and "height t \<le> Suc f"
  shows "hide_children f w (root t) = Returns (display_all w (row_of w ` set (below t)) False)"
proof -
  have "each (node_hide f) w (map root (kids t)) =
      Returns (display_all w (row_of w ` set (forder (kids t))) False)"
  proof (rule each_hide)
    fix c and v :: world assume "c \<in> set (kids t)" and "rep (heap v) c"
    then show "node_hide f v (root c) = Returns (display_all v (row_of v ` set (preorder c)) False)"
      using node_hide_eq height_kid [of c t] assms(2) by simp
  qed (use assms rep_kid in blast)
  then show ?thesis
    by (simp add: hide_children_def rep_children [OF assms(1)] below_def)
qed

section \<open>Collapsing\<close>

definition collapse_result :: "settings \<Rightarrow> world \<Rightarrow> nref rose \<Rightarrow> world" where
  "collapse_result s w t =
     (let n = root t; r = row_of w n;
          w1 = add_class (remove_class w r ''expanded'') r ''collapsed'';
          w2 = display_all w1 (row_of w ` set (below t)) False;
          w3 = upd_node w2 n (\<lambda>x. x\<lparr>n_title := Some (stringExpand s)\<rparr>)
      in if n_initialized (heap w n) \<and> onNodeCollapse s
         then log_event w3 (NodeCollapse n) else w3)"

lemma node_collapse_eq:
  assumes "rep (heap w) t" and "height t \<le> Suc f"
  shows "node_collapse s f w (root t) =
      Returns (if collapsed w (root t) then w else collapse_result s w t)"
proof -
  let ?w1 = "add_class (remove_class w (row_of w (root t)) ''expanded'') (row_of w (root t)) ''collapsed''"
  have "hide_children f ?w1 (root t) = Returns (display_all ?w1 (row_of ?w1 ` set (below t)) False)"
    by (rule hide_children_eq) (use assms in simp_all)
  then show ?thesis by (simp add: node_collapse_def collapse_result_def Let_def)
qed

lemma touches_collapse_result:
  "touches w (set (preorder t)) (collapse_result s w t)"
proof -
  let ?n = "root t" and ?N = "set (preorder t)"
  let ?w0 = "remove_class w (row_of w ?n) ''expanded''"
  let ?w1 = "add_class ?w0 (row_of w ?n) ''collapsed''"
  let ?w2 = "display_all ?w1 (row_of ?w1 ` set (below t)) False"
  let ?w3 = "upd_node ?w2 ?n (\<lambda>x. x\<lparr>n_title := Some (stringExpand s)\<rparr>)"
  have root: "{?n} \<subseteq> ?N" and sub: "set (below t) \<subseteq> ?N" by (auto simp: below_preorder)
  have "touches w ?N ?w0" by (rule touches_mono [OF touches_row_ops(2) root])
  moreover have "touches ?w0 {?n} ?w1" using touches_row_ops(1) [of ?w0 ?n] by simp
  moreover have "touches ?w1 ?N ?w2" by (rule touches_mono [OF touches_display_all sub])
  moreover have "touches ?w2 {?n} ?w3" by (rule touches_upd_node) simp
  ultimately have "touches w ?N ?w3" by (meson root touches_mono touches_trans)
  then show ?thesis
    by (auto simp: collapse_result_def Let_def intro: touches_trans)
qed

lemma collapse_result_facts:
  assumes "inj_on (row_of w) (set (preorder t))" and "distinct (preorder t)"
  shows "collapsed (collapse_result s w t) (root t)"
    and "\<not> expanded (collapse_result s w t) (root t)"
    and "\<And>m. m \<in> set (below t) \<Longrightarrow> \<not> disp (collapse_result s w t) m"
    and "disp (collapse_result s w t) (root t) = disp w (root t)"
    and "\<And>m. n_initialized (heap (collapse_result s w t) m) = n_initialized (heap w m)"
    and "\<And>m. expanded (collapse_result s w t) m \<Longrightarrow> expanded w m"
proof -
  have "root t \<notin> set (below t)" using assms(2) by (simp add: preorder_unfold)
  then have r: "row_of w (root t) \<notin> row_of w ` set (below t)"
    using assms(1) by (auto simp: preorder_unfold)
  show "collapsed (collapse_result s w t) (root t)" "\<not> expanded (collapse_result s w t) (root t)"
    "\<And>m. m \<in> set (below t) \<Longrightarrow> \<not> disp (collapse_result s w t) m"
    "disp (collapse_result s w t) (root t) = disp w (root t)"
    "\<And>m. n_initialized (heap (collapse_result s w t) m) = n_initialized (heap w m)"
    "\<And>m. expanded (collapse_result s w t) m \<Longrightarrow> expanded w m"
    using r by (auto simp: collapse_result_def Let_def collapsed_def expanded_def disp_def
        has_class_def add_class_def remove_class_def split: if_splits)
qed

text \<open>Where every descendant is hidden, \<open>vis_ok\<close> holds below.\<close>

lemma vis_ok_hidden:
  assumes "rep (heap w) t" and "\<And>m. m \<in> set (preorder t) \<Longrightarrow> \<not> disp w m"
  shows "vis_ok w (set (preorder t))"
  using assms rep_closed [OF assms(1)] below_preorder [of t] unfolding vis_ok_def by blast

lemma vis_ok_Un: "vis_ok w (M \<union> N) \<longleftrightarrow> vis_ok w M \<and> vis_ok w N"
  by (auto simp: vis_ok_def)

lemma vis_ok_forder: "vis_ok w (set (forder ts)) \<longleftrightarrow> (\<forall>t\<in>set ts. vis_ok w (set (preorder t)))"
  by (auto simp: vis_ok_def set_forder)

text \<open>The tree below a root is fine, and the root agrees with its children.\<close>

lemma vis_ok_root:
  assumes "rep (heap w) t"
  shows "vis_ok w (set (preorder t)) \<longleftrightarrow>
    (\<forall>c\<in>set (kids t). vis_ok w (set (preorder c)) \<and>
       (disp w (root c) \<longleftrightarrow> disp w (root t) \<and> expanded w (root t)))"
proof -
  have "set (preorder t) = {root t} \<union> set (forder (kids t))"
    by (simp add: preorder_unfold below_def)
  then have "vis_ok w (set (preorder t)) \<longleftrightarrow>
      vis_ok w {root t} \<and> (\<forall>c\<in>set (kids t). vis_ok w (set (preorder c)))"
    by (simp add: vis_ok_Un vis_ok_forder del: Un_insert_left)
  then show ?thesis by (auto simp: vis_ok_def rep_children [OF assms])
qed

lemma fresh_kid: "fresh w (set (preorder t)) \<Longrightarrow> c \<in> set (kids t) \<Longrightarrow> fresh w (set (preorder c))"
  using kids_preorder [of c t] below_preorder [of t] unfolding fresh_def by blast

lemma good_kid: "rep (heap w) t \<Longrightarrow> good w t \<Longrightarrow> c \<in> set (kids t) \<Longrightarrow> good w c"
  by (auto simp: good_def vis_ok_root dest: fresh_kid)

end
