(* ===== verification/Tree_Show.thy ===== *)
theory Tree_Show
  imports Tree_Display
begin

text \<open>
  Rendering, showing, initialising and expanding. \<open>child_display\<close> is the interface between a
  node and its children: showing one child returns, touches only its subtree, displays its
  row and leaves the subtree in order. \<open>expand\<close> and \<open>_initialize\<close> are its clients; \<open>show\<close>
  provides it for every fuel that covers the height of the child.
\<close>

section \<open>States that look alike\<close>

definition looks :: "world \<Rightarrow> world \<Rightarrow> bool" where
  "looks w v \<longleftrightarrow> same_shape w v \<and> d_row v = d_row w \<and>
     (\<forall>m. n_initialized (heap v m) = n_initialized (heap w m))"

lemma looks_simps:
  assumes "looks w v"
  shows "disp v m = disp w m" and "expanded v m = expanded w m" and "collapsed v m = collapsed w m"
    and "n_initialized (heap v m) = n_initialized (heap w m)"
    and "vis_ok v N = vis_ok w N" and "fresh v N = fresh w N" and "good v t = good w t"
    and "is_visible v r = is_visible w r"
proof -
  have d: "d_row v = d_row w" and i: "\<And>m. n_initialized (heap v m) = n_initialized (heap w m)"
    using assms by (auto simp: looks_def)
  note sh = same_shape_simps [of w v]
  have sh: "same_shape w v" using assms by (simp add: looks_def)
  show a: "disp v m = disp w m" "expanded v m = expanded w m" "collapsed v m = collapsed w m" for m
    by (simp_all add: disp_def expanded_def collapsed_def has_class_def d same_shape_simps [OF sh])
  show b: "vis_ok v N = vis_ok w N" "fresh v N = fresh w N" for N
    by (simp_all add: vis_ok_def fresh_def a i same_shape_simps [OF sh])
  show "good v t = good w t" by (simp add: good_def b)
  show "is_visible v r = is_visible w r" by (simp add: is_visible_def d same_shape_simps [OF sh])
  show "n_initialized (heap v m) = n_initialized (heap w m)" by (rule i)
qed

lemma looks_log: "looks w (log_event w e)"
  using touches_log [of w "{}" e] by (simp add: looks_def touches_def)

lemma looks_upd_node:
  assumes "\<And>x. same_node x (f x)" and "\<And>x. n_initialized (f x) = n_initialized x"
  shows "looks w (upd_node w n f)"
  using touches_upd_node [OF assms(1), of w n] assms(2) by (simp add: looks_def touches_def)

lemma looks_trans: "looks w v \<Longrightarrow> looks v u \<Longrightarrow> looks w u"
  by (auto simp: looks_def intro: same_shape_trans)

lemma looks_refl [simp]: "looks w w"
  by (simp add: looks_def)

section \<open>Rendering\<close>

lemma attach_expander_initialized [simp]: "n_initialized (attach_expander s x) = n_initialized x"
  by (simp add: attach_defs)

lemma render_eq:
  assumes "level w n = Some l"
  shows "render s w n =
    (let w1 = (if expandable s \<and> is_branch_node s w n then upd_node w n (attach_expander s) else w)
     in Returns (upd_node w1 n (\<lambda>x. x\<lparr>n_padding := Some (show_int (int l * indent s) @ ''px'')\<rparr>)))"
proof -
  have "same_shape w (upd_node w n (attach_expander s))"
    using touches_shape [OF touches_upd_node] by simp
  then show ?thesis using assms by (simp add: render_def Let_def level_shape)
qed

lemma render_returns:
  assumes "level w n \<noteq> None"
  shows "\<exists>v. render s w n = Returns v \<and> touches w {n} v \<and> looks w v"
proof -
  obtain l where l: "level w n = Some l" using assms by blast
  define w1 where "w1 = (if expandable s \<and> is_branch_node s w n
    then upd_node w n (attach_expander s) else w)"
  define v where "v = upd_node w1 n (\<lambda>x. x\<lparr>n_padding := Some (show_int (int l * indent s) @ ''px'')\<rparr>)"
  have "touches w {n} w1" and "looks w w1"
    by (auto simp: w1_def intro: touches_upd_node looks_upd_node)
  moreover have "touches w1 {n} v" and "looks w1 v"
    by (auto simp: v_def intro: touches_upd_node looks_upd_node)
  moreover have "render s w n = Returns v"
    by (simp add: render_eq [OF l] v_def w1_def Let_def)
  ultimately show ?thesis by (blast intro: touches_trans looks_trans)
qed

text \<open>A node ready to be shown: its subtrees are in order, and where it is not expanded
  they are hidden.\<close>

definition ready :: "world \<Rightarrow> nref rose \<Rightarrow> bool" where
  "ready w t \<longleftrightarrow> (\<forall>c\<in>set (kids t). good w c) \<and>
     (\<not> expanded w (root t) \<longrightarrow>
        (\<forall>c\<in>set (kids t). \<not> disp w (root c) \<and> vis_ok w (set (preorder c))))"

lemma ready_looks: "looks w v \<Longrightarrow> ready v t = ready w t"
  by (simp add: ready_def looks_simps)

lemma ready_vis_ok: "rep (heap w) t \<Longrightarrow> vis_ok w (set (preorder t)) \<Longrightarrow> ready w t"
  by (auto simp: ready_def vis_ok_root good_def)

lemma children_kids:
  assumes "sound w [t]"
  shows "children w (root t) = map root (kids t)"
  by (rule rep_children [OF sound_rep [OF assms]])

section \<open>Showing a child, as an interface\<close>

locale child_display =
  fixes sh :: "world \<Rightarrow> nref \<Rightarrow> world outcome" and h :: nat
  assumes shows_child: "sound w [t] \<Longrightarrow> height t \<le> h \<Longrightarrow>
      \<exists>v. sh w (root t) = Returns v \<and> touches w (set (preorder t)) v \<and>
        disp v (root t) \<and> n_initialized (heap v (root t)) \<and>
        (good w t \<longrightarrow> vis_ok v (set (preorder t)))"
begin

lemma shows_children:
  "sound w ts \<Longrightarrow> \<forall>t\<in>set ts. height t \<le> h \<Longrightarrow>
    \<exists>v. each sh w (map root ts) = Returns v \<and> touches w (set (forder ts)) v \<and>
      (\<forall>t\<in>set ts. disp v (root t)) \<and>
      ((\<forall>t\<in>set ts. good w t) \<longrightarrow> vis_ok v (set (forder ts)))"
proof (induction ts arbitrary: w)
  case Nil
  then show ?case by (simp add: vis_ok_def)
next
  case (Cons t ts)
  note sd = sound_Cons [OF Cons.prems(1)]
  obtain u where u: "sh w (root t) = Returns u" "touches w (set (preorder t)) u"
    "disp u (root t)" "good w t \<longrightarrow> vis_ok u (set (preorder t))"
    using shows_child [OF sd(1)] Cons.prems(2) by auto
  have su: "sound u (t # ts)" by (rule sound_shape [OF touches_shape [OF u(2)] Cons.prems(1)])
  obtain v where v: "each sh u (map root ts) = Returns v" "touches u (set (forder ts)) v"
    "\<forall>t\<in>set ts. disp v (root t)" "(\<forall>t\<in>set ts. good u t) \<longrightarrow> vis_ok v (set (forder ts))"
    using Cons.IH [OF sound_Cons(2) [OF su]] Cons.prems(2) by auto
  have gu: "good u c = good w c" if c: "c \<in> set ts" for c
  proof (rule good_untouched(1) [OF u(2)])
    have "set (preorder c) \<subseteq> set (forder ts)" using c by (auto simp: set_forder)
    then show "set (preorder c) \<inter> set (preorder t) = {}"
      and "inj_on (row_of w) (set (preorder t) \<union> set (preorder c))"
      using sd(3,4) by (auto intro: inj_on_subset)
  qed (use sd(2) c in \<open>simp add: sound_def\<close>)
  note out = sound_Cons(3,4) [OF su]
  have "vis_ok v (set (preorder t)) = vis_ok u (set (preorder t))"
    by (rule good_untouched(2) [OF v(2) _ _ sound_rep [OF sound_Cons(1) [OF su]]])
      (use out in \<open>simp_all add: Un_commute\<close>)
  moreover have "disp v (root t) = disp u (root t)"
    by (rule touches_outside_set(1) [OF v(2) _ _ root_in_preorder])
      (use out in \<open>simp_all add: Un_commute\<close>)
  moreover have "touches w (set (forder (t # ts))) v"
    by (rule touches_trans [OF touches_mono [OF u(2)] touches_mono [OF v(2)]]) auto
  ultimately show ?case using u v gu by (simp add: vis_ok_Un)
qed

text \<open>What \<open>expand\<close> achieves, given that children can be shown.\<close>

lemma expands:
  assumes sd: "sound w [t]" and hk: "\<forall>c\<in>set (kids t). height c \<le> h"
  shows "\<exists>v. expand_via sh s w (root t) = Returns v \<and> touches w (set (preorder t)) v \<and>
      expanded v (root t) \<and> disp v (root t) = disp w (root t) \<and>
      n_initialized (heap v (root t)) = n_initialized (heap w (root t)) \<and>
      ((\<forall>c\<in>set (kids t). good w c) \<longrightarrow> (\<forall>c\<in>set (kids t). good v c)) \<and>
      (vis_ok w (set (preorder t)) \<longrightarrow> (disp w (root t) \<longrightarrow> is_visible w (row_of w (root t))) \<longrightarrow>
        vis_ok v (set (preorder t))) \<and>
      (\<not> expanded w (root t) \<longrightarrow> is_visible w (row_of w (root t)) \<longrightarrow> (\<forall>c\<in>set (kids t). good w c) \<longrightarrow>
        vis_ok v (set (preorder t)))"
proof (cases "expanded w (root t)")
  case True
  then show ?thesis by (simp add: expand_via_def)
next
  case False
  let ?n = "root t" and ?r = "row_of w (root t)" and ?N = "set (preorder t)"
  define w1 where "w1 = add_class (remove_class w ?r ''collapsed'') ?r ''expanded''"
  define w2 where "w2 = (if n_initialized (heap w1 ?n) \<and> onNodeExpand s
    then log_event w1 (NodeExpand ?n) else w1)"
  have t1: "touches w {?n} w1" unfolding w1_def
    by (rule touches_trans [OF touches_row_ops(2)])
      (use touches_row_ops(1) [of "remove_class w ?r ''collapsed''" ?n "''expanded''"] in simp)
  have l2: "looks w1 w2" by (simp add: w2_def looks_log)
  have t2: "touches w {?n} w2" by (rule touches_trans [OF t1]) (simp add: w2_def)
  note sh2 = same_shape_simps [OF touches_shape [OF t2]]
  have sd2: "sound w2 [t]" by (rule sound_shape [OF touches_shape [OF t2] sd])
  have ex2: "expanded w2 ?n" and disp2: "disp w2 m = disp w m" for m
    by (simp_all add: looks_simps [OF l2])
      (simp_all add: w1_def expanded_def disp_def)
  have ini2: "n_initialized (heap w2 m) = n_initialized (heap w m)" for m
    by (simp add: looks_simps [OF l2] w1_def)
  have kid_out: "set (preorder c) \<inter> {?n} = {}" and kid_inj: "inj_on (row_of w) ({?n} \<union> set (preorder c))"
    if "c \<in> set (kids t)" for c
    using that kids_preorder [OF that] sd by (auto simp: sound_def preorder_unfold [of t] intro: inj_on_subset)
  have good2: "good w2 c = good w c" and vis2: "vis_ok w2 (set (preorder c)) = vis_ok w (set (preorder c))"
    if "c \<in> set (kids t)" for c
    using good_untouched [OF t2 kid_out [OF that] kid_inj [OF that] rep_kid [OF sound_rep [OF sd] that]]
    by auto
  have vis2: "is_visible w2 (row_of w2 ?n) = is_visible w ?r"
    by (simp add: is_visible_def sh2 flip: disp_def) (use disp2 [of ?n] in \<open>simp add: disp_def sh2\<close>)
  have title: "expand_via sh s w ?n =
      and_then (if is_visible w ?r then each sh w2 (map root (kids t)) else Returns w2)
        (\<lambda>w3. Returns (upd_node w3 ?n (\<lambda>x. x\<lparr>n_title := Some (stringCollapse s)\<rparr>)))"
    using False children_kids [OF sd2] vis2
    by (simp add: expand_via_def Let_def flip: w1_def w2_def)
  obtain u where u: "(if is_visible w ?r then each sh w2 (map root (kids t)) else Returns w2) = Returns u"
    "touches w2 (set (below t)) u"
    "is_visible w ?r \<Longrightarrow> \<forall>c\<in>set (kids t). good w c \<Longrightarrow> vis_ok u (set (below t))"
    "is_visible w ?r \<Longrightarrow> \<forall>c\<in>set (kids t). disp u (root c)"
    "\<not> is_visible w ?r \<Longrightarrow> u = w2"
  proof (cases "is_visible w ?r")
    case True
    then show ?thesis
      using shows_children [OF sound_kids [OF sd2] hk] that good2 by (auto simp: below_def)
  qed (use that in auto)
  define v where "v = upd_node u ?n (\<lambda>x. x\<lparr>n_title := Some (stringCollapse s)\<rparr>)"
  have lv: "looks u v" by (simp add: v_def looks_upd_node)
  have tv: "touches u {?n} v" unfolding v_def by (rule touches_upd_node) simp
  have root_out: "?n \<notin> set (below t)" and inj2: "inj_on (row_of w2) (insert ?n (set (below t)))"
    using sd2 by (auto simp: sound_def preorder_unfold)
  note un = touches_outside [OF u(2) root_out inj2]
  have tu: "touches w ?N u"
    by (rule touches_trans [OF touches_mono [OF t2] touches_mono [OF u(2) below_preorder]]) simp
  have tw: "touches w ?N v"
    by (rule touches_trans [OF tu touches_mono [OF tv]]) simp
  have ru: "rep (heap u) t" by (rule rep_shape [OF touches_shape [OF tu] sound_rep [OF sd]])
  have "\<forall>c\<in>set (kids t). good v c" if g: "\<forall>c\<in>set (kids t). good w c"
  proof (cases "is_visible w ?r")
    case True
    then show ?thesis using u(3) g by (auto simp: good_def looks_simps [OF lv] below_def vis_ok_forder)
  next
    case False
    then show ?thesis using u(5) g good2 by (simp add: looks_simps [OF lv])
  qed
  moreover have vis: "vis_ok v ?N" if "is_visible w ?r" and g: "\<forall>c\<in>set (kids t). good w c"
  proof -
    have d: "disp w ?n" using that(1) by (simp add: is_visible_def disp_def)
    have "vis_ok u (set (below t))" by (rule u(3) [OF that])
    then show ?thesis
      using u(4) [OF that(1)] un ex2 d disp2
      by (simp add: vis_ok_root [OF ru] looks_simps [OF lv] below_def vis_ok_forder)
  qed
  moreover have "vis_ok v ?N"
    if ok: "vis_ok w ?N" and dv: "disp w ?n \<longrightarrow> is_visible w ?r"
  proof (cases "is_visible w ?r")
    case True
    have "\<forall>c\<in>set (kids t). good w c" using good_kid [OF sound_rep [OF sd]] ok by (simp add: good_def)
    with True show ?thesis by (rule vis)
  next
    case nv: False
    then have "\<not> disp w ?n" using dv by simp
    then show ?thesis
      using ok u(5) [OF nv] disp2 good_untouched(2) [OF t2 kid_out kid_inj rep_kid [OF sound_rep [OF sd]]]
      by (simp add: vis_ok_root [OF sound_rep [OF sd2]] vis_ok_root [OF sound_rep [OF sd]]
          looks_simps [OF lv])
  qed
  moreover have "expanded v ?n" "disp v ?n = disp w ?n"
    "n_initialized (heap v ?n) = n_initialized (heap w ?n)"
    using un ex2 disp2 ini2 by (simp_all add: looks_simps [OF lv])
  ultimately show ?thesis using tw u(1) title by (auto simp: v_def)
qed

lemma initializes:
  assumes sd: "sound w [t]" and hk: "\<forall>c\<in>set (kids t). height c \<le> h" and hf: "height t \<le> Suc f"
  shows "\<exists>v. initialize_via sh f s w (root t) = Returns v \<and> touches w (set (preorder t)) v \<and>
      n_initialized (heap v (root t)) \<and> (good w t \<longrightarrow> ready v t)"
proof -
  let ?n = "root t" and ?N = "set (preorder t)"
  obtain w1 where w1: "render s w ?n = Returns w1" "touches w {?n} w1" "looks w w1"
    using render_returns [of w ?n s] sd by (auto simp: sound_def)
  have sd1: "sound w1 [t]" by (rule sound_shape [OF touches_shape [OF w1(2)] sd])
  have inj1: "inj_on (row_of w1) ?N" and dis: "distinct (preorder t)" using sd1 by (auto simp: sound_def)
  have "\<exists>w2. (if expandable s \<and> initialState s = ''collapsed''
          then node_collapse s f w1 ?n else expand_via sh s w1 ?n) = Returns w2 \<and>
        touches w1 ?N w2 \<and> (good w1 t \<longrightarrow> ready w2 t)"
  proof (cases "expandable s \<and> initialState s = ''collapsed''")
    case True
    show ?thesis
    proof (cases "collapsed w1 ?n")
      case c: True
      have "good w1 t \<longrightarrow> ready w1 t"
        using ready_vis_ok [OF sound_rep [OF sd1]] c by (auto simp: good_def fresh_def)
      then show ?thesis using True c node_collapse_eq [OF sound_rep [OF sd1] hf] by simp
    next
      case c: False
      define w2 where "w2 = collapse_result s w1 t"
      have t2: "touches w1 ?N w2" unfolding w2_def by (rule touches_collapse_result)
      have r2: "rep (heap w2) t" by (rule rep_shape [OF touches_shape [OF t2] sound_rep [OF sd1]])
      have hid: "\<not> disp w2 m" if "m \<in> set (below t)" for m
        unfolding w2_def by (rule collapse_result_facts(3) [OF inj1 dis that])
      have "\<not> disp w2 (root k) \<and> vis_ok w2 (set (preorder k))" if "k \<in> set (kids t)" for k
        using hid vis_ok_hidden [OF rep_kid [OF r2 that]] kids_preorder [OF that]
          root_in_preorder [of k] by blast
      then have "ready w2 t" by (auto simp: ready_def good_def)
      then show ?thesis using True c t2 node_collapse_eq [OF sound_rep [OF sd1] hf, of s]
        by (auto simp: w2_def)
    qed
  next
    case False
    obtain w2 where w2: "expand_via sh s w1 ?n = Returns w2" "touches w1 ?N w2" "expanded w2 ?n"
      "(\<forall>c\<in>set (kids t). good w1 c) \<longrightarrow> (\<forall>c\<in>set (kids t). good w2 c)"
      using expands [OF sd1 hk, of s] by blast
    have "good w1 t \<longrightarrow> ready w2 t"
      using w2(3,4) good_kid [OF sound_rep [OF sd1]] by (simp add: ready_def)
    then show ?thesis using False w2 by auto
  qed
  then obtain w2 where w2: "(if expandable s \<and> initialState s = ''collapsed''
          then node_collapse s f w1 ?n else expand_via sh s w1 ?n) = Returns w2"
    "touches w1 ?N w2" "good w1 t \<longrightarrow> ready w2 t" by blast
  define w3 where "w3 = (if onNodeInitialized s then log_event w2 (NodeInitialized ?n) else w2)"
  define v where "v = upd_node w3 ?n (\<lambda>x. x\<lparr>n_initialized := True\<rparr>)"
  have l3: "looks w2 w3" and t3: "touches w2 ?N w3" by (auto simp: w3_def looks_log)
  have tv: "touches w3 {?n} v" unfolding v_def by (rule touches_upd_node) simp
  have tw: "touches w ?N v"
    by (rule touches_trans [OF touches_mono [OF w1(2)] touches_trans [OF w2(2)
          touches_trans [OF t3 touches_mono [OF tv]]]]) auto
  have dv: "d_row v = d_row w3" by (simp add: v_def)
  have same: "disp v m = disp w3 m" "expanded v m = expanded w3 m" for m
    using same_shape_simps [OF touches_shape [OF tv]]
    by (simp_all add: disp_def expanded_def has_class_def dv)
  have sd3: "sound w3 [t]"
    by (rule sound_shape [OF same_shape_trans [OF touches_shape [OF w2(2)] touches_shape [OF t3]] sd1])
  have "ready v t = ready w3 t"
  proof -
    have "good v c = good w3 c \<and> vis_ok v (set (preorder c)) = vis_ok w3 (set (preorder c))"
      if c: "c \<in> set (kids t)" for c
    proof -
      have "set (preorder c) \<inter> {?n} = {}" and "inj_on (row_of w3) ({?n} \<union> set (preorder c))"
        using kids_preorder [OF c] sd3
        by (auto simp: sound_def preorder_unfold [of t] intro: inj_on_subset)
      then show ?thesis
        using good_untouched [OF tv _ _ rep_kid [OF sound_rep [OF sd3] c]] by auto
    qed
    then show ?thesis by (auto simp: ready_def same)
  qed
  then have "good w t \<longrightarrow> ready v t"
    using w2(3) by (simp add: looks_simps [OF w1(3)] ready_looks [OF l3])
  moreover have "initialize_via sh f s w ?n = Returns v"
    by (simp add: initialize_via_def w1(1) w2(1) Let_def v_def w3_def)
  moreover have "n_initialized (heap v ?n)" by (simp add: v_def)
  ultimately show ?thesis using tw by blast
qed

end

text \<open>\<open>show\<close> provides the interface.\<close>

lemma child_display_show: "child_display (node_show s f) f"
proof (induction f)
  case 0
  have "\<not> height t \<le> 0" for t :: "nref rose" using height_pos [of t] by linarith
  then show ?case by unfold_locales blast
next
  case (Suc f)
  show ?case
  proof unfold_locales
    fix w t assume sd: "sound w [t]" and ht: "height t \<le> Suc f"
    let ?n = "root t" and ?N = "set (preorder t)"
    have hk: "\<forall>c\<in>set (kids t). height c \<le> f" using height_kid [of _ t] ht by fastforce
    obtain w1 where w1: "(if \<not> n_initialized (heap w ?n) then initialize_via (node_show s f) f s w ?n
          else Returns w) = Returns w1" "touches w ?N w1" "n_initialized (heap w1 ?n)"
      "good w t \<longrightarrow> ready w1 t"
    proof (cases "n_initialized (heap w ?n)")
      case True
      then have "good w t \<longrightarrow> ready w t"
        using ready_vis_ok [OF sound_rep [OF sd]]
        by (auto simp: good_def fresh_def preorder_unfold)
      then show thesis using that True by simp
    next
      case False
      then show thesis using child_display.initializes [OF Suc.IH sd hk ht] that by auto
    qed
    define w2 where "w2 = set_displayed w1 (row_of w1 ?n) True"
    have t2: "touches w1 {?n} w2" unfolding w2_def by (rule touches_row_ops)
    have t02: "touches w ?N w2" by (rule touches_trans [OF w1(2) touches_mono [OF t2]]) simp
    have sd1: "sound w1 [t]" by (rule sound_shape [OF touches_shape [OF w1(2)] sd])
    have sd2: "sound w2 [t]" by (rule sound_shape [OF touches_shape [OF t02] sd])
    have d2: "disp w2 ?n" "expanded w2 ?n = expanded w1 ?n"
      by (simp_all add: w2_def disp_def expanded_def)
    have r2: "rep (heap w2) t" by (rule sound_rep [OF sd2])
    have gd: "(\<forall>c\<in>set (kids t). good w2 c) \<and> (\<not> expanded w2 ?n \<longrightarrow>
        (\<forall>c\<in>set (kids t). \<not> disp w2 (root c) \<and> vis_ok w2 (set (preorder c))))"
      if "good w t"
    proof -
      have "good w2 c = good w1 c \<and> vis_ok w2 (set (preorder c)) = vis_ok w1 (set (preorder c)) \<and>
          disp w2 (root c) = disp w1 (root c)" if c: "c \<in> set (kids t)" for c
      proof -
        have "set (preorder c) \<inter> {?n} = {}" and "inj_on (row_of w1) ({?n} \<union> set (preorder c))"
          using kids_preorder [OF c] sd1
          by (auto simp: sound_def preorder_unfold [of t] intro: inj_on_subset)
        then show ?thesis
          using good_untouched [OF t2 _ _ rep_kid [OF sound_rep [OF sd1] c]]
            touches_outside_set(1) [OF t2 _ _ root_in_preorder] by auto
      qed
      then show ?thesis using w1(4) that d2(2) by (auto simp: ready_def)
    qed
    show "\<exists>v. node_show s (Suc f) w (root t) = Returns v \<and> touches w (set (preorder t)) v \<and>
        disp v (root t) \<and> n_initialized (heap v (root t)) \<and>
        (good w t \<longrightarrow> vis_ok v (set (preorder t)))"
    proof (cases "expanded w2 ?n")
      case ex: True
      obtain v where v: "each (node_show s f) w2 (map root (kids t)) = Returns v"
        "touches w2 (set (below t)) v" "\<forall>c\<in>set (kids t). disp v (root c)"
        "(\<forall>c\<in>set (kids t). good w2 c) \<longrightarrow> vis_ok v (set (below t))"
        using child_display.shows_children [OF Suc.IH sound_kids [OF sd2] hk]
        by (auto simp: below_def)
      have "?n \<notin> set (below t)" and "inj_on (row_of w2) (insert ?n (set (below t)))"
        using sd2 by (auto simp: sound_def preorder_unfold)
      note un = touches_outside [OF v(2) this]
      have tv: "touches w ?N v"
        by (rule touches_trans [OF t02 touches_mono [OF v(2) below_preorder]])
      have rv: "rep (heap v) t" by (rule rep_shape [OF touches_shape [OF tv] sound_rep [OF sd]])
      have "vis_ok v ?N" if "good w t"
        using v(3,4) gd [OF that] un d2 ex by (simp add: vis_ok_root [OF rv] below_def vis_ok_forder)
      moreover have "node_show s (Suc f) w ?n = Returns v"
        using ex v(1) children_kids [OF sd2] w1(1) by (simp add: Let_def flip: w2_def)
      moreover have "n_initialized (heap v ?n)" and "disp v ?n"
        using un d2 w1(3) by (simp_all add: w2_def)
      ultimately show ?thesis using tv by blast
    next
      case ex: False
      have "vis_ok w2 ?N" if "good w t"
        using gd [OF that] ex by (simp add: vis_ok_root [OF r2])
      moreover have "node_show s (Suc f) w ?n = Returns w2"
        using ex w1(1) by (simp add: Let_def flip: w2_def)
      moreover have "n_initialized (heap w2 ?n)" using w1(3) by (simp add: w2_def)
      ultimately show ?thesis using t02 d2 by blast
    qed
  qed
qed

interpretation showing: child_display "node_show s f" f for s :: settings and f :: nat
  by (rule child_display_show)

end
