(* ===== verification/Tree_Visibility.thy ===== *)
theory Tree_Visibility
  imports Tree_Show
begin

text \<open>
  Collapse, expand, toggle, the click handler and reveal on a whole table. \<open>vis_inv\<close> is the
  contract of a rendered table: roots are displayed, and any other row exactly when its
  parent's row is displayed and expanded.
\<close>

definition vis_inv :: "world \<Rightarrow> nref rose list \<Rightarrow> bool" where
  "vis_inv w fs \<longleftrightarrow> vis_ok w (set (forder fs)) \<and> (\<forall>t\<in>set fs. disp w (root t))"

section \<open>Parents and children in a represented forest\<close>

lemma forest_height:
  assumes "forest_of s w fs" and "t \<in> set (fsubtrees fs)"
  shows "height t \<le> nextn w"
proof -
  note t = forest_of_subtree [OF assms]
  have "height t \<le> card (set (preorder t))"
    using height_le_length t(2) by (metis distinct_card)
  also have "\<dots> \<le> card {..<nextn w}"
    by (rule card_mono) (use t(3) forest_ofD(6) [OF assms(1)] in auto)
  finally show ?thesis by simp
qed

lemma forest_height_fuel:
  "forest_of s w fs \<Longrightarrow> t \<in> set (fsubtrees fs) \<Longrightarrow> height t \<le> fuel_of w"
  "forest_of s w fs \<Longrightarrow> t \<in> set (fsubtrees fs) \<Longrightarrow> height t \<le> Suc (fuel_of w)"
  using forest_height by (fastforce simp: fuel_of_def)+

lemma below_has_parent: "rep h t \<Longrightarrow> c \<in> set (below t) \<Longrightarrow> \<exists>m\<in>set (preorder t). c \<in> set (n_children (h m))"
proof (induction t)
  case (Rose n ts)
  then obtain k where k: "k \<in> set ts" "c \<in> set (preorder k)" by (auto simp: below_def set_forder)
  show ?case
  proof (cases "c = root k")
    case True
    then show ?thesis using Rose.prems k by auto
  next
    case False
    then have "c \<in> set (below k)" using k(2) by (simp add: preorder_unfold)
    then show ?thesis using Rose.IH [OF k(1)] Rose.prems(1) k(1) by auto
  qed
qed

lemma rep_child_parent:
  assumes "rep (heap w) t" and "keyed w (set (preorder t))" and "m \<in> set (preorder t)"
    and "c \<in> set (children w m)"
  shows "parent_node w c = Some m"
  using assms
proof (induction t)
  case (Rose n ts)
  show ?case
  proof (cases "m = n")
    case True
    then obtain k where "k \<in> set ts" "c = root k" using Rose.prems by auto
    then show ?thesis
      using rep_parent_node [of w "Rose n ts" k] Rose.prems True by (auto simp: keyed_def)
  next
    case False
    then obtain k where "k \<in> set ts" "m \<in> set (preorder k)" using Rose.prems by auto
    then show ?thesis using Rose.IH [of k] Rose.prems by (auto simp: keyed_def)
  qed
qed

lemma forest_child_parent:
  assumes "forest_of s w fs" and "m \<in> set (forder fs)" and "c \<in> set (children w m)"
  shows "parent_node w c = Some m"
proof -
  obtain t where "t \<in> set fs" "m \<in> set (preorder t)" using assms(2) by (auto simp: set_forder)
  then show ?thesis
    using rep_child_parent [of w t m c] forest_ofD(1) [OF assms(1)]
      forest_of_keyed_member [OF assms(1)] assms(3) by blast
qed

lemma forest_parent_child:
  assumes "forest_of s w fs" and "n \<in> set (forder fs)"
  shows "(\<exists>t\<in>set fs. n = root t) \<and> parent_node w n = None \<or>
    (\<exists>p\<in>set (forder fs). parent_node w n = Some p \<and> n \<in> set (children w p))"
proof -
  obtain t where t: "t \<in> set fs" "n \<in> set (preorder t)" using assms(2) by (auto simp: set_forder)
  show ?thesis
  proof (cases "n = root t")
    case True
    then show ?thesis using t forest_of_root_chain [OF assms(1) t(1)] by auto
  next
    case False
    then have "n \<in> set (below t)" using t(2) by (simp add: preorder_unfold)
    then obtain p where p: "p \<in> set (preorder t)" "n \<in> set (children w p)"
      using below_has_parent [OF forest_ofD(1) [OF assms(1) t(1)]] by blast
    then have "p \<in> set (forder fs)" using t(1) by (auto simp: set_forder)
    then show ?thesis using p(2) forest_child_parent [OF assms(1)] by blast
  qed
qed

lemma forest_kid_in:
  assumes fo: "forest_of s w fs" and "m \<in> set (forder fs)" and "c \<in> set (children w m)"
  shows "c \<in> set (forder fs)"
proof -
  obtain u where u: "u \<in> set fs" "m \<in> set (preorder u)" using assms(2) by (auto simp: set_forder)
  have "c \<in> set (preorder u)"
    by (rule subsetD [OF below_preorder])
      (rule subsetD [OF rep_closed [OF forest_ofD(1) [OF fo u(1)] u(2)] assms(3)])
  then show ?thesis using u(1) by (auto simp: set_forder)
qed

lemma forest_children_distinct:
  assumes "forest_of s w fs" and "m \<in> set (forder fs)"
  shows "distinct (children w m)"
proof -
  obtain t where t: "t \<in> set (fsubtrees fs)" "root t = m" using fsubtree_of_root [OF assms(2)] by blast
  have "distinct (forder (kids t))"
    using forest_of_subtree(2) [OF assms(1) t(1)] by (simp add: preorder_unfold below_def)
  then show ?thesis
    using distinct_roots rep_children [OF forest_of_subtree(1) [OF assms(1) t(1)]] t(2) by metis
qed

lemma forest_root_subtree: "t \<in> set fs \<Longrightarrow> t \<in> set (fsubtrees fs)"
  using UN_I [of t "set fs" t "\<lambda>u. set (subtrees u)"] self_in_subtrees [of t]
  by (simp only: set_fsubtrees)

lemma forest_subtree_at:
  assumes "n \<in> set (forder fs)"
  obtains t where "t \<in> set (fsubtrees fs)" and "root t = n"
  using fsubtree_of_root [OF assms] by blast

text \<open>A child whose parent lies outside a subtree is at most its root.\<close>

lemma child_into_subtree:
  assumes fo: "forest_of s w fs" and t: "t \<in> set (fsubtrees fs)"
    and "m \<in> set (forder fs)" and "m \<notin> set (preorder t)" and "c \<in> set (children w m)"
    and "c \<in> set (preorder t)"
  shows "c = root t"
proof (rule ccontr)
  assume "c \<noteq> root t"
  then have "c \<in> set (below t)" using assms(6) by (simp add: preorder_unfold)
  then obtain p where p: "p \<in> set (preorder t)" "c \<in> set (children w p)"
    using below_has_parent [OF forest_of_subtree(1) [OF fo t]] by blast
  then have "parent_node w c = Some p"
    using forest_child_parent [OF fo] forest_of_subtree(3) [OF fo t] by blast
  moreover have "parent_node w c = Some m" by (rule forest_child_parent [OF fo assms(3,5)])
  ultimately show False using p(1) assms(4) by simp
qed

section \<open>Lifting from a subtree to the table\<close>

text \<open>Only the nodes outside the subtree and the roots need to be in order before.\<close>

lemma vis_inv_lift_outside:
  assumes fo: "forest_of s w fs" and t: "t \<in> set (fsubtrees fs)"
    and tv: "touches w (set (preorder t)) v" and droot: "disp v (root t) = disp w (root t)"
    and ok: "vis_ok v (set (preorder t))"
    and inv: "vis_ok w (set (forder fs) - set (preorder t))" "\<forall>u\<in>set fs. disp w (root u)"
  shows "vis_inv v fs"
proof -
  note sub = forest_of_subtree [OF fo t]
  have inj: "inj_on (row_of w) (insert m (set (preorder t)))" if "m \<in> set (forder fs)" for m
    by (rule inj_on_subset [OF forest_ofD(10) [OF fo]]) (use that sub(3) in auto)
  have out: "disp v m = disp w m" "expanded v m = expanded w m"
    if "m \<in> set (forder fs)" and "m \<notin> set (preorder t)" for m
    using touches_outside [OF tv that(2) inj [OF that(1)]] by auto
  have ch: "children v m = children w m" for m
    by (rule same_shape_simps(4) [OF touches_shape [OF tv]])
  note kid_in = forest_kid_in [OF fo]
  have "disp v c \<longleftrightarrow> disp v m \<and> expanded v m"
    if m: "m \<in> set (forder fs)" and c: "c \<in> set (children w m)" for m c
  proof (cases "m \<in> set (preorder t)")
    case True
    then show ?thesis using ok c by (simp add: vis_ok_def ch)
  next
    case False
    have w: "disp w c \<longleftrightarrow> disp w m \<and> expanded w m"
      using inv(1) m c False by (simp add: vis_ok_def)
    have "disp v c = disp w c"
    proof (cases "c \<in> set (preorder t)")
      case True
      then show ?thesis using child_into_subtree [OF fo t m False c] droot by simp
    next
      case False
      then show ?thesis using out(1) [OF kid_in [OF m c]] by simp
    qed
    then show ?thesis using w out [OF m False] by simp
  qed
  moreover have "disp v (root u)" if u: "u \<in> set fs" for u
  proof (cases "root u \<in> set (preorder t)")
    case True
    have "root u = root t"
    proof (rule ccontr)
      assume "root u \<noteq> root t"
      then have "root u \<in> set (below t)" using True by (simp add: preorder_unfold)
      then obtain p where p: "p \<in> set (preorder t)" "root u \<in> set (children w p)"
        using below_has_parent [OF sub(1)] by blast
      then have "parent_node w (root u) = Some p"
        using forest_child_parent [OF fo] sub(3) by blast
      then show False using forest_of_root_chain [OF fo u] by simp
    qed
    then show ?thesis using droot inv(2) u by auto
  next
    case False
    have "root u \<in> set (forder fs)" unfolding set_forder by (rule UN_I [OF u root_in_preorder])
    then show ?thesis using out(1) False inv(2) u by auto
  qed
  ultimately show ?thesis by (simp add: vis_inv_def vis_ok_def ch)
qed

lemma vis_inv_lift:
  assumes "forest_of s w fs" and "t \<in> set (fsubtrees fs)" and "touches w (set (preorder t)) v"
    and "disp v (root t) = disp w (root t)" and "vis_ok v (set (preorder t))" and "vis_inv w fs"
  shows "vis_inv v fs"
  using vis_inv_lift_outside [OF assms(1-5)] assms(6) by (simp add: vis_inv_def vis_ok_def)

lemma vis_ok_subtree:
  "forest_of s w fs \<Longrightarrow> t \<in> set (fsubtrees fs) \<Longrightarrow> vis_inv w fs \<Longrightarrow> vis_ok w (set (preorder t))"
  using forest_of_subtree(3) [of s w fs t] by (auto simp: vis_inv_def vis_ok_def)

section \<open>Collapse and expand\<close>

lemma collapse_in_forest:
  assumes fo: "forest_of s w fs" and t: "t \<in> set (fsubtrees fs)"
  obtains v where "node_collapse s (fuel_of w) w (root t) = Returns v"
    and "v = (if collapsed w (root t) then w else collapse_result s w t)"
    and "touches w (set (preorder t)) v" and "vis_inv w fs \<longrightarrow> vis_inv v fs"
proof -
  note sub = forest_of_subtree [OF fo t]
  let ?v = "if collapsed w (root t) then w else collapse_result s w t"
  have inj: "inj_on (row_of w) (set (preorder t))"
    by (rule inj_on_subset [OF forest_ofD(10) [OF fo] sub(3)])
  have tv: "touches w (set (preorder t)) ?v" by (simp add: touches_collapse_result)
  have "vis_inv ?v fs" if inv: "vis_inv w fs"
  proof (cases "collapsed w (root t)")
    case False
    let ?u = "collapse_result s w t"
    note f = collapse_result_facts [OF inj sub(2)]
    have "vis_ok ?u (set (preorder t))"
    proof -
      have ru: "rep (heap ?u) t"
        by (rule rep_shape [OF touches_shape [OF touches_collapse_result] sub(1)])
      have "vis_ok ?u (set (preorder c))" and "\<not> disp ?u (root c)" if "c \<in> set (kids t)" for c
        using vis_ok_hidden [OF rep_kid [OF ru that]] f(3) kids_preorder [OF that]
          root_in_preorder [of c] by blast+
      then show ?thesis using f(2) by (simp add: vis_ok_root [OF ru])
    qed
    then have "vis_inv ?u fs"
      using vis_inv_lift [OF fo t touches_collapse_result _ _ inv] f(4) by blast
    then show ?thesis using False by simp
  qed (use that inv in simp)
  moreover have "node_collapse s (fuel_of w) w (root t) = Returns ?v"
    by (rule node_collapse_eq [OF sub(1) forest_height_fuel(2) [OF fo t]])
  ultimately show thesis using that tv by blast
qed

lemma expand_in_forest:
  assumes fo: "forest_of s w fs" and t: "t \<in> set (fsubtrees fs)"
  obtains v where "node_expand s (fuel_of w) w (root t) = Returns v"
    and "touches w (set (preorder t)) v" and "expanded v (root t)"
    and "disp v (root t) = disp w (root t)"
    and "vis_inv w fs \<longrightarrow> d_visible w \<longrightarrow> vis_inv v fs"
proof -
  note sub = forest_of_subtree [OF fo t]
  have hk: "\<forall>c\<in>set (kids t). height c \<le> fuel_of w"
    using forest_height_fuel(1) [OF fo t] height_kid [of _ t] by fastforce
  obtain v where v: "expand_via (node_show s (fuel_of w)) s w (root t) = Returns v"
    "touches w (set (preorder t)) v" "expanded v (root t)" "disp v (root t) = disp w (root t)"
    "vis_ok w (set (preorder t)) \<longrightarrow> (disp w (root t) \<longrightarrow> is_visible w (row_of w (root t))) \<longrightarrow>
        vis_ok v (set (preorder t))"
    using showing.expands [OF sound_forest_subtree [OF fo t] hk, of s s] by blast
  have "vis_inv v fs" if inv: "vis_inv w fs" and dv: "d_visible w"
  proof (rule vis_inv_lift [OF fo t v(2,4) _ inv])
    have "row_of w (root t) \<in> set (d_order w)"
      by (rule forest_ofD(12) [OF fo]) (use sub(3) in auto)
    then show "vis_ok v (set (preorder t))"
      using v(5) vis_ok_subtree [OF fo t inv] dv by (simp add: is_visible_def disp_def)
  qed
  then show thesis using that v by (simp add: node_expand_def)
qed

text \<open>A branch whose children are shown already, in whatever state, is in order once it is expanded.\<close>

lemma expand_displayed:
  assumes fo: "forest_of s w fs" and t: "t \<in> set (fsubtrees fs)" and nv: "\<not> expanded w (root t)"
    and d: "disp w (root t)" "d_visible w" and ok: "vis_ok w (set (forder fs) - {root t})"
    and rt: "\<forall>u\<in>set fs. disp w (root u)" and v: "node_expand s (fuel_of w) w (root t) = Returns v"
  shows "vis_inv v fs"
proof -
  note sub = forest_of_subtree [OF fo t]
  have hk: "\<forall>c\<in>set (kids t). height c \<le> fuel_of w"
    using forest_height_fuel(1) [OF fo t] height_kid [of _ t] by fastforce
  have "row_of w (root t) \<in> set (d_order w)" by (rule forest_ofD(12) [OF fo]) (use sub(3) in auto)
  then have vis: "is_visible w (row_of w (root t))" using d by (simp add: is_visible_def disp_def)
  have "good w c" if c: "c \<in> set (kids t)" for c
  proof -
    have "set (preorder c) \<subseteq> set (forder fs) - {root t}"
      using kids_preorder [OF c] sub(2,3) by (auto simp: preorder_unfold)
    then show ?thesis using ok by (auto simp: good_def vis_ok_def)
  qed
  then have "touches w (set (preorder t)) v" "disp v (root t) = disp w (root t)"
    "vis_ok v (set (preorder t))"
    using showing.expands [OF sound_forest_subtree [OF fo t] hk, of s s] nv vis v
    by (auto simp: node_expand_def)
  then show ?thesis
    by (rule vis_inv_lift_outside [OF fo t]) (use ok rt in \<open>auto simp: vis_ok_def\<close>)
qed

lemma toggle_in_forest:
  assumes fo: "forest_of s w fs" and n: "n \<in> set (forder fs)"
  obtains v where "node_toggle s (fuel_of w) w n = Returns v" and "forest_of s v fs"
    and "vis_inv w fs \<longrightarrow> d_visible w \<longrightarrow> vis_inv v fs"
    and "same_shape w v" and "expanded v n \<longleftrightarrow> \<not> expanded w n \<or> collapsed w n"
proof -
  obtain t where t: "t \<in> set (fsubtrees fs)" "root t = n" by (rule forest_subtree_at [OF n])
  note sub = forest_of_subtree [OF fo t(1)]
  have inj: "inj_on (row_of w) (set (preorder t))"
    by (rule inj_on_subset [OF forest_ofD(10) [OF fo] sub(3)])
  show thesis
  proof (cases "expanded w n")
    case True
    obtain v where v: "node_collapse s (fuel_of w) w (root t) = Returns v"
      "v = (if collapsed w (root t) then w else collapse_result s w t)"
      "touches w (set (preorder t)) v" "vis_inv w fs \<longrightarrow> vis_inv v fs"
      by (rule collapse_in_forest [OF fo t(1)])
    show thesis
    proof (rule that)
      show "node_toggle s (fuel_of w) w n = Returns v" using v(1) True t(2) by (simp add: node_toggle_def)
      show "expanded v n \<longleftrightarrow> \<not> expanded w n \<or> collapsed w n"
        using v(2) True t(2) collapse_result_facts(2) [OF inj sub(2)] by auto
    qed (use v forest_of_shape [OF touches_shape [OF v(3)] fo] touches_shape [OF v(3)] in auto)
  next
    case False
    obtain v where v: "node_expand s (fuel_of w) w (root t) = Returns v"
      "touches w (set (preorder t)) v" "expanded v (root t)"
      "vis_inv w fs \<longrightarrow> d_visible w \<longrightarrow> vis_inv v fs"
      by (rule expand_in_forest [OF fo t(1)])
    show thesis
    proof (rule that)
      show "node_toggle s (fuel_of w) w n = Returns v" using v(1) False t(2) by (simp add: node_toggle_def)
    qed (use v t False forest_of_shape [OF touches_shape [OF v(2)] fo] touches_shape [OF v(2)] in auto)
  qed
qed

text \<open>A click on a row of the tree toggles the node of that row.\<close>

lemma click_handler_toggles:
  assumes "forest_of s w fs" and "n \<in> set (forder fs)" and "tdata w"
  shows "click_handler s w (row_of w n) = node_toggle s (fuel_of w) w n"
  using forest_ofD(12,13) [OF assms(1,2)] forest_ofD(7) [OF assms(1)] assms(2,3)
  by (simp add: click_handler_def keyed_def)

section \<open>Reveal\<close>

lemma displayed_chain:
  assumes fo: "forest_of s w fs" and "vis_inv w fs" and "n \<in> set (forder fs)"
    and "chain w n as" and "\<forall>m\<in>set as. expanded w m"
  shows "disp w n"
  using assms(3-)
proof (induction as arbitrary: n)
  case Nil
  then obtain t where "t \<in> set fs" "n = root t"
    using forest_parent_child [OF fo Nil(1)] by auto
  then show ?case using assms(2) by (simp add: vis_inv_def)
next
  case (Cons p as)
  then have p: "p \<in> set (forder fs)" "n \<in> set (children w p)"
    using forest_parent_child [OF fo Cons.prems(1)] by auto
  have "disp w p" by (rule Cons.IH) (use p Cons.prems in auto)
  then show ?case using p assms(2) Cons.prems(3) by (auto simp: vis_inv_def vis_ok_def)
qed

lemma reveal_in_forest:
  assumes "forest_of s w fs" and "vis_inv w fs" and "d_visible w" and "n \<in> set (forder fs)"
    and "chain w n as" and "length as < f"
  shows "\<exists>v. node_reveal s f w n = Returns v \<and> same_shape w v \<and> vis_inv v fs \<and>
      (\<forall>m\<in>set (n # as). expanded v m)"
  using assms
proof (induction as arbitrary: n f)
  case Nil
  obtain g where f: "f = Suc g" using Nil.prems(6) by (cases f) auto
  obtain t where t: "t \<in> set fs" "n = root t"
    using forest_parent_child [OF Nil.prems(1,4)] Nil.prems(5) by auto
  obtain v where v: "node_expand s (fuel_of w) w (root t) = Returns v"
    "touches w (set (preorder t)) v" "expanded v (root t)"
    "vis_inv w fs \<longrightarrow> d_visible w \<longrightarrow> vis_inv v fs"
    by (rule expand_in_forest [OF Nil.prems(1) forest_root_subtree [OF t(1)]])
  then show ?case
    using t forest_ofD(2) [OF Nil.prems(1) t(1)] Nil.prems(2,3) touches_shape [OF v(2)]
    by (simp add: f)
next
  case (Cons p as)
  obtain g where f: "f = Suc g" using Cons.prems(6) by (cases f) auto
  have pn: "parent_node w n = Some p" "chain w p as" using Cons.prems(5) by auto
  then have pid: "n_parentId (heap w n) \<noteq> None"
    by (auto simp: parent_node_def split: option.splits)
  have p: "p \<in> set (forder fs)" using forest_parent_child [OF Cons.prems(1,4)] pn by auto
  obtain u where u: "node_reveal s g w p = Returns u" "same_shape w u" "vis_inv u fs"
    "\<forall>m\<in>set (p # as). expanded u m"
    using Cons.IH [OF Cons.prems(1-3) p pn(2), of g] Cons.prems(6) f by auto
  have fu: "forest_of s u fs" by (rule forest_of_shape [OF u(2) Cons.prems(1)])
  obtain t where t: "t \<in> set (fsubtrees fs)" "root t = n" by (rule forest_subtree_at [OF Cons.prems(4)])
  obtain v where v: "node_expand s (fuel_of u) u (root t) = Returns v"
    "touches u (set (preorder t)) v" "expanded v (root t)"
    "vis_inv u fs \<longrightarrow> d_visible u \<longrightarrow> vis_inv v fs"
    by (rule expand_in_forest [OF fu t(1)])
  have chu: "chain u n (p # as)" using chain_shape [OF u(2)] Cons.prems(5) by blast
  have "expanded v m" if m: "m \<in> set (p # as)" for m
  proof -
    have mfs: "m \<in> set (forder fs)"
      using chain_members [OF chu] m forest_ofD(8) [OF fu] by (auto simp: ran_def)
    have "m \<notin> set (preorder t)"
    proof
      assume mt: "m \<in> set (preorder t)"
      obtain us vs where s: "p # as = us @ m # vs" using m by (meson split_list)
      have "chain u m vs" using chain_suffix chu s by metis
      then have "m = n \<or> n \<in> set vs" using subtree_chain [OF fu t(1) mt] t(2) by auto
      then show False using chain_distinct [OF chu] s by auto
    qed
    moreover have "inj_on (row_of u) (insert m (set (preorder t)))"
      by (rule inj_on_subset [OF forest_ofD(10) [OF fu]])
        (use mfs forest_of_subtree(3) [OF fu t(1)] in auto)
    ultimately have "expanded v m = expanded u m" using touches_outside(2) [OF v(2)] by blast
    then show ?thesis using bspec [OF u(4) m] by simp
  qed
  moreover have "same_shape w v" by (rule same_shape_trans [OF u(2) touches_shape [OF v(2)]])
  moreover have "vis_inv v fs" using v(4) u(3) Cons.prems(3) same_shape_simps(11) [OF u(2)] by simp
  ultimately show ?case using v t pid pn u(1) by (simp add: f)
qed

end
