(* ===== verification/Tree_Load.thy ===== *)
theory Tree_Load
  imports Tree_Visibility
begin

text \<open>
  Loading rows. \<open>loadable\<close> is the condition on the rows under which \<open>loadRows\<close> builds a
  forest: ids are new, and a parent id names a node that is already there. Then every row with
  an id becomes a node, in document order, linked as its parent id says; \<open>init\<close> on such a
  table returns with the forest and the display in order.
\<close>

section \<open>Adding a leaf to a representation\<close>

definition add_leaf :: "'a option \<Rightarrow> 'a \<Rightarrow> 'a rose list \<Rightarrow> 'a rose list" where
  "add_leaf p n fs = (case p of None \<Rightarrow> fs @ [Rose n []] | Some q \<Rightarrow> fgraft q (Rose n []) fs)"

lemma rep_graft:
  assumes "\<And>m. m \<in> set (preorder u) \<Longrightarrow>
      n_children (g m) = n_children (h m) @ (if m = d then [root t] else []) \<and>
      n_id (g m) = n_id (h m) \<and> n_parentId (g m) = n_parentId (h m)"
    and "rep h u" and "rep g t"
    and "\<exists>p. n_parentId (g (root t)) = Some p \<and> prop_key p = prop_key (n_id (g d))"
  shows "rep g (graft d t u)"
  using assms(1,2)
proof (induction u)
  case (Rose n ts)
  have kid: "rep g (graft d t k) \<and>
      (\<exists>p. n_parentId (g (root (graft d t k))) = Some p \<and> prop_key p = prop_key (n_id (g n)))"
    if k: "k \<in> set ts" for k
  proof
    show "rep g (graft d t k)" using Rose.IH [OF k] Rose.prems k by auto
    have "root k \<in> set (preorder (Rose n ts))"
      using k by (auto intro!: bexI [of _ k] simp del: root_in_preorder intro: root_in_preorder)
    then show "\<exists>p. n_parentId (g (root (graft d t k))) = Some p \<and> prop_key p = prop_key (n_id (g n))"
      using Rose.prems k by simp
  qed
  have "n_children (g n) = map root ts @ (if n = d then [root t] else [])"
    using Rose.prems by simp
  then show ?case using kid assms(3,4) by auto
qed

section \<open>One row\<close>

definition leaf_node :: "settings \<Rightarrow> world \<Rightarrow> rref \<Rightarrow> dval \<Rightarrow> node" where
  "leaf_node s w r i =
     \<lparr>n_row = r, n_id = i, n_parentId = parent_id_of s w r, n_treeCell = tree_cell s (d_row w r),
      n_children = [], n_initialized = False, n_padding = None, n_hasExpander = False,
      n_title = None, n_clicks = (\<lambda>_. 0), n_keydowns = (\<lambda>_. 0)\<rparr>"

text \<open>What the rows are read for does not change while they are loaded.\<close>

definition same_rows :: "world \<Rightarrow> world \<Rightarrow> bool" where
  "same_rows w v \<longleftrightarrow> (\<forall>r k. row_data v r k = row_data w r k) \<and> d_order v = d_order w \<and>
     (\<forall>r. r_classes (d_row v r) = r_classes (d_row w r) \<and>
          r_displayed (d_row v r) = r_displayed (d_row w r)) \<and>
     d_visible v = d_visible w \<and> tdata v = tdata w"

lemma same_rows_refl [simp]: "same_rows w w"
  by (simp add: same_rows_def)

lemma same_rows_trans: "same_rows w v \<Longrightarrow> same_rows v u \<Longrightarrow> same_rows w u"
  by (simp add: same_rows_def)

lemma same_rows_tree [simp]:
  "same_rows w (v\<lparr>tnodes := x\<rparr>) = same_rows w v"
  "same_rows w (v\<lparr>tmap := m\<rparr>) = same_rows w v"
  "same_rows w (v\<lparr>troots := x\<rparr>) = same_rows w v"
  "same_rows w (upd_node v n f) = same_rows w v"
  by (simp_all add: same_rows_def row_data_def upd_node_def cong: option.case_cong)

lemma parent_id_same_rows: "same_rows w v \<Longrightarrow> parent_id_of s v r = parent_id_of s w r"
  by (simp add: parent_id_of_def same_rows_def)

lemma new_node_facts:
  "heap (new_node s w r i) = (heap w)(nextn w := leaf_node s w r i)"
  "nextn (new_node s w r i) = Suc (nextn w)"
  "tmap (new_node s w r i) = tmap w" "tnodes (new_node s w r i) = tnodes w"
  "troots (new_node s w r i) = troots w" "same_rows w (new_node s w r i)"
  by (auto simp: new_node_def leaf_node_def Let_def same_rows_def row_data_def upd_row_def
      split: option.split)

text \<open>The state after a row with a new id whose parent, if it names one, is there.\<close>

lemma load_row_facts:
  assumes "row_data w r (nodeIdAttr s) = Some i"
    and "\<And>p. parent_id_of s w r = Some p \<Longrightarrow> prop_key p \<noteq> prop_key i"
  defines "q \<equiv> (case parent_id_of s w r of None \<Rightarrow> None | Some p \<Rightarrow> tmap w (prop_key p))"
  defines "v \<equiv> load_row s w r"
  shows "heap v = (let h = (heap w)(nextn w := leaf_node s w r i) in
      (case q of None \<Rightarrow> h
       | Some m \<Rightarrow> h(m := (h m)\<lparr>n_children := n_children (h m) @ [nextn w]\<rparr>)))"
    and "nextn v = Suc (nextn w)"
    and "tmap v = (tmap w)(prop_key i \<mapsto> nextn w)"
    and "tnodes v = tnodes w @ [nextn w]"
    and "troots v = (if q = None then troots w @ [nextn w] else troots w)"
    and "same_rows w v"
proof -
  define w1 where "w1 = new_node s w r i"
  define w2 where "w2 = w1\<lparr>tnodes := tnodes w1 @ [nextn w], tmap := (tmap w1)(prop_key i \<mapsto> nextn w)\<rparr>"
  have "n_parentId (heap w2 (nextn w)) = parent_id_of s w r"
    by (simp add: w2_def w1_def new_node_facts leaf_node_def)
  then have "parent_node w2 (nextn w) = q"
    using assms(2) by (simp add: parent_node_def q_def w2_def w1_def new_node_facts split: option.split)
  then have v: "v = (case q of Some m \<Rightarrow> add_child w2 m (nextn w)
      | None \<Rightarrow> w2\<lparr>troots := troots w2 @ [nextn w]\<rparr>)"
    unfolding v_def load_row_def assms(1)
    by (cases q) (simp_all add: w2_def w1_def Let_def)
  have h2: "heap w2 = (heap w)(nextn w := leaf_node s w r i)" and n2: "nextn w2 = Suc (nextn w)"
    and m2: "tmap w2 = (tmap w)(prop_key i \<mapsto> nextn w)" and t2: "tnodes w2 = tnodes w @ [nextn w]"
    and r2: "troots w2 = troots w" and s2: "same_rows w w2"
    by (simp_all add: w2_def w1_def new_node_facts)
  show "heap v = (let h = (heap w)(nextn w := leaf_node s w r i) in
      (case q of None \<Rightarrow> h
       | Some m \<Rightarrow> h(m := (h m)\<lparr>n_children := n_children (h m) @ [nextn w]\<rparr>)))"
    by (simp add: v Let_def h2 add_child_def upd_node_def split: option.split)
  show "nextn v = Suc (nextn w)" "tmap v = (tmap w)(prop_key i \<mapsto> nextn w)"
    "tnodes v = tnodes w @ [nextn w]"
    "troots v = (if q = None then troots w @ [nextn w] else troots w)"
    by (simp_all add: v n2 m2 t2 r2 add_child_def split: option.split)
  show "same_rows w v"
    using s2 by (simp add: v add_child_def split: option.split)
qed

lemma load_row_forest:
  assumes fo: "forest_of s w fs" and i: "row_data w r (nodeIdAttr s) = Some i"
    and new: "tmap w (prop_key i) = None" and r: "r \<in> set (d_order w)"
    and rn: "r \<notin> row_of w ` set (forder fs)"
    and par: "\<And>p. parent_id_of s w r = Some p \<Longrightarrow> tmap w (prop_key p) \<noteq> None"
  defines "q \<equiv> (case parent_id_of s w r of None \<Rightarrow> None | Some p \<Rightarrow> tmap w (prop_key p))"
  shows "forest_of s (load_row s w r) (add_leaf q (nextn w) fs)"
proof -
  let ?n = "nextn w" and ?F = "set (forder fs)"
  define v where "v = load_row s w r"
  have neq: "prop_key p \<noteq> prop_key i" if "parent_id_of s w r = Some p" for p
    using par [OF that] new by auto
  note v = load_row_facts [OF i neq, folded q_def v_def]
  have nF: "?n \<notin> ?F" using forest_ofD(6) [OF fo] by auto
  have qF: "m \<in> ?F" if "q = Some m" for m
    using that forest_ofD(8) [OF fo] by (auto simp: q_def split: option.splits)
  have fields: "row_of v m = (if m = ?n then r else row_of w m)"
    "n_id (heap v m) = (if m = ?n then i else n_id (heap w m))"
    "n_parentId (heap v m) = (if m = ?n then parent_id_of s w r else n_parentId (heap w m))"
    "children v m = (if m = ?n then [] else children w m) @ (if q = Some m then [?n] else [])" for m
    using qF nF by (auto simp: v(1) Let_def leaf_node_def split: option.splits)
  have F': "distinct (forder (add_leaf q ?n fs))" "set (forder (add_leaf q ?n fs)) = insert ?n ?F"
  proof -
    have "distinct (forder (fgraft m (Rose ?n []) fs))"
      and "set (forder (fgraft m (Rose ?n []) fs)) = insert ?n ?F" if "q = Some m" for m
      using distinct_fgraft [OF forest_ofD(3) [OF fo] qF [OF that], of "Rose ?n []"] nF by auto
    then show "distinct (forder (add_leaf q ?n fs))"
      "set (forder (add_leaf q ?n fs)) = insert ?n ?F"
      using forest_ofD(3) [OF fo] nF by (auto simp: add_leaf_def split: option.split)
  qed
  have leaf: "rep (heap v) (Rose ?n [])" if "q \<noteq> Some ?n"
    using fields(4) [of ?n] that by simp
  have roots: "rep (heap v) t \<and> n_parentId (heap v (root t)) = None"
    if t: "t \<in> set (add_leaf q ?n fs)" for t
  proof (cases q)
    case None
    then have pid: "parent_id_of s w r = None" using par by (auto simp: q_def split: option.splits)
    show ?thesis
    proof (cases "t \<in> set fs")
      case True
      then have sub: "set (preorder t) \<subseteq> ?F" by (auto simp: set_forder)
      have "rep (heap v) t"
      proof (rule rep_cong [OF _ forest_ofD(1) [OF fo True]])
        fix k assume "k \<in> set (preorder t)"
        then have "k \<noteq> ?n" using sub nF by blast
        then show "children v k = children w k \<and> n_id (heap v k) = n_id (heap w k) \<and>
            n_parentId (heap v k) = n_parentId (heap w k)"
          using None by (simp add: fields)
      qed
      moreover have "root t \<noteq> ?n" using sub nF root_in_preorder [of t] by (metis subsetD)
      ultimately show ?thesis using forest_ofD(2) [OF fo True] fields(3) by simp
    next
      case False
      then have "t = Rose ?n []" using t None by (simp add: add_leaf_def)
      then show ?thesis using leaf fields(3) None pid by simp
    qed
  next
    case (Some m)
    then obtain u where u: "u \<in> set fs" "t = graft m (Rose ?n []) u"
      using t by (auto simp: add_leaf_def fgraft_def)
    have sub: "set (preorder u) \<subseteq> ?F" using u(1) by (auto simp: set_forder)
    obtain p' where p': "parent_id_of s w r = Some p'" "tmap w (prop_key p') = Some m"
      using Some by (auto simp: q_def split: option.splits)
    have mn: "m \<noteq> ?n" using qF [OF Some] nF by blast
    have "rep (heap v) (graft m (Rose ?n []) u)"
    proof (rule rep_graft)
      show "rep (heap w) u" by (rule forest_ofD(1) [OF fo u(1)])
      show "rep (heap v) (Rose ?n [])" using leaf Some mn by simp
      show "\<exists>p. n_parentId (heap v (root (Rose ?n []))) = Some p \<and>
          prop_key p = prop_key (n_id (heap v m))"
        using p' forest_ofD(9) [OF fo p'(2)] mn by (simp add: fields)
      fix k assume "k \<in> set (preorder u)"
      then have "k \<noteq> ?n" using sub nF by blast
      then show "n_children (heap v k) = n_children (heap w k) @ (if k = m then [root (Rose ?n [])] else []) \<and>
          n_id (heap v k) = n_id (heap w k) \<and> n_parentId (heap v k) = n_parentId (heap w k)"
        using Some by (auto simp: fields)
    qed
    moreover have "root u \<noteq> ?n" using sub nF root_in_preorder [of u] by (metis subsetD)
    ultimately show ?thesis using forest_ofD(2) [OF fo u(1)] u(2) by (simp add: fields)
  qed
  have keys: "keyed v (insert ?n ?F)"
    using forest_ofD(7) [OF fo] new nF by (auto simp: keyed_def fields v(3))
  have inj: "inj_on (row_of v) (insert ?n ?F)"
    using forest_ofD(10) [OF fo] rn nF by (auto simp: inj_on_def fields)
  have rd: "row_data v x k = row_data w x k" "d_order v = d_order w" for x k
    using v(6) by (auto simp: same_rows_def)
  have "forest_of s v (add_leaf q ?n fs)"
    unfolding forest_of_def F'(2) rd
  proof (intro conjI ballI allI impI)
    show "rep (heap v) t" "n_parentId (heap v (root t)) = None" if "t \<in> set (add_leaf q ?n fs)" for t
      using roots [OF that] by auto
    show "distinct (tnodes v)" "set (tnodes v) = insert ?n ?F"
      using forest_ofD(4,5) [OF fo] nF by (auto simp: v(4))
    show "n < nextn v" if "n \<in> insert ?n ?F" for n
      using that forest_ofD(6) [OF fo] by (auto simp: v(2) less_SucI)
    show "n \<in> insert ?n ?F" "prop_key (n_id (heap v n)) = k" if "tmap v k = Some n" for k n
      using that forest_ofD(8,9) [OF fo, of k n] nF by (auto simp: v(3) fields split: if_splits)
    show "distinct (d_order w)" by (rule forest_ofD(11) [OF fo])
    show "row_of v ` insert ?n ?F \<subseteq> set (d_order w)"
      using r forest_ofD(12) [OF fo] by (auto simp: fields)
    show "row_data w (row_of v n) (nodeIdAttr s) = Some (n_id (heap v n))" if "n \<in> insert ?n ?F" for n
      using that forest_ofD(13) [OF fo] i by (auto simp: fields)
  qed (use F'(1) keys inj in auto)
  then show ?thesis by (simp add: v_def)
qed

section \<open>All rows\<close>

fun loadable :: "settings \<Rightarrow> world \<Rightarrow> string set \<Rightarrow> rref list \<Rightarrow> bool" where
  "loadable s w K [] \<longleftrightarrow> True"
| "loadable s w K (r # rs) \<longleftrightarrow>
     (case row_data w r (nodeIdAttr s) of
        None \<Rightarrow> loadable s w K rs
      | Some i \<Rightarrow>
          prop_key i \<notin> K \<and>
          (case parent_id_of s w r of None \<Rightarrow> True | Some p \<Rightarrow> prop_key p \<in> K) \<and>
          loadable s w (insert (prop_key i) K) rs)"

lemma loadable_same_rows: "same_rows w v \<Longrightarrow> loadable s v K rs = loadable s w K rs"
  by (induction rs arbitrary: K)
    (auto simp: same_rows_def parent_id_same_rows parent_id_of_def split: option.split)

text \<open>The nodes and the links the rows ask for.\<close>

definition child_of :: "world \<Rightarrow> nref \<Rightarrow> nref \<Rightarrow> bool" where
  "child_of w p c \<longleftrightarrow>
     (\<exists>q. n_parentId (heap w c) = Some q \<and> prop_key q = prop_key (n_id (heap w p)))"

definition linked :: "settings \<Rightarrow> world \<Rightarrow> bool" where
  "linked s w \<longleftrightarrow>
     (\<forall>p\<in>set (tnodes w). children w p = filter (child_of w p) (tnodes w)) \<and>
     troots w = filter (\<lambda>n. n_parentId (heap w n) = None) (tnodes w) \<and>
     (\<forall>n\<in>set (tnodes w). n_parentId (heap w n) = parent_id_of s w (row_of w n))"

lemma forest_key_inj:
  assumes "forest_of s w fs" and "m \<in> set (forder fs)" and "n \<in> set (forder fs)"
    and "prop_key (n_id (heap w m)) = prop_key (n_id (heap w n))"
  shows "m = n"
  using forest_ofD(7) [OF assms(1)] assms(2-4) by (auto simp: keyed_def) (metis option.inject)

lemma load_row_linked:
  assumes fo: "forest_of s w fs" and i: "row_data w r (nodeIdAttr s) = Some i"
    and new: "tmap w (prop_key i) = None"
    and par: "\<And>p. parent_id_of s w r = Some p \<Longrightarrow> tmap w (prop_key p) \<noteq> None"
    and li: "linked s w"
  shows "linked s (load_row s w r)"
proof -
  let ?n = "nextn w" and ?F = "set (forder fs)"
  define q where "q = (case parent_id_of s w r of None \<Rightarrow> None | Some p \<Rightarrow> tmap w (prop_key p))"
  define v where "v = load_row s w r"
  have neq: "prop_key p \<noteq> prop_key i" if "parent_id_of s w r = Some p" for p
    using par [OF that] new by auto
  note v = load_row_facts [OF i neq, folded q_def v_def]
  have nF: "?n \<notin> ?F" using forest_ofD(6) [OF fo] by auto
  have T: "set (tnodes w) = ?F" by (rule forest_ofD(5) [OF fo])
  have qF: "m \<in> ?F" if "q = Some m" for m
    using that forest_ofD(8) [OF fo] by (auto simp: q_def split: option.splits)
  have fields: "row_of v m = (if m = ?n then r else row_of w m)"
    "n_id (heap v m) = (if m = ?n then i else n_id (heap w m))"
    "n_parentId (heap v m) = (if m = ?n then parent_id_of s w r else n_parentId (heap w m))"
    "children v m = (if m = ?n then [] else children w m) @ (if q = Some m then [?n] else [])" for m
    using qF nF by (auto simp: v(1) Let_def leaf_node_def split: option.splits)
  have qn: "q \<noteq> Some ?n" using qF nF by blast
  have old: "child_of v m c = child_of w m c" if "m \<in> ?F" "c \<in> ?F" for m c
    using that nF by (auto simp: child_of_def fields)
  have newc: "child_of v m ?n \<longleftrightarrow> q = Some m" if m: "m \<in> ?F" for m
  proof
    assume "q = Some m"
    then obtain p' where "parent_id_of s w r = Some p'" "tmap w (prop_key p') = Some m"
      by (auto simp: q_def split: option.splits)
    then show "child_of v m ?n"
      using m nF forest_ofD(9) [OF fo] by (auto simp: child_of_def fields)
  next
    assume "child_of v m ?n"
    then obtain p' where "parent_id_of s w r = Some p'" "prop_key p' = prop_key (n_id (heap w m))"
      using m nF by (auto simp: child_of_def fields split: if_splits)
    then show "q = Some m" using m forest_ofD(7) [OF fo] by (simp add: q_def keyed_def)
  qed
  have none: "\<not> child_of v ?n c" if c: "c \<in> insert ?n ?F" for c
  proof
    assume "child_of v ?n c"
    then obtain p' where p': "n_parentId (heap v c) = Some p'" "prop_key p' = prop_key i"
      by (auto simp: child_of_def fields)
    show False
    proof (cases "c = ?n")
      case True
      then show False using p' par new by (simp add: fields)
    next
      case False
      then have cF: "c \<in> ?F" using c by simp
      have "n_parentId (heap w c) = Some p'" using p' False by (simp add: fields)
      then show False
        using forest_parent_child [OF fo cF] forest_ofD(2) [OF fo] p'(2) new
        by (auto simp: parent_node_def)
    qed
  qed
  have "children v m = filter (child_of v m) (tnodes v)" if "m \<in> set (tnodes v)" for m
  proof (cases "m = ?n")
    case True
    then show ?thesis using none qn T by (auto simp: fields v(4) filter_empty_conv)
  next
    case False
    then have m: "m \<in> ?F" using that T by (simp add: v(4))
    then have "filter (child_of v m) (tnodes w) = children w m"
      using li old T by (auto simp: linked_def intro!: filter_cong)
    then show ?thesis using False newc [OF m] by (auto simp: fields v(4))
  qed
  moreover have "troots v = filter (\<lambda>n. n_parentId (heap v n) = None) (tnodes v)"
  proof -
    have "q = None \<longleftrightarrow> parent_id_of s w r = None"
      using par by (auto simp: q_def split: option.splits)
    moreover have "filter (\<lambda>n. n_parentId (heap v n) = None) (tnodes w) = troots w"
      using li T nF by (auto simp: linked_def fields intro!: filter_cong)
    ultimately show ?thesis by (simp add: v(4,5) fields)
  qed
  moreover have "n_parentId (heap v m) = parent_id_of s v (row_of v m)" if "m \<in> set (tnodes v)" for m
    using that li T by (auto simp: fields v(4) linked_def parent_id_same_rows [OF v(6)])
  ultimately show ?thesis by (simp add: linked_def v_def)
qed

text \<open>No node comes before one of its ancestors.\<close>

definition parents_first :: "world \<Rightarrow> bool" where
  "parents_first w \<longleftrightarrow>
     sorted_wrt (\<lambda>a b. case ancestors (fuel_of w) w a of None \<Rightarrow> True | Some as \<Rightarrow> b \<notin> set as) (tnodes w)"

lemma parents_first_shape: "same_shape w v \<Longrightarrow> parents_first w \<Longrightarrow> parents_first v"
  by (simp add: parents_first_def same_shape_simps ancestors_shape)

lemma load_row_parents_first:
  assumes fo: "forest_of s w fs" and i: "row_data w r (nodeIdAttr s) = Some i"
    and new: "tmap w (prop_key i) = None"
    and par: "\<And>p. parent_id_of s w r = Some p \<Longrightarrow> tmap w (prop_key p) \<noteq> None"
    and pf: "parents_first w"
  shows "parents_first (load_row s w r)"
proof -
  let ?n = "nextn w"
  define v where "v = load_row s w r"
  have neq: "prop_key p \<noteq> prop_key i" if "parent_id_of s w r = Some p" for p
    using par [OF that] new by auto
  note v = load_row_facts [OF i neq, folded v_def]
  have pid: "n_parentId (heap v m) = n_parentId (heap w m)" if "m \<noteq> ?n" for m
    using that by (auto simp: v(1) Let_def split: option.split)
  have ran: "m \<noteq> ?n" if "tmap w k = Some m" for k m using forest_ofD(6,8) [OF fo] that by fastforce
  have pn: "parent_node v m = parent_node w m" if m: "m \<in> set (forder fs)" for m
  proof -
    have "m \<noteq> ?n" using forest_ofD(6) [OF fo m] by simp
    moreover have "prop_key p \<noteq> prop_key i" if "n_parentId (heap w m) = Some p" for p
      using forest_parent_child [OF fo m] forest_ofD(2) [OF fo] that new by (auto simp: parent_node_def)
    ultimately show ?thesis by (auto simp: parent_node_def pid v(3) split: option.split)
  qed
  have ch: "chain w m as" if "chain v m as" and "m \<in> set (forder fs)" for m as
    using that
  proof (induction as arbitrary: m)
    case (Cons p as)
    then have "parent_node w m = Some p" using pn by simp
    then have "p \<in> set (forder fs)" using forest_parent_child [OF fo Cons.prems(2)] by auto
    then show ?case using Cons \<open>parent_node w m = Some p\<close> by simp
  qed (simp add: pn)
  have anc: "ancestors (fuel_of v) v m = None \<or> ancestors (fuel_of v) v m = ancestors (fuel_of w) w m"
    if "m \<in> set (forder fs)" for m
    using ch [OF _ that] chain_length [OF fo] ancestors_chain by (metis not_Some_eq)
  have T: "set (tnodes w) = set (forder fs)" by (rule forest_ofD(5) [OF fo])
  have no: "?n \<notin> set as" if "ancestors (fuel_of w) w m = Some as" for m as
    using that ran chain_members [of w m as] unfolding ancestors_chain ran_def by blast
  let ?P = "\<lambda>x a b. case ancestors (fuel_of x) x a of None \<Rightarrow> True | Some as \<Rightarrow> b \<notin> set as"
  have "sorted_wrt (?P v) (tnodes w)"
  proof (rule sorted_wrt_mono_rel [of _ "?P w"])
    show "?P v a b" if "a \<in> set (tnodes w)" and "?P w a b" for a b
      using anc [of a] that by (cases "ancestors (fuel_of v) v a") (auto simp: T)
    show "sorted_wrt (?P w) (tnodes w)" using pf by (simp add: parents_first_def)
  qed
  moreover have "\<forall>a\<in>set (tnodes w). \<forall>b\<in>set [?n]. ?P v a b"
  proof (intro ballI)
    fix a b assume "a \<in> set (tnodes w)" and "b \<in> set [?n]"
    then have "a \<in> set (forder fs)" and "b = ?n" using T by auto
    then show "?P v a b" using anc [of a] no [of a] by (auto split: option.split)
  qed
  ultimately have "sorted_wrt (?P v) (tnodes w @ [?n])"
    unfolding sorted_wrt_append by simp
  then have "parents_first v" by (simp only: parents_first_def v(4))
  then show ?thesis by (simp add: v_def)
qed

end
