(* ===== verification/Tree_Init.thy ===== *)
theory Tree_Init
  imports Tree_Load
begin

text \<open>
  \<open>loadRows\<close> on a list of rows, the classes \<open>branch\<close> and \<open>leaf\<close>, and \<open>init\<close>.
\<close>

section \<open>Branch and leaf classes\<close>

text \<open>Two states that differ in these two classes only.\<close>

definition relabels :: "world \<Rightarrow> world \<Rightarrow> bool" where
  "relabels w v \<longleftrightarrow> same_shape w v \<and> heap v = heap w \<and>
     (\<forall>r. r_displayed (d_row v r) = r_displayed (d_row w r) \<and>
        (\<forall>c. c \<noteq> ''branch'' \<longrightarrow> c \<noteq> ''leaf'' \<longrightarrow> has_class v r c = has_class w r c))"

lemma relabels_refl [simp]: "relabels w w"
  by (simp add: relabels_def)

lemma relabels_trans: "relabels w v \<Longrightarrow> relabels v u \<Longrightarrow> relabels w u"
  by (auto simp: relabels_def intro: same_shape_trans)

lemma relabels_simps:
  assumes "relabels w v"
  shows "disp v n = disp w n" and "expanded v n = expanded w n" and "collapsed v n = collapsed w n"
    and "vis_ok v N = vis_ok w N" and "fresh v N = fresh w N" and "vis_inv v fs = vis_inv w fs"
    and "is_branch_node s v n = is_branch_node s w n" and "heap v = heap w"
proof -
  have h: "heap v = heap w" and sh: "same_shape w v" using assms by (auto simp: relabels_def)
  show d: "disp v n = disp w n" "expanded v n = expanded w n" "collapsed v n = collapsed w n" for n
    using assms by (simp_all add: relabels_def disp_def expanded_def collapsed_def)
  show o: "vis_ok v N = vis_ok w N" "fresh v N = fresh w N" for N
    by (simp_all add: vis_ok_def fresh_def d h)
  show "vis_inv v fs = vis_inv w fs" by (simp add: vis_inv_def o d)
  show "is_branch_node s v n = is_branch_node s w n"
    by (simp add: is_branch_node_def h same_shape_simps [OF sh])
  show "heap v = heap w" by (rule h)
qed

lemma touches_update: "touches w {n} (update_branch_leaf_class s w n)"
proof -
  let ?w1 = "remove_class w (row_of w n) ''branch''"
  let ?w2 = "remove_class ?w1 (row_of w n) ''leaf''"
  have "touches ?w1 {n} ?w2" using touches_row_ops(2) [of ?w1 n "''leaf''"] by simp
  moreover have "touches ?w2 {n} (add_class ?w2 (row_of w n) c)" for c
    using touches_row_ops(1) [of ?w2 n c] by simp
  ultimately show ?thesis
    unfolding update_branch_leaf_class_def Let_def
    by (rule touches_trans [OF touches_trans [OF touches_row_ops(2)]])
qed

lemma relabels_update: "relabels w (update_branch_leaf_class s w n)"
proof -
  have "heap (update_branch_leaf_class s w n) = heap w"
    and "r_displayed (d_row (update_branch_leaf_class s w n) r) = r_displayed (d_row w r)"
    and "c \<noteq> ''branch'' \<Longrightarrow> c \<noteq> ''leaf'' \<Longrightarrow>
      has_class (update_branch_leaf_class s w n) r c = has_class w r c" for r c
    by (simp_all add: update_branch_leaf_class_def Let_def)
  then show ?thesis
    using touches_shape [OF touches_update] by (simp add: relabels_def)
qed

definition labelled :: "settings \<Rightarrow> world \<Rightarrow> nref \<Rightarrow> bool" where
  "labelled s w n \<longleftrightarrow>
     has_class w (row_of w n) ''branch'' = is_branch_node s w n \<and>
     has_class w (row_of w n) ''leaf'' = (\<not> is_branch_node s w n)"

lemma update_labels:
  "labelled s (update_branch_leaf_class s w n) n"
  "labelled s w m \<Longrightarrow> row_of w m \<noteq> row_of w n \<Longrightarrow> labelled s (update_branch_leaf_class s w n) m"
proof -
  have b: "is_branch_node s (remove_class (remove_class w (row_of w n) ''branch'') (row_of w n) ''leaf'') n
      = is_branch_node s w n"
    by (simp add: is_branch_node_def)
  have h: "heap (update_branch_leaf_class s w n) = heap w"
    by (rule relabels_simps(8) [OF relabels_update])
  show "labelled s (update_branch_leaf_class s w n) n"
    unfolding labelled_def h relabels_simps(7) [OF relabels_update]
    by (simp add: update_branch_leaf_class_def Let_def b)
  assume "labelled s w m" and "row_of w m \<noteq> row_of w n"
  then show "labelled s (update_branch_leaf_class s w n) m"
    unfolding labelled_def h relabels_simps(7) [OF relabels_update]
    by (simp add: update_branch_leaf_class_def Let_def)
qed

lemma foldl_update_aux:
  "inj_on (row_of w) (set ns \<union> M) \<Longrightarrow> \<forall>m\<in>M. labelled s w m \<Longrightarrow>
    relabels w (foldl (update_branch_leaf_class s) w ns) \<and>
    (\<forall>m\<in>set ns \<union> M. labelled s (foldl (update_branch_leaf_class s) w ns) m)"
proof (induction ns arbitrary: w M)
  case Nil
  then show ?case by simp
next
  case (Cons n ns)
  let ?v = "update_branch_leaf_class s w n"
  have h: "heap ?v = heap w" by (rule relabels_simps(8) [OF relabels_update])
  have "inj_on (row_of ?v) (set ns \<union> insert n M)" using Cons.prems(1) by (simp add: h)
  moreover have "\<forall>m\<in>insert n M. labelled s ?v m"
    using update_labels(1) [of s w n] update_labels(2) [of s w _ n] Cons.prems
    by (auto simp: inj_on_def)
  ultimately have "relabels ?v (foldl (update_branch_leaf_class s) ?v ns) \<and>
    (\<forall>m\<in>set ns \<union> insert n M. labelled s (foldl (update_branch_leaf_class s) ?v ns) m)"
    by (rule Cons.IH)
  then show ?case using relabels_trans [OF relabels_update] by auto
qed

lemma foldl_update:
  assumes "inj_on (row_of w) (set ns)"
  shows "relabels w (foldl (update_branch_leaf_class s) w ns)"
    and "\<And>m. m \<in> set ns \<Longrightarrow> labelled s (foldl (update_branch_leaf_class s) w ns) m"
  using foldl_update_aux [of w ns "{}" s] assms by auto

section \<open>loadRows\<close>

lemma load_row_nodes:
  assumes fo: "forest_of s w fs" and i: "row_data w r (nodeIdAttr s) = Some i"
    and new: "tmap w (prop_key i) = None"
    and par: "\<And>p. parent_id_of s w r = Some p \<Longrightarrow> tmap w (prop_key p) \<noteq> None"
  shows "\<And>m. m \<in> set (tnodes w) \<Longrightarrow> row_of (load_row s w r) m = row_of w m \<and>
      n_id (heap (load_row s w r) m) = n_id (heap w m) \<and>
      n_initialized (heap (load_row s w r) m) = n_initialized (heap w m)"
    and "row_of (load_row s w r) (nextn w) = r"
    and "n_id (heap (load_row s w r) (nextn w)) = i"
    and "\<not> n_initialized (heap (load_row s w r) (nextn w))"
    and "tnodes (load_row s w r) = tnodes w @ [nextn w]"
    and "tmap (load_row s w r) = (tmap w)(prop_key i \<mapsto> nextn w)"
    and "same_rows w (load_row s w r)"
proof -
  have neq: "prop_key p \<noteq> prop_key i" if "parent_id_of s w r = Some p" for p
    using par [OF that] new by auto
  note v = load_row_facts [OF i neq]
  have lt: "m < nextn w" if "m \<in> set (tnodes w)" for m
    using that forest_ofD(5,6) [OF fo] by auto
  show "row_of (load_row s w r) m = row_of w m \<and>
      n_id (heap (load_row s w r) m) = n_id (heap w m) \<and>
      n_initialized (heap (load_row s w r) m) = n_initialized (heap w m)"
    if "m \<in> set (tnodes w)" for m
    using lt [OF that] by (auto simp: v(1) Let_def leaf_node_def split: option.split)
  show "row_of (load_row s w r) (nextn w) = r" "n_id (heap (load_row s w r) (nextn w)) = i"
    "\<not> n_initialized (heap (load_row s w r) (nextn w))"
    by (auto simp: v(1) Let_def leaf_node_def split: option.split)
  show "tnodes (load_row s w r) = tnodes w @ [nextn w]"
    "tmap (load_row s w r) = (tmap w)(prop_key i \<mapsto> nextn w)" "same_rows w (load_row s w r)"
    by (simp_all add: v)
qed

lemma load_row_roots:
  assumes i: "row_data w r (nodeIdAttr s) = Some i" and new: "tmap w (prop_key i) = None"
    and par: "\<And>p. parent_id_of s w r = Some p \<Longrightarrow> tmap w (prop_key p) \<noteq> None"
  defines "q \<equiv> (case parent_id_of s w r of None \<Rightarrow> None | Some p \<Rightarrow> tmap w (prop_key p))"
  shows "troots w = map root fs \<longrightarrow> troots (load_row s w r) = map root (add_leaf q (nextn w) fs)"
proof -
  have neq: "prop_key p \<noteq> prop_key i" if "parent_id_of s w r = Some p" for p
    using par [OF that] new by auto
  have "map root (fgraft m t fs) = map root fs" for m and t :: "nref rose"
    by (simp add: fgraft_def)
  then show ?thesis
    by (auto simp: load_row_facts(5) [OF i neq] add_leaf_def simp flip: q_def split: option.split)
qed

lemma load_rows_forest:
  assumes "forest_of s w fs" and "\<And>k. k \<in> K \<longleftrightarrow> tmap w k \<noteq> None"
    and "loadable s w K rs" and "distinct rs" and "set rs \<subseteq> set (d_order w)"
    and "set rs \<inter> row_of w ` set (forder fs) = {}"
  shows "\<exists>gs. forest_of s (foldl (load_row s) w rs) gs \<and>
      (linked s w \<longrightarrow> linked s (foldl (load_row s) w rs)) \<and>
      (parents_first w \<longrightarrow> parents_first (foldl (load_row s) w rs)) \<and>
      same_rows w (foldl (load_row s) w rs) \<and>
      (\<exists>ns. tnodes (foldl (load_row s) w rs) = tnodes w @ ns \<and>
        map (row_of (foldl (load_row s) w rs)) ns =
          filter (\<lambda>r. row_data w r (nodeIdAttr s) \<noteq> None) rs \<and>
        (\<forall>n\<in>set ns. \<not> n_initialized (heap (foldl (load_row s) w rs) n))) \<and>
      (\<forall>m\<in>set (tnodes w). row_of (foldl (load_row s) w rs) m = row_of w m \<and>
        n_initialized (heap (foldl (load_row s) w rs) m) = n_initialized (heap w m)) \<and>
      (troots w = map root fs \<longrightarrow> troots (foldl (load_row s) w rs) = map root gs)"
  using assms
proof (induction rs arbitrary: w fs K)
  case Nil
  then show ?case by auto
next
  case (Cons r rs)
  show ?case
  proof (cases "row_data w r (nodeIdAttr s)")
    case None
    then have "load_row s w r = w" by (simp add: load_row_def)
    then show ?thesis using Cons.IH [OF Cons.prems(1,2)] Cons.prems(3-6) None by simp
  next
    case (Some i)
    let ?v = "load_row s w r" and ?n = "nextn w"
    have new: "tmap w (prop_key i) = None" using Cons.prems(2,3) Some by auto
    have par: "tmap w (prop_key p) \<noteq> None" if "parent_id_of s w r = Some p" for p
      using Cons.prems(2,3) Some that by auto
    have rd: "r \<in> set (d_order w)" and rn: "r \<notin> row_of w ` set (forder fs)"
      using Cons.prems(5,6) by auto
    define gs where "gs = add_leaf (case parent_id_of s w r of None \<Rightarrow> None
      | Some p \<Rightarrow> tmap w (prop_key p)) ?n fs"
    have fv: "forest_of s ?v gs"
      unfolding gs_def by (rule load_row_forest [OF Cons.prems(1) Some new rd rn par])
    have rv: "troots w = map root fs \<longrightarrow> troots ?v = map root gs"
      unfolding gs_def by (rule load_row_roots [OF Some new par])
    have lv: "linked s w \<Longrightarrow> linked s ?v" by (rule load_row_linked [OF Cons.prems(1) Some new par])
    have pv: "parents_first w \<Longrightarrow> parents_first ?v"
      by (rule load_row_parents_first [OF Cons.prems(1) Some new par])
    note nv = load_row_nodes [OF Cons.prems(1) Some new par]
    have rows: "set (tnodes ?v) = set (forder gs)" by (rule forest_ofD(5) [OF fv])
    have old: "set (tnodes w) = set (forder fs)" by (rule forest_ofD(5) [OF Cons.prems(1)])
    have "set (forder gs) = insert ?n (set (forder fs))" using rows old nv(5) by simp
    then have img: "row_of ?v ` set (forder gs) = insert r (row_of w ` set (forder fs))"
      using nv(1,2) old by auto
    have "\<exists>hs. forest_of s (foldl (load_row s) ?v rs) hs \<and>
      (linked s ?v \<longrightarrow> linked s (foldl (load_row s) ?v rs)) \<and>
      (parents_first ?v \<longrightarrow> parents_first (foldl (load_row s) ?v rs)) \<and>
      same_rows ?v (foldl (load_row s) ?v rs) \<and>
      (\<exists>ns. tnodes (foldl (load_row s) ?v rs) = tnodes ?v @ ns \<and>
        map (row_of (foldl (load_row s) ?v rs)) ns =
          filter (\<lambda>r. row_data ?v r (nodeIdAttr s) \<noteq> None) rs \<and>
        (\<forall>n\<in>set ns. \<not> n_initialized (heap (foldl (load_row s) ?v rs) n))) \<and>
      (\<forall>m\<in>set (tnodes ?v). row_of (foldl (load_row s) ?v rs) m = row_of ?v m \<and>
        n_initialized (heap (foldl (load_row s) ?v rs) m) = n_initialized (heap ?v m)) \<and>
      (troots ?v = map root gs \<longrightarrow> troots (foldl (load_row s) ?v rs) = map root hs)"
    proof (rule Cons.IH [OF fv, of "insert (prop_key i) K"])
      show "k \<in> insert (prop_key i) K \<longleftrightarrow> tmap ?v k \<noteq> None" for k
        using Cons.prems(2) by (auto simp: nv(6))
      show "loadable s ?v (insert (prop_key i) K) rs"
        using Cons.prems(3) Some by (simp add: loadable_same_rows [OF nv(7)])
      show "set rs \<inter> row_of ?v ` set (forder gs) = {}"
        using Cons.prems(4,6) by (auto simp: img)
      show "set rs \<subseteq> set (d_order ?v)" using Cons.prems(5) nv(7) by (simp add: same_rows_def)
    qed (use Cons.prems(4) in simp)
    then obtain hs ns where h: "forest_of s (foldl (load_row s) ?v rs) hs"
      "linked s ?v \<longrightarrow> linked s (foldl (load_row s) ?v rs)"
      "parents_first ?v \<longrightarrow> parents_first (foldl (load_row s) ?v rs)" "same_rows ?v (foldl (load_row s) ?v rs)"
      "tnodes (foldl (load_row s) ?v rs) = tnodes ?v @ ns"
      "map (row_of (foldl (load_row s) ?v rs)) ns =
          filter (\<lambda>r. row_data ?v r (nodeIdAttr s) \<noteq> None) rs"
      "\<forall>n\<in>set ns. \<not> n_initialized (heap (foldl (load_row s) ?v rs) n)"
      "\<forall>m\<in>set (tnodes ?v). row_of (foldl (load_row s) ?v rs) m = row_of ?v m \<and>
        n_initialized (heap (foldl (load_row s) ?v rs) m) = n_initialized (heap ?v m)"
      "troots ?v = map root gs \<longrightarrow> troots (foldl (load_row s) ?v rs) = map root hs"
      by blast
    have "row_data ?v x k = row_data w x k" for x k using nv(7) by (simp add: same_rows_def)
    then have "map (row_of (foldl (load_row s) ?v rs)) (?n # ns) =
        filter (\<lambda>r. row_data w r (nodeIdAttr s) \<noteq> None) (r # rs)"
      using h(6,8) nv(2,5) Some by simp
    moreover have "tnodes (foldl (load_row s) ?v rs) = tnodes w @ ?n # ns" using h(5) nv(5) by simp
    moreover have "\<forall>n\<in>set (?n # ns). \<not> n_initialized (heap (foldl (load_row s) ?v rs) n)"
      using h(7,8) nv(4,5) by simp
    ultimately show ?thesis
      using h(1,2,3,8,9) lv pv rv nv(1,5) same_rows_trans [OF nv(7) h(4)] by (intro exI [of _ hs]) auto
  qed
qed

section \<open>init\<close>

text \<open>Rendering the roots shows every root and leaves the table in order.\<close>

lemma tree_render_each:
  "sound w ts \<Longrightarrow> \<forall>t\<in>set ts. height t \<le> fuel_of w \<Longrightarrow>
    each (\<lambda>w1 n. node_show s (fuel_of w1) w1 n) w (map root ts) =
    each (node_show s (fuel_of w)) w (map root ts)"
proof (induction ts arbitrary: w)
  case (Cons t ts)
  obtain v where v: "node_show s (fuel_of w) w (root t) = Returns v" "touches w (set (preorder t)) v"
    using showing.shows_child [OF sound_Cons(1) [OF Cons.prems(1)], of "fuel_of w" s] Cons.prems(2) by auto
  have f: "fuel_of v = fuel_of w" by (rule same_shape_simps(13) [OF touches_shape [OF v(2)]])
  have "sound v ts"
    by (rule sound_shape [OF touches_shape [OF v(2)] sound_Cons(2) [OF Cons.prems(1)]])
  then show ?case using Cons.IH [of v] Cons.prems(2) v(1) f by simp
qed simp

text \<open>Where trees start collapsed, showing a new root collapses it.\<close>

definition starts_collapsed :: "settings \<Rightarrow> bool" where
  "starts_collapsed s \<longleftrightarrow> expandable s \<and> initialState s = ''collapsed''"

lemma show_fresh_root:
  assumes sd: "sound w [t]" and h: "height t \<le> f" and fr: "fresh w (set (preorder t))"
    and st: "starts_collapsed s" and v: "node_show s f w (root t) = Returns v"
  shows "\<not> expanded v (root t)"
proof -
  obtain g where f: "f = Suc g" using h height_pos [of t] by (cases f) auto
  let ?n = "root t"
  obtain w1 where w1: "render s w ?n = Returns w1" "touches w {?n} w1" "looks w w1"
    using render_returns [of w ?n s] sd by (auto simp: sound_def)
  have sd1: "sound w1 [t]" by (rule sound_shape [OF touches_shape [OF w1(2)] sd])
  have nc: "\<not> collapsed w1 ?n" "\<not> n_initialized (heap w ?n)"
    using fr looks_simps(3) [OF w1(3)] by (simp_all add: fresh_def)
  define w2 where "w2 = collapse_result s w1 t"
  have c: "node_collapse s g w1 ?n = Returns w2"
    using node_collapse_eq [OF sound_rep [OF sd1], of g s] h f nc(1) by (simp add: w2_def)
  have e: "\<not> expanded w2 ?n"
    unfolding w2_def by (rule collapse_result_facts(2)) (use sd1 in \<open>auto simp: sound_def\<close>)
  define w3 where "w3 = upd_node (if onNodeInitialized s then log_event w2 (NodeInitialized ?n) else w2)
    ?n (\<lambda>x. x\<lparr>n_initialized := True\<rparr>)"
  have "initialize_via (node_show s g) g s w ?n = Returns w3"
    using w1(1) c st by (simp add: initialize_via_def starts_collapsed_def w3_def Let_def)
  moreover have "\<not> expanded w3 ?n" using e by (simp add: w3_def expanded_def has_class_def)
  ultimately show ?thesis using v nc(2) by (auto simp: f expanded_def)
qed

lemma show_fresh_each:
  "sound w ts \<Longrightarrow> \<forall>t\<in>set ts. height t \<le> f \<Longrightarrow> fresh w (set (forder ts)) \<Longrightarrow> starts_collapsed s \<Longrightarrow>
    each (node_show s f) w (map root ts) = Returns v \<Longrightarrow> \<forall>t\<in>set ts. \<not> expanded v (root t)"
proof (induction ts arbitrary: w)
  case (Cons t ts)
  note sd = sound_Cons [OF Cons.prems(1)]
  obtain u where u: "node_show s f w (root t) = Returns u" "touches w (set (preorder t)) u"
    using showing.shows_child [OF sd(1), of f s] Cons.prems(2) by auto
  have "\<not> expanded u (root t)"
    by (rule show_fresh_root [OF sd(1) _ _ Cons.prems(4) u(1)])
      (use Cons.prems(2,3) in \<open>auto simp: fresh_def\<close>)
  have su: "sound u (t # ts)" by (rule sound_shape [OF touches_shape [OF u(2)] Cons.prems(1)])
  note out = touches_outside_set [OF u(2), of "set (forder ts)"]
  have dis: "set (forder ts) \<inter> set (preorder t) = {}" using sd(3) by blast
  have "fresh u (set (forder ts))"
    using Cons.prems(3) out [OF dis sd(4)] by (simp add: fresh_def)
  moreover have v: "each (node_show s f) u (map root ts) = Returns v" using Cons.prems(5) u(1) by simp
  ultimately have kids: "\<forall>t\<in>set ts. \<not> expanded v (root t)"
    using Cons.IH [OF sound_Cons(2) [OF su]] Cons.prems(2,4) by simp
  obtain v' where v': "each (node_show s f) u (map root ts) = Returns v'" "touches u (set (forder ts)) v'"
    using showing.shows_children [OF sound_Cons(2) [OF su], of f s] Cons.prems(2) by auto
  have "root t \<notin> set (forder ts)" using dis root_in_preorder [of t] by blast
  moreover have "inj_on (row_of u) (insert (root t) (set (forder ts)))"
    by (rule inj_on_subset [OF sound_Cons(4) [OF su]]) auto
  ultimately have "expanded v (root t) = expanded u (root t)"
    using touches_outside(2) [OF v'(2)] v v'(1) by simp
  then show ?case using kids \<open>\<not> expanded u (root t)\<close> by simp
qed simp

lemma tree_render_forest:
  assumes fo: "forest_of s w fs" and roots: "troots w = map root fs"
    and fr: "fresh w (set (forder fs))"
  shows "\<exists>v. tree_render s w = Returns v \<and> forest_of s v fs \<and> same_shape w v \<and> vis_inv v fs \<and>
      (starts_collapsed s \<longrightarrow> (\<forall>t\<in>set fs. \<not> expanded v (root t)))"
proof -
  have hs: "\<forall>t\<in>set fs. height t \<le> fuel_of w"
    using forest_height_fuel(1) [OF fo forest_root_subtree] by blast
  have "\<forall>t\<in>set fs. good w t"
    using fr by (auto simp: good_def fresh_def set_forder)
  then obtain v where v: "each (node_show s (fuel_of w)) w (map root fs) = Returns v"
    "touches w (set (forder fs)) v" "\<forall>t\<in>set fs. disp v (root t)" "vis_ok v (set (forder fs))"
    using showing.shows_children [OF sound_forest [OF fo] hs, of s] by blast
  then show ?thesis
    using forest_of_shape [OF touches_shape [OF v(2)] fo] touches_shape [OF v(2)]
      tree_render_each [OF sound_forest [OF fo] hs, of s]
      show_fresh_each [OF sound_forest [OF fo] hs fr _ v(1)]
    by (auto simp: tree_render_def roots vis_inv_def)
qed

lemma linked_shape: "same_shape w v \<Longrightarrow> linked s w \<Longrightarrow> linked s v"
  unfolding linked_def
  by (simp add: same_shape_simps child_of_def [abs_def] parent_id_of_def)

text \<open>The rows of a table before \<open>init\<close>.\<close>

definition pristine :: "settings \<Rightarrow> world \<Rightarrow> bool" where
  "pristine s w \<longleftrightarrow> distinct (d_order w) \<and> loadable s w {} (d_order w) \<and>
     (\<forall>r\<in>set (d_order w). \<not> has_class w r ''expanded'' \<and> \<not> has_class w r ''collapsed'')"

lemma load_rows_pristine:
  assumes "pristine s w"
  defines "v \<equiv> load_rows s (w\<lparr>tmap := Map.empty, tnodes := [], troots := []\<rparr>) (d_order w)"
  obtains fs where "forest_of s v fs" and "linked s v" and "parents_first v" and "troots v = map root fs"
    and "fresh v (set (forder fs))"
    and "map (row_of v) (tnodes v) =
      filter (\<lambda>r. row_data w r (nodeIdAttr s) \<noteq> None) (d_order w)"
    and "\<And>n. n \<in> set (tnodes v) \<Longrightarrow> labelled s v n"
    and "d_order v = d_order w" and "d_visible v = d_visible w"
proof -
  define w0 where "w0 = w\<lparr>tmap := Map.empty, tnodes := [], troots := []\<rparr>"
  have s0: "same_rows w w0" by (simp add: w0_def)
  have ord: "d_order w0 = d_order w" and emp: "tnodes w0 = []" "tmap w0 = Map.empty" "troots w0 = []"
    by (simp_all add: w0_def)
  have f0: "forest_of s w0 []" and l0: "linked s w0" and p0: "parents_first w0"
    using assms(1)
    by (simp_all add: forest_of_def linked_def keyed_def pristine_def parents_first_def ord emp)
  define u where "u = foldl (load_row s) w0 (d_order w)"
  have "\<exists>gs. forest_of s u gs \<and> (linked s w0 \<longrightarrow> linked s u) \<and>
      (parents_first w0 \<longrightarrow> parents_first u) \<and> same_rows w0 u \<and>
      (\<exists>ns. tnodes u = tnodes w0 @ ns \<and>
        map (row_of u) ns = filter (\<lambda>r. row_data w0 r (nodeIdAttr s) \<noteq> None) (d_order w) \<and>
        (\<forall>n\<in>set ns. \<not> n_initialized (heap u n))) \<and>
      (\<forall>m\<in>set (tnodes w0). row_of u m = row_of w0 m \<and>
        n_initialized (heap u m) = n_initialized (heap w0 m)) \<and>
      (troots w0 = map root [] \<longrightarrow> troots u = map root gs)"
    unfolding u_def
    by (rule load_rows_forest [OF f0, of "{}"])
      (use assms(1) in \<open>simp_all add: emp ord pristine_def loadable_same_rows [OF s0]\<close>)
  then obtain fs where fs: "forest_of s u fs" "linked s u" "same_rows w0 u"
    "map (row_of u) (tnodes u) = filter (\<lambda>r. row_data w0 r (nodeIdAttr s) \<noteq> None) (d_order w)"
    "\<forall>n\<in>set (tnodes u). \<not> n_initialized (heap u n)" "troots u = map root fs"
    "parents_first u"
    using l0 p0 by (auto simp: emp)
  have v: "v = foldl (update_branch_leaf_class s) u (tnodes u)"
    by (simp add: v_def load_rows_def u_def w0_def Let_def)
  have inj: "inj_on (row_of u) (set (tnodes u))"
    using forest_ofD(5,10) [OF fs(1)] by simp
  note up = foldl_update [OF inj, where s = s, folded v]
  have sh: "same_shape u v" and hp: "heap v = heap u" using up(1) by (auto simp: relabels_def)
  have cls: "\<not> expanded u n \<and> \<not> collapsed u n" if "n \<in> set (forder fs)" for n
  proof -
    have "row_of u n \<in> set (d_order u)" by (rule forest_ofD(12) [OF fs(1) that])
    then have "row_of u n \<in> set (d_order w)" using fs(3) ord by (simp add: same_rows_def)
    moreover have "has_class u r c = has_class w r c" for r c
      using fs(3) by (simp add: same_rows_def has_class_def w0_def)
    ultimately show ?thesis using assms(1) by (simp add: expanded_def collapsed_def pristine_def)
  qed
  show thesis
  proof (rule that)
    show "forest_of s v fs" by (rule forest_of_shape [OF sh fs(1)])
    show "linked s v" by (rule linked_shape [OF sh fs(2)])
    show "parents_first v" by (rule parents_first_shape [OF sh fs(7)])
    show "troots v = map root fs" using fs(6) same_shape_simps(9) [OF sh] by simp
    show "fresh v (set (forder fs))"
      unfolding relabels_simps(5) [OF up(1)] using fs(5) cls forest_ofD(5) [OF fs(1)]
      by (simp add: fresh_def)
    show "map (row_of v) (tnodes v) =
        filter (\<lambda>r. row_data w r (nodeIdAttr s) \<noteq> None) (d_order w)"
      using fs(4) s0 by (simp add: hp same_shape_simps(8) [OF sh] same_rows_def)
    show "labelled s v n" if "n \<in> set (tnodes v)" for n
      using up(2) that same_shape_simps(8) [OF sh] by simp
    show "d_order v = d_order w" "d_visible v = d_visible w"
      using fs(3) s0 same_shape_simps(10,11) [OF sh] by (simp_all add: same_rows_def)
  qed
qed

lemma init_forest:
  assumes "pristine (opts default_settings) (t_world t)" and "force \<or> \<not> tdata (t_world t)"
  shows "\<exists>v fs. tt_init opts force t = Returns \<lparr>t_world = v, t_settings = opts default_settings\<rparr> \<and>
      forest_of (opts default_settings) v fs \<and> linked (opts default_settings) v \<and>
      parents_first v \<and> vis_inv v fs \<and> tdata v \<and> troots v = map root fs \<and>
      d_order v = d_order (t_world t) \<and> d_visible v = d_visible (t_world t) \<and>
      (starts_collapsed (opts default_settings) \<longrightarrow> (\<forall>t\<in>set fs. \<not> expanded v (root t))) \<and>
      map (row_of v) (tnodes v) =
        filter (\<lambda>r. row_data (t_world t) r (nodeIdAttr (opts default_settings)) \<noteq> None)
          (d_order (t_world t))"
proof -
  let ?s = "opts default_settings" and ?w = "t_world t"
  define u where "u = load_rows ?s (?w\<lparr>tmap := Map.empty, tnodes := [], troots := []\<rparr>) (d_order ?w)"
  obtain fs where u: "forest_of ?s u fs" "linked ?s u" "parents_first u" "troots u = map root fs"
    "fresh u (set (forder fs))"
    "map (row_of u) (tnodes u) = filter (\<lambda>r. row_data ?w r (nodeIdAttr ?s) \<noteq> None) (d_order ?w)"
    "d_order u = d_order ?w" "d_visible u = d_visible ?w"
    using load_rows_pristine [OF assms(1)] unfolding u_def by metis
  obtain x where x: "tree_render ?s u = Returns x" "forest_of ?s x fs" "same_shape u x" "vis_inv x fs"
    "starts_collapsed ?s \<longrightarrow> (\<forall>t\<in>set fs. \<not> expanded x (root t))"
    using tree_render_forest [OF u(1,4,5)] by blast
  define v where "v = (if onInitialized ?s then log_event (x\<lparr>tclass := True, tdata := True\<rparr>) Initialized
    else x\<lparr>tclass := True, tdata := True\<rparr>)"
  have v: "heap v = heap x" "d_row v = d_row x" "d_order v = d_order x" "d_visible v = d_visible x"
    "tmap v = tmap x" "tnodes v = tnodes x" "troots v = troots x" "nextn v = nextn x" "tdata v"
    by (simp_all add: v_def log_event_def)
  have rd: "row_data v r k = row_data x r k" for r k
    by (simp add: row_data_def v cong: option.case_cong)
  have "forest_of ?s v fs" using x(2) by (simp add: forest_of_def keyed_def v rd)
  moreover have "linked ?s v"
    using linked_shape [OF x(3) u(2)]
    by (simp add: linked_def v child_of_def [abs_def] parent_id_of_def rd)
  moreover have "parents_first v"
  proof -
    have "ancestors f v n = ancestors f x n" for f n
      by (induction f arbitrary: n) (simp_all add: parent_node_def v cong: option.case_cong)
    then show ?thesis
      using parents_first_shape [OF x(3) u(3)] by (simp add: parents_first_def fuel_of_def v)
  qed
  moreover have "vis_inv v fs"
    using x(4) by (simp add: vis_inv_def vis_ok_def disp_def expanded_def has_class_def v)
  moreover have "tt_init opts force t = Returns \<lparr>t_world = v, t_settings = ?s\<rparr>"
    using assms(2) x(1) by (simp add: tt_init_def Let_def v_def flip: u_def)
  moreover have "expanded v n = expanded x n" for n by (simp add: expanded_def has_class_def v)
  ultimately show ?thesis
    using u(4,6,7,8) x(5) v by (auto simp: same_shape_simps [OF x(3)])
qed

end
