(* ===== verification/Tree_Remove.thy ===== *)
theory Tree_Remove
  imports Tree_Init
begin

text \<open>
  \<open>removeNode\<close> and \<open>unloadBranch\<close>. \<open>gone w P E v\<close>: the nodes \<open>P\<close> have left the list of
  nodes, the map from ids and, with their rows, the table; of the other nodes only the
  children lists of the nodes \<open>E\<close> may have changed. On a represented forest \<open>removeNode\<close>
  cuts the subtree out, and the result represents the pruned forest.
\<close>

section \<open>Nodes that are gone\<close>

definition gone :: "world \<Rightarrow> nref set \<Rightarrow> nref set \<Rightarrow> world \<Rightarrow> bool" where
  "gone w P E v \<longleftrightarrow>
     tnodes v = filter (\<lambda>m. m \<notin> P) (tnodes w) \<and>
     (\<forall>k. tmap v k = (case tmap w k of None \<Rightarrow> None | Some m \<Rightarrow> if m \<in> P then None else Some m)) \<and>
     d_order v = filter (\<lambda>r. r \<notin> row_of w ` P) (d_order w) \<and>
     (\<forall>m. m \<notin> P \<longrightarrow> m \<notin> E \<longrightarrow> heap v m = heap w m) \<and>
     (\<forall>m. m \<notin> P \<longrightarrow> heap v m = (heap w m)\<lparr>n_children := children v m\<rparr>) \<and>
     (\<forall>m. row_of v m = row_of w m) \<and>
     (\<forall>r. r \<notin> row_of w ` P \<longrightarrow> d_row v r = d_row w r) \<and>
     nextn v = nextn w \<and> troots v = troots w \<and> d_visible v = d_visible w \<and> tdata v = tdata w"

lemma goneD:
  assumes "gone w P E v"
  shows "tnodes v = filter (\<lambda>m. m \<notin> P) (tnodes w)"
    and "tmap v k = (case tmap w k of None \<Rightarrow> None | Some m \<Rightarrow> if m \<in> P then None else Some m)"
    and "d_order v = filter (\<lambda>r. r \<notin> row_of w ` P) (d_order w)"
    and "\<And>m. m \<notin> P \<Longrightarrow> m \<notin> E \<Longrightarrow> heap v m = heap w m"
    and "\<And>m. m \<notin> P \<Longrightarrow> heap v m = (heap w m)\<lparr>n_children := children v m\<rparr>"
    and "row_of v m = row_of w m"
    and "\<And>r. r \<notin> row_of w ` P \<Longrightarrow> d_row v r = d_row w r"
    and "nextn v = nextn w" and "troots v = troots w" and "d_visible v = d_visible w"
    and "tdata v = tdata w"
    and "\<And>m. m \<notin> P \<Longrightarrow> n_id (heap v m) = n_id (heap w m) \<and> n_parentId (heap v m) = n_parentId (heap w m)"
proof -
  show "\<And>m. m \<notin> P \<Longrightarrow> heap v m = (heap w m)\<lparr>n_children := children v m\<rparr>"
    using assms unfolding gone_def by blast
  then show "\<And>m. m \<notin> P \<Longrightarrow> n_id (heap v m) = n_id (heap w m) \<and> n_parentId (heap v m) = n_parentId (heap w m)"
    by (metis node.select_convs(2,3) node.surjective node.update_convs(5))
qed (use assms in \<open>auto simp: gone_def\<close>)

lemma gone_refl: "gone w {} E w"
  by (auto simp: gone_def split: option.split)

lemma gone_trans:
  assumes "gone w P E v" and "gone v Q E u" and "P \<inter> Q = {}"
  shows "gone w (P \<union> Q) E u"
proof -
  note a = goneD [OF assms(1)] and b = goneD [OF assms(2)]
  have img: "row_of v ` Q = row_of w ` Q" by (simp add: a(6))
  have "heap u m = (heap w m)\<lparr>n_children := children u m\<rparr>" if "m \<notin> P \<union> Q" for m
  proof -
    have "heap u m = (heap v m)\<lparr>n_children := children u m\<rparr>" using b(5) that by blast
    moreover have "heap v m = (heap w m)\<lparr>n_children := children v m\<rparr>" using a(5) that by blast
    ultimately show ?thesis by (metis node.surjective node.update_convs(5))
  qed
  then show ?thesis
    using a b unfolding gone_def img image_Un
    by (auto split: option.split simp: conj_commute)
qed

lemma gone_parent_node:
  assumes "gone w P E v" and "n \<notin> P" and "parent_node w n = Some p" and "p \<notin> P"
  shows "parent_node v n = Some p"
  using goneD(2,12) [OF assms(1)] assms(2-4) by (auto simp: parent_node_def split: option.splits)

section \<open>Removing a subtree\<close>

definition tidy :: "world \<Rightarrow> bool" where
  "tidy w \<longleftrightarrow> distinct (tnodes w) \<and> (\<forall>k m. tmap w k = Some m \<longrightarrow> prop_key (n_id (heap w m)) = k)"

definition removable :: "world \<Rightarrow> nref rose \<Rightarrow> bool" where
  "removable w t \<longleftrightarrow> rep (heap w) t \<and> distinct (preorder t) \<and> keyed w (set (preorder t)) \<and>
     set (preorder t) \<subseteq> set (tnodes w)"

definition hung :: "world \<Rightarrow> nref rose \<Rightarrow> nref \<Rightarrow> bool" where
  "hung w t p \<longleftrightarrow> parent_node w (root t) = Some p \<and> p \<notin> set (preorder t) \<and>
     root t \<in> set (children w p) \<and> distinct (children w p)"

definition loose :: "world \<Rightarrow> nref rose \<Rightarrow> bool" where
  "loose w t \<longleftrightarrow> n_parentId (heap w (root t)) = None"

lemma tidy_gone: "gone w P E v \<Longrightarrow> tidy w \<Longrightarrow> tidy v"
  using goneD(1,2,12) [of w P E v]
  by (auto simp: tidy_def split: option.splits if_splits)

lemma removable_gone:
  assumes "gone w P E v" and "set (preorder t) \<inter> (P \<union> E) = {}" and "removable w t"
  shows "removable v t"
proof -
  have eq: "heap v m = heap w m" if "m \<in> set (preorder t)" for m
    using goneD(4) [OF assms(1)] assms(2) that by blast
  have "rep (heap v) t"
    by (rule rep_cong [of t "heap v" "heap w"]) (use eq assms(3) in \<open>auto simp: removable_def\<close>)
  moreover have "keyed v (set (preorder t))"
    using assms(2,3) goneD(2) [OF assms(1)] eq
    by (fastforce simp: keyed_def removable_def)
  ultimately show ?thesis
    using assms(2,3) goneD(1) [OF assms(1)] by (auto simp: removable_def)
qed

lemma removable_kid:
  assumes "removable w t" and "c \<in> set (kids t)"
  shows "removable w c" and "hung w c (root t)"
proof -
  have r: "rep (heap w) t" "distinct (preorder t)" "keyed w (set (preorder t))"
    "set (preorder t) \<subseteq> set (tnodes w)"
    using assms(1) by (auto simp: removable_def)
  have sub: "set (preorder c) \<subseteq> set (below t)" by (rule kids_preorder [OF assms(2)])
  show "removable w c"
    unfolding removable_def
    using rep_kid [OF r(1) assms(2)] distinct_preorder_kid [OF r(2) assms(2)]
      keyed_subset [OF r(3)] sub below_preorder [of t] r(4) by blast
  have "root t \<notin> set (below t)" "distinct (below t)" using r(2) by (auto simp: preorder_unfold)
  moreover from this have "distinct (map root (kids t))" by (simp add: below_def distinct_roots)
  moreover have "parent_node w (root c) = Some (root t)"
    by (rule rep_parent_node [OF r(1) _ assms(2)]) (use r(3) in \<open>auto simp: keyed_def\<close>)
  ultimately show "hung w c (root t)"
    using sub assms(2) by (auto simp: hung_def rep_children [OF r(1)])
qed

lemma hung_gone:
  assumes "gone w P {p} v" and "hung w t p" and "root t \<notin> P" and "p \<notin> P"
    and "children v p = filter (\<lambda>m. m \<notin> R) (children w p)" and "root t \<notin> R"
  shows "hung v t p"
  using gone_parent_node [OF assms(1,3) _ assms(4)] assms(2,5,6) by (simp add: hung_def)

text \<open>The loop of \<open>unloadBranch\<close>: every child subtree is removed from the table and from the
  children of \<open>n\<close>.\<close>

lemma remove_each:
  assumes IH: "\<And>t w. t \<in> set ts \<Longrightarrow> removable w t \<Longrightarrow> tidy w \<Longrightarrow> hung w t n \<Longrightarrow>
      \<exists>v. rm w (root t) = Returns v \<and> gone w (set (preorder t)) {n} v \<and>
        children v n = filter (\<lambda>m. m \<noteq> root t) (children w n)"
    and "\<forall>t\<in>set ts. removable w t \<and> hung w t n" and "tidy w" and "distinct (forder ts)"
    and "n \<notin> set (forder ts)"
  shows "\<exists>v. each rm w (map root ts) = Returns v \<and> gone w (set (forder ts)) {n} v"
  using assms
proof (induction ts arbitrary: w)
  case Nil
  then show ?case by (auto intro: gone_refl)
next
  case (Cons t ts)
  obtain u where u: "rm w (root t) = Returns u" "gone w (set (preorder t)) {n} u"
    "children u n = filter (\<lambda>m. m \<noteq> root t) (children w n)"
    using Cons.prems(1) [of t w] Cons.prems(2,3) by auto
  have dis: "set (preorder t) \<inter> set (forder ts) = {}" and nt: "n \<notin> set (preorder t)"
    using Cons.prems(4,5) by auto
  have "removable u c \<and> hung u c n" if c: "c \<in> set ts" for c
  proof
    have sub: "set (preorder c) \<subseteq> set (forder ts)" using c by (auto simp: set_forder)
    show "removable u c"
      by (rule removable_gone [OF u(2)]) (use sub dis Cons.prems(2,5) c in auto)
    have "root c \<notin> set (preorder t)" using sub dis root_in_preorder [of c] by blast
    moreover from this have "root c \<noteq> root t" using root_in_preorder [of t] by metis
    ultimately show "hung u c n"
      using hung_gone [OF u(2), of c "{root t}"] u(3) Cons.prems(2) c nt by simp
  qed
  then obtain v where v: "each rm u (map root ts) = Returns v" "gone u (set (forder ts)) {n} v"
    using Cons.IH [of u] Cons.prems tidy_gone [OF u(2) Cons.prems(3)] by auto
  show ?case using u(1) v(1) gone_trans [OF u(2) v(2) dis] by auto
qed

lemma gone_unload:
  fixes s :: settings
  assumes "gone w B {n} u" and "n \<notin> B"
  defines "v \<equiv> detach_row (update_branch_leaf_class s (upd_node u n (\<lambda>x. x\<lparr>n_children := []\<rparr>)) n) n"
  shows "tnodes v = tnodes u" and "tmap v = tmap u"
    and "d_order v = filter (\<lambda>r. r \<notin> row_of w ` insert n B) (d_order w)"
    and "\<And>m. m \<noteq> n \<Longrightarrow> heap v m = heap u m"
    and "\<And>r. r \<noteq> row_of w n \<Longrightarrow> d_row v r = d_row u r"
    and "nextn v = nextn u" and "troots v = troots u" and "d_visible v = d_visible u"
    and "tdata v = tdata u"
    and "row_of v n = row_of w n" and "n_id (heap v n) = n_id (heap w n)"
    and "n_parentId (heap v n) = n_parentId (heap w n)"
proof -
  note g = goneD [OF assms(1)]
  have r: "row_of u n = row_of w n" by (rule g(6))
  have i: "n_id (heap u n) = n_id (heap w n)" "n_parentId (heap u n) = n_parentId (heap w n)"
    using g(12) [OF assms(2)] by auto
  show "tnodes v = tnodes u" "tmap v = tmap u" "nextn v = nextn u" "troots v = troots u"
    "d_visible v = d_visible u" "tdata v = tdata u"
    "m \<noteq> n \<Longrightarrow> heap v m = heap u m" "row_of v n = row_of w n"
    "n_id (heap v n) = n_id (heap w n)" "n_parentId (heap v n) = n_parentId (heap w n)" for m
    by (simp_all add: v_def detach_row_def update_branch_leaf_class_def Let_def r i)
  show "q \<noteq> row_of w n \<Longrightarrow> d_row v q = d_row u q" for q
    by (simp add: v_def detach_row_def update_branch_leaf_class_def Let_def r)
  have "d_order v = filter (\<lambda>q. q \<noteq> row_of w n) (d_order u)"
    by (simp add: v_def detach_row_def update_branch_leaf_class_def Let_def r remove_row_def)
  then show "d_order v = filter (\<lambda>r. r \<notin> row_of w ` insert n B) (d_order w)"
    by (auto simp: g(3) intro: filter_cong)
qed

lemma tmap_drop:
  assumes "tidy w" and "tmap w (prop_key i) = Some n" and "n_id (heap w n) = i"
  shows "((\<lambda>k. case tmap w k of None \<Rightarrow> None | Some m \<Rightarrow> if m \<in> B then None else Some m)
      (prop_key i := None)) k =
    (case tmap w k of None \<Rightarrow> None | Some m \<Rightarrow> if m \<in> insert n B then None else Some m)"
  using assms by (auto simp: tidy_def split: option.split)

text \<open>\<open>removeNode\<close> on a subtree that hangs under \<open>p\<close>, or under nothing.\<close>

lemma remove_node_gone:
  "removable w t \<Longrightarrow> tidy w \<Longrightarrow> height t \<le> f \<Longrightarrow> hung w t p \<or> loose w t \<Longrightarrow>
    \<exists>v. remove_node s f w (root t) = Returns v \<and>
      gone w (set (preorder t)) (if loose w t then {} else {p}) v \<and>
      (\<not> loose w t \<longrightarrow> children v p = filter (\<lambda>m. m \<noteq> root t) (children w p))"
proof (induction f arbitrary: t w p)
  case 0
  then show ?case using height_pos [of t] by simp
next
  case (Suc f)
  let ?n = "root t" and ?B = "set (below t)"
  have r: "rep (heap w) t" "distinct (preorder t)" "keyed w (set (preorder t))"
    "set (preorder t) \<subseteq> set (tnodes w)"
    using Suc.prems(1) by (auto simp: removable_def)
  have nB: "?n \<notin> ?B" and pre: "set (preorder t) = insert ?n ?B" using r(2) by (auto simp: preorder_unfold)
  have "\<exists>u. each (remove_node s f) w (map root (kids t)) = Returns u \<and>
      gone w (set (forder (kids t))) {?n} u"
  proof (rule remove_each)
    fix c and x :: world
    assume c: "c \<in> set (kids t)" and x: "removable x c" "tidy x" "hung x c ?n"
    have "height c \<le> f" using height_kid [OF c] Suc.prems(3) by simp
    moreover have "\<not> loose x c" using x(3) by (auto simp: loose_def hung_def parent_node_def split: option.splits)
    ultimately show "\<exists>v. remove_node s f x (root c) = Returns v \<and> gone x (set (preorder c)) {?n} v \<and>
        children v ?n = filter (\<lambda>m. m \<noteq> root c) (children x ?n)"
      using Suc.IH [OF x(1,2), of ?n] x(3) by simp
  next
    show "\<forall>c\<in>set (kids t). removable w c \<and> hung w c ?n"
      using removable_kid [OF Suc.prems(1)] by blast
  qed (use Suc.prems(2) r(2) nB in \<open>auto simp: below_def preorder_unfold\<close>)
  then obtain u where u: "each (remove_node s f) w (map root (kids t)) = Returns u"
    "gone w ?B {?n} u"
    by (auto simp: below_def)
  define x where "x = detach_row (update_branch_leaf_class s (upd_node u ?n (\<lambda>x. x\<lparr>n_children := []\<rparr>)) ?n) ?n"
  note g = goneD [OF u(2)] and gx = gone_unload [OF u(2) nB, where s = s, folded x_def]
  have rem: "remove_node s (Suc f) w ?n = drop_node x ?n"
    by (simp add: unload_via_def rep_children [OF r(1)] u(1) x_def)
  have key: "tmap w (prop_key (n_id (heap w ?n))) = Some ?n" using r(3) by (simp add: keyed_def pre)
  have nt: "?n \<in> set (tnodes w)" "distinct (tnodes w)" using r(4) Suc.prems(2) by (auto simp: pre tidy_def)
  have tn: "splice1 (in_array ?n (tnodes x)) (tnodes x) = filter (\<lambda>m. m \<notin> set (preorder t)) (tnodes w)"
    using nt nB by (subst splice1_in_array_distinct) (auto simp: gx(1) g(1) pre intro: filter_cong)
  have tm: "((tmap x)(prop_key (n_id (heap w ?n)) := None)) k =
      (case tmap w k of None \<Rightarrow> None | Some m \<Rightarrow> if m \<in> set (preorder t) then None else Some m)" for k
    using tmap_drop [OF Suc.prems(2) key refl, of ?B k] unfolding pre gx(2)
    by (simp add: g(2) fun_eq_iff cong: if_cong)
  have img: "row_of w ` set (preorder t) = row_of w ` insert ?n ?B" by (simp add: pre)
  show ?case
  proof (cases "loose w t")
    case True
    define v where "v = x\<lparr>tmap := (tmap x)(prop_key (n_id (heap x ?n)) := None),
      tnodes := splice1 (in_array ?n (tnodes x)) (tnodes x)\<rparr>"
    have "drop_node x ?n = Returns v"
      using True by (simp add: drop_node_def v_def gx(12) loose_def)
    moreover have "gone w (set (preorder t)) {} v"
      unfolding gone_def img
    proof (intro conjI allI impI)
      show "heap v m = heap w m" and "heap v m = (heap w m)\<lparr>n_children := children v m\<rparr>"
        if "m \<notin> set (preorder t)" for m
        using that gx(4) g(4,5) [of m] by (auto simp: v_def pre)
      show "row_of v m = row_of w m" for m using gx(4,10) g(6) by (cases "m = ?n") (simp_all add: v_def)
      show "d_row v q = d_row w q" if "q \<notin> row_of w ` insert ?n ?B" for q
        using that gx(5) g(7) by (simp add: v_def)
      show "tmap v k = (case tmap w k of None \<Rightarrow> None
          | Some m \<Rightarrow> if m \<in> set (preorder t) then None else Some m)" for k
        using tm by (simp add: v_def gx(11))
    qed (simp_all add: v_def tn gx(3,6-9) g(8-11))
    ultimately show ?thesis using True rem by auto
  next
    case False
    then have h: "hung w t p" using Suc.prems(4) by simp
    have pB: "p \<notin> set (preorder t)" and pn: "parent_node w ?n = Some p" using h by (auto simp: hung_def)
    then have pne: "p \<noteq> ?n" "p \<notin> ?B" by (auto simp: pre)
    have px: "parent_node x ?n = Some p"
      using gone_parent_node [OF u(2) nB pn pne(2)] gx(2,12) g(12) [OF nB]
      by (simp add: parent_node_def cong: option.case_cong)
    define y where "y = remove_child x p ?n"
    define v where "v = y\<lparr>tmap := (tmap y)(prop_key (n_id (heap y ?n)) := None),
      tnodes := splice1 (in_array ?n (tnodes y)) (tnodes y)\<rparr>"
    have pid: "n_parentId (heap x ?n) \<noteq> None"
      using px by (auto simp: parent_node_def split: option.splits)
    have d: "drop_node x ?n = Returns v"
      using pid px by (simp add: drop_node_def v_def y_def)
    have hp: "heap x p = heap w p" using gx(4) [OF pne(1)] g(4) [OF pne(2)] pne(1) by simp
    have ch: "children y p = filter (\<lambda>m. m \<noteq> ?n) (children w p)"
      using h splice1_in_array_distinct [of ?n "children w p"]
      by (simp add: y_def remove_child_def hp hung_def)
    have hy: "heap y m = heap x m" if "m \<noteq> p" for m using that by (simp add: y_def remove_child_def)
    have hyp: "heap y p = (heap w p)\<lparr>n_children := children y p\<rparr>"
      by (simp add: y_def remove_child_def hp)
    have ryp: "row_of y p = row_of w p" by (simp add: y_def remove_child_def hp)
    have "gone w (set (preorder t)) {p} v"
      unfolding gone_def img
    proof (intro conjI allI impI)
      show "heap v m = heap w m" if "m \<notin> set (preorder t)" "m \<notin> {p}" for m
        using that gx(4) g(4) hy by (simp add: v_def pre)
      show "heap v m = (heap w m)\<lparr>n_children := children v m\<rparr>" if m: "m \<notin> set (preorder t)" for m
      proof (cases "m = p")
        case True
        then show ?thesis using hyp by (simp add: v_def)
      next
        case False
        then have "heap v m = heap w m" using m gx(4) g(4) hy by (simp add: v_def pre)
        then show ?thesis by simp
      qed
      show "row_of v m = row_of w m" for m
        using gx(4,10) g(6) hy ryp pne by (cases "m = ?n"; cases "m = p") (simp_all add: v_def)
      show "d_row v q = d_row w q" if "q \<notin> row_of w ` insert ?n ?B" for q
        using that gx(5) g(7) by (simp add: v_def y_def remove_child_def)
      show "tmap v k = (case tmap w k of None \<Rightarrow> None
          | Some m \<Rightarrow> if m \<in> set (preorder t) then None else Some m)" for k
        using tm hy [of ?n] pne by (simp add: v_def y_def remove_child_def gx(11))
    qed (simp_all add: v_def y_def remove_child_def tn gx(3,6-9) g(8-11))
    moreover have "children v p = filter (\<lambda>m. m \<noteq> ?n) (children w p)" using ch by (simp add: v_def)
    ultimately show ?thesis using False rem d by auto
  qed
qed

section \<open>The forest that is left\<close>

lemma gone_forest:
  assumes fo: "forest_of s w fs" and g: "gone w P E v" and "distinct (forder gs)"
    and gs: "set (forder gs) = set (forder fs) - P" and P: "P \<subseteq> set (forder fs)"
    and "\<forall>u\<in>set gs. rep (heap v) u \<and> n_parentId (heap v (root u)) = None"
  shows "forest_of s v gs"
proof -
  note d = forest_ofD [OF fo] and g = goneD [OF g]
  have rows: "row_of w m \<notin> row_of w ` P" if "m \<in> set (forder gs)" for m
    using that inj_onD [OF d(10), of m] P by (auto simp: gs)
  have data: "row_data v (row_of v m) k = row_data w (row_of w m) k"
    if "m \<in> set (forder gs)" for m k
    using g(6) g(7) [OF rows [OF that]] by (simp add: row_data_def cong: option.case_cong)
  have "inj_on (row_of v) (set (forder gs))"
    using d(10) by (auto simp: gs g(6) inj_on_def)
  moreover have "row_of v ` set (forder gs) \<subseteq> set (d_order v)"
    using rows d(12) by (auto simp: g(3,6) gs)
  moreover have "keyed v (set (forder gs))"
    using d(7) g(12) by (auto simp: keyed_def gs g(2))
  moreover have "n \<in> set (forder gs) \<and> prop_key (n_id (heap v n)) = k" if "tmap v k = Some n" for k n
    using that d(8,9) g(12) [of n] by (auto simp: gs g(2) split: option.splits if_splits)
  moreover have "row_data v (row_of v n) (nodeIdAttr s) = Some (n_id (heap v n))"
    if "n \<in> set (forder gs)" for n
    using data [OF that] d(13) g(12) [of n] that by (simp add: gs)
  ultimately show ?thesis
    using assms(3,6) d(4,5,6,11) by (auto simp: forest_of_def g(1,3,8) gs)
qed

lemma gone_vis_inv:
  assumes fo: "forest_of s w fs" and g: "gone w P E v" and fv: "forest_of s v gs"
    and gs: "set (forder gs) = set (forder fs) - P" and P: "P \<subseteq> set (forder fs)"
    and "root ` set gs \<subseteq> root ` set fs"
    and ch: "\<And>m. m \<in> set (forder gs) \<Longrightarrow> set (children v m) \<subseteq> set (children w m)"
    and inv: "vis_inv w fs"
  shows "vis_inv v gs"
proof -
  have rows: "row_of w m \<notin> row_of w ` P" if "m \<in> set (forder gs)" for m
    using that inj_onD [OF forest_ofD(10) [OF fo], of m] P gs by auto
  have eq: "disp v m = disp w m" "expanded v m = expanded w m" if "m \<in> set (forder gs)" for m
    using goneD(6) [OF g] goneD(7) [OF g rows [OF that]]
    by (simp_all add: disp_def expanded_def has_class_def)
  have "disp v (root u)" if u: "u \<in> set gs" for u
  proof -
    have "root u \<in> root ` set fs" using assms(6) u by blast
    then have "disp w (root u)" using inv by (auto simp: vis_inv_def)
    then show ?thesis using eq(1) [OF root_in_forder [OF u]] by simp
  qed
  moreover have "vis_ok v (set (forder gs))"
    unfolding vis_ok_def
  proof (intro ballI)
    fix m c assume m: "m \<in> set (forder gs)" and c: "c \<in> set (children v m)"
    have "disp w c = (disp w m \<and> expanded w m)"
      using m c ch [OF m] gs inv by (auto simp: vis_inv_def vis_ok_def)
    then show "disp v c = (disp v m \<and> expanded v m)"
      using eq [OF m] eq(1) [OF forest_kid_in [OF fv m c]] by simp
  qed
  ultimately show ?thesis by (simp add: vis_inv_def)
qed

lemma rep_prune:
  assumes "rep h u"
    and "\<And>m. m \<in> set (preorder (prune n u)) \<Longrightarrow>
      n_children (g m) = filter (\<lambda>x. x \<noteq> n) (n_children (h m)) \<and>
      n_id (g m) = n_id (h m) \<and> n_parentId (g m) = n_parentId (h m)"
  shows "rep g (prune n u)"
  using assms
proof (induction u)
  case (Rose b ts)
  let ?ks = "filter (\<lambda>t. root t \<noteq> n) (map (prune n) ts)"
  have kid: "rep g (prune n k) \<and>
      (\<exists>p. n_parentId (g (root k)) = Some p \<and> prop_key p = prop_key (n_id (g b)))"
    if k: "k \<in> set ts" "root k \<noteq> n" for k
  proof
    have sub: "set (preorder (prune n k)) \<subseteq> set (preorder (prune n (Rose b ts)))" using k by auto
    show "rep g (prune n k)" using Rose.IH [OF k(1)] Rose.prems k sub by auto
    have "root (prune n k) \<in> set (preorder (prune n (Rose b ts)))" using sub root_in_preorder by blast
    then show "\<exists>p. n_parentId (g (root k)) = Some p \<and> prop_key p = prop_key (n_id (g b))"
      using Rose.prems k(1) by simp
  qed
  have "map root ?ks = filter (\<lambda>x. x \<noteq> n) (map root ts)"
    by (simp add: filter_map comp_def)
  then have "n_children (g b) = map root ?ks" using Rose.prems by simp
  then show ?case using kid by auto
qed

lemma rep_clear:
  assumes "rep h u"
    and "\<And>m. m \<in> set (preorder (clear n u)) \<Longrightarrow>
      n_children (g m) = (if m = n then [] else n_children (h m)) \<and>
      n_id (g m) = n_id (h m) \<and> n_parentId (g m) = n_parentId (h m)"
  shows "rep g (clear n u)"
  using assms
proof (induction u)
  case (Rose b ts)
  show ?case
  proof (cases "b = n")
    case True
    then show ?thesis using Rose.prems by simp
  next
    case False
    have "rep g (clear n k) \<and>
        (\<exists>p. n_parentId (g (root k)) = Some p \<and> prop_key p = prop_key (n_id (g b)))"
      if k: "k \<in> set ts" for k
    proof
      have sub: "set (preorder (clear n k)) \<subseteq> set (preorder (clear n (Rose b ts)))"
        using k False by auto
      have "rep h k" using Rose.prems(1) k by simp
      then show "rep g (clear n k)" using Rose.IH [OF k] Rose.prems(2) sub by blast
      have "root (clear n k) \<in> set (preorder (clear n (Rose b ts)))" using sub root_in_preorder by blast
      then show "\<exists>p. n_parentId (g (root k)) = Some p \<and> prop_key p = prop_key (n_id (g b))"
        using Rose.prems k False by simp
    qed
    then show ?thesis using Rose.prems False by (auto simp: comp_def)
  qed
qed

section \<open>removeNode and unloadBranch on a forest\<close>

lemma forest_tidy: "forest_of s w fs \<Longrightarrow> tidy w"
  by (simp add: tidy_def forest_ofD(4,9))

lemma forest_removable:
  assumes "forest_of s w fs" and "t \<in> set (fsubtrees fs)"
  shows "removable w t"
  using forest_of_subtree [OF assms] keyed_subset [OF forest_ofD(7) [OF assms(1)]]
    forest_ofD(5) [OF assms(1)]
  by (simp add: removable_def)

lemma forest_hung:
  assumes fo: "forest_of s w fs" and t: "t \<in> set (fsubtrees fs)"
    and p: "parent_node w (root t) = Some p"
  shows "hung w t p" and "p \<in> set (forder fs)"
proof -
  have rF: "root t \<in> set (forder fs)"
    using forest_of_subtree(3) [OF fo t] root_in_preorder [of t] by blast
  then have pF: "p \<in> set (forder fs)" "root t \<in> set (children w p)"
    using forest_parent_child [OF fo rF] p by auto
  then show "p \<in> set (forder fs)" by simp
  obtain as where as: "chain w p as" by (rule forest_of_chain [OF fo pF(1)])
  have "p \<notin> set (preorder t)"
  proof
    assume "p \<in> set (preorder t)"
    then have "p = root t \<or> root t \<in> set as" by (rule subtree_chain [OF fo t _ as])
    moreover have "chain w (root t) (p # as)" using p as by simp
    ultimately show False using chain_distinct by fastforce
  qed
  then show "hung w t p"
    using pF p forest_children_distinct [OF fo pF(1)] by (simp add: hung_def)
qed

lemma forest_hung_or_loose:
  assumes "forest_of s w fs" and "t \<in> set (fsubtrees fs)"
  shows "(\<exists>p. hung w t p \<and> p \<in> set (forder fs)) \<or> loose w t \<and> t \<in> set fs"
proof (cases "parent_node w (root t)")
  case None
  have "root t \<in> set (forder fs)"
    using forest_of_subtree(3) [OF assms] root_in_preorder [of t] by blast
  then obtain u where u: "u \<in> set fs" "root t = root u"
    using forest_parent_child [OF assms(1), of "root t"] None by auto
  then have "t = u"
    using fsubtree_root_unique [OF forest_ofD(3) [OF assms(1)] assms(2) forest_root_subtree] by blast
  then show ?thesis using u forest_ofD(2) [OF assms(1)] by (auto simp: loose_def)
next
  case (Some p)
  then show ?thesis using forest_hung [OF assms] by blast
qed

text \<open>The children arrays after \<open>removeNode\<close>, for every node that is left.\<close>

lemma removed_children:
  assumes fo: "forest_of s w fs" and t: "t \<in> set (fsubtrees fs)"
    and g: "gone w (set (preorder t)) (if loose w t then {} else {p}) v"
    and h: "hung w t p \<or> loose w t \<and> t \<in> set fs"
    and c: "\<not> loose w t \<longrightarrow> children v p = filter (\<lambda>m. m \<noteq> root t) (children w p)"
    and m: "m \<in> set (forder fs)" "m \<notin> set (preorder t)"
  shows "children v m = filter (\<lambda>x. x \<noteq> root t) (children w m)"
proof (cases "\<not> loose w t \<and> m = p")
  case False
  then have eq: "children v m = children w m" using goneD(4) [OF g m(2)] by (auto split: if_splits)
  have "root t \<notin> set (children w m)"
  proof
    assume "root t \<in> set (children w m)"
    then have "parent_node w (root t) = Some m" by (rule forest_child_parent [OF fo m(1)])
    then show False using h False by (auto simp: hung_def loose_def parent_node_def)
  qed
  then have "filter (\<lambda>x. x \<noteq> root t) (children w m) = children w m" by (intro filter_True) auto
  then show ?thesis using eq by simp
qed (use c in simp)

lemma remove_in_forest:
  assumes fo: "forest_of s w fs" and t: "t \<in> set (fsubtrees fs)"
  obtains v E where "remove_node s (fuel_of w) w (root t) = Returns v"
    and "forest_of s v (fprune (root t) fs)" and "gone w (set (preorder t)) E v"
    and "vis_inv w fs \<longrightarrow> vis_inv v (fprune (root t) fs)"
    and "\<And>m. m \<in> set (forder fs) \<Longrightarrow> m \<notin> set (preorder t) \<Longrightarrow>
      children v m = filter (\<lambda>x. x \<noteq> root t) (children w m)"
proof -
  note sub = forest_of_subtree [OF fo t]
  obtain p where h: "hung w t p \<or> loose w t \<and> t \<in> set fs"
    using forest_hung_or_loose [OF fo t] by blast
  then obtain v where v: "remove_node s (fuel_of w) w (root t) = Returns v"
    and g: "gone w (set (preorder t)) (if loose w t then {} else {p}) v"
    and c: "\<not> loose w t \<longrightarrow> children v p = filter (\<lambda>m. m \<noteq> root t) (children w p)"
    using remove_node_gone [OF forest_removable [OF fo t] forest_tidy [OF fo]
        forest_height_fuel(1) [OF fo t], of p s] by blast
  note ch = removed_children [OF fo t g h c]
  let ?gs = "fprune (root t) fs"
  have F: "forder ?gs = filter (\<lambda>x. x \<notin> set (preorder t)) (forder fs)"
    by (rule forder_fprune [OF forest_ofD(3) [OF fo] t])
  have gs: "set (forder ?gs) = set (forder fs) - set (preorder t)" by (auto simp: F)
  have reps: "\<forall>u\<in>set ?gs. rep (heap v) u \<and> n_parentId (heap v (root u)) = None"
  proof
    fix u assume u: "u \<in> set ?gs"
    then obtain k where k: "k \<in> set fs" "u = prune (root t) k" "root k \<noteq> root t"
      by (auto simp: fprune_def)
    have in_gs: "m \<in> set (forder ?gs)" if "m \<in> set (preorder u)" for m
      using u that by (auto simp: set_forder)
    have "rep (heap v) u"
      unfolding k(2)
    proof (rule rep_prune [OF forest_ofD(1) [OF fo k(1)]])
      fix m assume "m \<in> set (preorder (prune (root t) k))"
      then have m: "m \<in> set (forder fs)" "m \<notin> set (preorder t)" using in_gs k(2) gs by auto
      then show "children v m = filter (\<lambda>x. x \<noteq> root t) (children w m) \<and>
          n_id (heap v m) = n_id (heap w m) \<and> n_parentId (heap v m) = n_parentId (heap w m)"
        using ch goneD(12) [OF g m(2)] by simp
    qed
    moreover have "root u \<notin> set (preorder t)"
      using in_gs [of "root u"] gs by simp
    ultimately show "rep (heap v) u \<and> n_parentId (heap v (root u)) = None"
      using goneD(12) [OF g] forest_ofD(2) [OF fo k(1)] k(2) by simp
  qed
  have fv: "forest_of s v ?gs"
    by (rule gone_forest [OF fo g _ gs sub(3) reps]) (simp add: F forest_ofD(3) [OF fo])
  have "vis_inv w fs \<longrightarrow> vis_inv v ?gs"
  proof (rule impI, rule gone_vis_inv [OF fo g fv gs sub(3)])
    show "set (children v m) \<subseteq> set (children w m)" if "m \<in> set (forder ?gs)" for m
      using ch [of m] that gs by auto
  qed (auto simp: fprune_def)
  then show thesis using that [OF v fv g _ ch] by blast
qed

text \<open>\<open>unloadBranch\<close> empties the node.\<close>

lemma unload_in_forest:
  assumes fo: "forest_of s w fs" and t: "t \<in> set (fsubtrees fs)"
  obtains v where "unload_branch s (fuel_of w) w (root t) = Returns v"
    and "forest_of s v (fclear (root t) fs)"
    and "vis_inv w fs \<longrightarrow> vis_inv v (fclear (root t) fs)"
    and "d_order v = filter (\<lambda>r. r \<notin> row_of w ` set (below t)) (d_order w)"
    and "labelled s v (root t)" and "tdata v = tdata w"
proof -
  note sub = forest_of_subtree [OF fo t]
  let ?n = "root t" and ?B = "set (below t)" and ?gs = "fclear (root t) fs"
  have rt: "removable w t" by (rule forest_removable [OF fo t])
  have nB: "?n \<notin> ?B" using sub(2) by (simp add: preorder_unfold)
  have BF: "?B \<subseteq> set (forder fs)" using sub(3) below_preorder [of t] by blast
  have "\<exists>u. each (remove_node s (fuel_of w)) w (map root (kids t)) = Returns u \<and>
      gone w (set (forder (kids t))) {?n} u"
  proof (rule remove_each)
    fix c and x :: world
    assume c: "c \<in> set (kids t)" and x: "removable x c" "tidy x" "hung x c ?n"
    have "height c \<le> fuel_of w" using height_kid [OF c] forest_height_fuel(1) [OF fo t] by simp
    moreover have "\<not> loose x c" using x(3) by (auto simp: loose_def hung_def parent_node_def split: option.splits)
    ultimately show "\<exists>v. remove_node s (fuel_of w) x (root c) = Returns v \<and> gone x (set (preorder c)) {?n} v \<and>
        children v ?n = filter (\<lambda>m. m \<noteq> root c) (children x ?n)"
      using remove_node_gone [OF x(1,2), of "fuel_of w" ?n s] x(3) by simp
  next
    show "\<forall>c\<in>set (kids t). removable w c \<and> hung w c ?n" using removable_kid [OF rt] by blast
  qed (use forest_tidy [OF fo] sub(2) nB in \<open>auto simp: below_def preorder_unfold\<close>)
  then obtain u where u: "each (remove_node s (fuel_of w)) w (map root (kids t)) = Returns u"
    "gone w ?B {?n} u"
    by (auto simp: below_def)
  define x where "x = upd_node u ?n (\<lambda>x. x\<lparr>n_children := []\<rparr>)"
  define v where "v = update_branch_leaf_class s x ?n"
  have "heap u ?n = (heap w ?n)\<lparr>n_children := children u ?n\<rparr>" by (rule goneD(5) [OF u(2) nB])
  then have "(heap u ?n)\<lparr>n_children := []\<rparr> = (heap w ?n)\<lparr>n_children := []\<rparr>"
    by (metis node.surjective node.update_convs(5))
  then have gx: "gone w ?B {?n} x"
    using nB unfolding gone_def x_def
    by (simp add: goneD(1-3,6-11) [OF u(2)] goneD(4) [OF u(2)])
  have chx: "children x m = (if m = ?n then [] else children w m)"
    if "m \<notin> ?B" for m using goneD(4) [OF u(2) that] by (simp add: x_def)
  have F: "forder ?gs = filter (\<lambda>x. x \<notin> ?B) (forder fs)"
    by (rule forder_fclear [OF forest_ofD(3) [OF fo] t])
  have gs: "set (forder ?gs) = set (forder fs) - ?B" by (auto simp: F)
  have reps: "\<forall>k\<in>set ?gs. rep (heap x) k \<and> n_parentId (heap x (root k)) = None"
  proof
    fix k assume k: "k \<in> set ?gs"
    then obtain l where l: "l \<in> set fs" "k = clear ?n l" by (auto simp: fclear_def)
    have in_gs: "m \<notin> ?B" if "m \<in> set (preorder k)" for m
      using k that gs by (auto simp: set_forder)
    have "rep (heap x) k"
      unfolding l(2) by (rule rep_clear [OF forest_ofD(1) [OF fo l(1)]])
        (use chx in_gs l(2) goneD(12) [OF gx] in auto)
    then show "rep (heap x) k \<and> n_parentId (heap x (root k)) = None"
      using goneD(12) [OF gx in_gs [OF root_in_preorder]] forest_ofD(2) [OF fo l(1)] l(2) by simp
  qed
  have fx: "forest_of s x ?gs"
    by (rule gone_forest [OF fo gx _ gs BF reps]) (simp add: F forest_ofD(3) [OF fo])
  have xv: "relabels x v" unfolding v_def by (rule relabels_update)
  have "vis_inv w fs \<longrightarrow> vis_inv x ?gs"
  proof (rule impI, rule gone_vis_inv [OF fo gx fx gs BF])
    show "set (children x m) \<subseteq> set (children w m)" if "m \<in> set (forder ?gs)" for m
      using chx [of m] that gs by auto
  qed (auto simp: fclear_def)
  moreover have sh: "same_shape x v" using xv by (simp add: relabels_def)
  moreover have "unload_branch s (fuel_of w) w ?n = Returns v"
    by (simp add: unload_branch_def unload_via_def rep_children [OF sub(1)] u(1) v_def x_def)
  ultimately show thesis
    using that [OF _ forest_of_shape [OF sh fx]] relabels_simps(6) [OF xv] goneD(3) [OF gx]
      same_shape_simps(10,12) [OF sh] update_labels(1) v_def goneD(11) [OF gx] by metis
qed

end
