(* ===== verification/Tree_Move.thy ===== *)
theory Tree_Move
  imports Tree_Remove
begin

text \<open>
  \<open>_moveRows\<close>, \<open>move\<close>, \<open>sortBranch\<close> and \<open>findLastNode\<close>. The document order is a client of
  the interface \<open>row_order\<close>: \<open>_moveRows\<close> is its \<open>move_block\<close> on the rows of the subtree. On a
  represented forest \<open>move\<close> cuts the subtree out and hangs it under the destination, and the
  table follows; \<open>sortBranch\<close> permutes the children and lays their rows out anew.
\<close>

section \<open>States that differ in document order and markup\<close>

definition relaid :: "world \<Rightarrow> nref set \<Rightarrow> world \<Rightarrow> bool" where
  "relaid w N v \<longleftrightarrow>
     touches (w\<lparr>d_order := d_order v\<rparr>) N v \<and> looks (w\<lparr>d_order := d_order v\<rparr>) v"

lemma parent_node_reorder [simp]: "parent_node (w\<lparr>d_order := xs\<rparr>) n = parent_node w n"
  by (simp add: parent_node_def cong: option.case_cong)

lemma ancestors_reorder: "ancestors f (w\<lparr>d_order := xs\<rparr>) n = ancestors f w n"
  by (induction f arbitrary: n) (simp_all split: option.split)

lemma level_reorder [simp]: "level (w\<lparr>d_order := xs\<rparr>) n = level w n"
  by (simp add: level_def ancestors_reorder fuel_of_def)

lemma relaidD:
  assumes "relaid w N v"
  shows "row_of v n = row_of w n" and "n_id (heap v n) = n_id (heap w n)"
    and "n_parentId (heap v n) = n_parentId (heap w n)" and "children v n = children w n"
    and "d_row v = d_row w" and "nextn v = nextn w" and "tmap v = tmap w"
    and "tnodes v = tnodes w" and "troots v = troots w" and "d_visible v = d_visible w"
    and "tdata v = tdata w" and "level v n = level w n"
    and "n \<notin> N \<Longrightarrow> heap v n = heap w n" and "parent_node v n = parent_node w n"
    and "row_data v r k = row_data w r k"
    and "n_initialized (heap v n) = n_initialized (heap w n)"
proof -
  have sh: "same_shape (w\<lparr>d_order := d_order v\<rparr>) v" using assms by (simp add: relaid_def touches_def)
  note s = same_shape_simps [OF sh, simplified]
  show "row_of v n = row_of w n" "n_id (heap v n) = n_id (heap w n)"
    "n_parentId (heap v n) = n_parentId (heap w n)" "children v n = children w n"
    "nextn v = nextn w" "tmap v = tmap w" "tnodes v = tnodes w" "troots v = troots w"
    "d_visible v = d_visible w" "tdata v = tdata w"
    by (simp_all add: s)
  show "level v n = level w n" using level_shape [OF sh] by simp
  show "parent_node v n = parent_node w n" using same_shape_simps(15) [OF sh] by simp
  show d: "d_row v = d_row w" using assms by (simp add: relaid_def looks_def)
  show "row_data v r k = row_data w r k" by (simp add: row_data_def d cong: option.case_cong)
  show "n \<notin> N \<Longrightarrow> heap v n = heap w n" using assms by (simp add: relaid_def touches_def)
  show "n_initialized (heap v n) = n_initialized (heap w n)"
    using assms by (simp add: relaid_def looks_def)
qed

lemma relaid_order: "relaid w N (w\<lparr>d_order := xs\<rparr>)"
  by (simp add: relaid_def)

lemma relaidI: "touches w N v \<Longrightarrow> looks w v \<Longrightarrow> relaid w N v"
  using same_shape_simps(10) [of w v] by (simp add: relaid_def looks_def)

lemma same_shape_reorder: "same_shape w v \<Longrightarrow> same_shape (w\<lparr>d_order := xs\<rparr>) (v\<lparr>d_order := xs\<rparr>)"
  by (simp add: same_shape_def)

lemma relaid_trans:
  assumes "relaid w M v" and "relaid v N u" and "M \<subseteq> K" and "N \<subseteq> K"
  shows "relaid w K u"
proof -
  let ?w = "w\<lparr>d_order := d_order u\<rparr>" and ?v = "v\<lparr>d_order := d_order u\<rparr>"
  have a: "touches (w\<lparr>d_order := d_order v\<rparr>) M v" "looks (w\<lparr>d_order := d_order v\<rparr>) v"
    using assms(1) by (auto simp: relaid_def)
  then have "touches ?w M ?v" "looks ?w ?v"
    using same_shape_reorder [of "w\<lparr>d_order := d_order v\<rparr>" v "d_order u"]
    by (auto simp: touches_def looks_def)
  moreover have "touches ?v N u" "looks ?v u" using assms(2) by (auto simp: relaid_def)
  ultimately show ?thesis
    using assms(3,4) unfolding relaid_def by (meson looks_trans touches_mono touches_trans)
qed

text \<open>What \<open>render\<close> leaves at a node.\<close>

definition rendered :: "settings \<Rightarrow> world \<Rightarrow> nref \<Rightarrow> bool" where
  "rendered s w n \<longleftrightarrow>
     (\<exists>l. level w n = Some l \<and> n_padding (heap w n) = Some (show_int (int l * indent s) @ ''px'')) \<and>
     (expandable s \<longrightarrow> is_branch_node s w n \<longrightarrow> n_hasExpander (heap w n))"

lemma rendered_relaid:
  assumes "relaid w N v" and "n \<notin> N"
  shows "rendered s v n = rendered s w n"
  using relaidD [OF assms(1)] assms(2) by (simp add: rendered_def is_branch_node_def)

lemma render_relaid:
  assumes "level w n \<noteq> None"
  shows "\<exists>v. render s w n = Returns v \<and> relaid w {n} v \<and> d_order v = d_order w \<and> rendered s v n"
proof -
  obtain l where l: "level w n = Some l" using assms by blast
  obtain v where v: "render s w n = Returns v" "touches w {n} v" "looks w v"
    using render_returns [OF assms] by blast
  have sh: "same_shape w v" by (rule touches_shape [OF v(2)])
  have "is_branch_node s v n = is_branch_node s w n"
    by (simp add: is_branch_node_def same_shape_simps [OF sh])
  moreover have "n_padding (heap v n) = Some (show_int (int l * indent s) @ ''px'')"
    and "expandable s \<and> is_branch_node s w n \<longrightarrow> n_hasExpander (heap v n)"
    using v(1) by (auto simp: render_eq [OF l] attach_defs split: if_splits)
  ultimately have "rendered s v n" using l by (simp add: rendered_def level_shape [OF sh])
  then show ?thesis
    using v relaidI [OF v(2,3)] same_shape_simps(10) [OF sh] by blast
qed

section \<open>_moveRows\<close>

lemma preorder_map_rose: "preorder (map_rose f t) = map f (preorder t)"
  by (induction t) (auto simp: map_concat comp_def intro: arg_cong [of _ _ concat])

lemma forder_map_rose: "forder (map (map_rose f) ts) = map f (forder ts)"
  by (induction ts) (simp_all add: preorder_map_rose)

definition movable :: "world \<Rightarrow> nref rose \<Rightarrow> bool" where
  "movable w t \<longleftrightarrow> rep (heap w) t \<and> distinct (preorder t) \<and> (\<forall>n\<in>set (preorder t). level w n \<noteq> None)"

lemma movable_kid: "movable w t \<Longrightarrow> c \<in> set (kids t) \<Longrightarrow> movable w c"
  using rep_kid [of "heap w" t c] distinct_preorder_kid [of t c] kids_preorder [of c t]
    below_preorder [of t]
  unfolding movable_def by blast

lemma movable_relaid: "relaid w N v \<Longrightarrow> movable w t \<Longrightarrow> movable v t"
  by (auto simp: movable_def relaidD intro: rep_cong [of t "heap v" "heap w"])

text \<open>The loop over the children, last one first.\<close>

lemma move_each:
  assumes IH: "\<And>c (x::world). c \<in> set ts \<Longrightarrow> movable x c \<Longrightarrow>
      \<exists>v. mv x (root c) = Returns v \<and> relaid x (set (preorder c)) v \<and>
        d_order v = move_block ins_after (map_rose (row_of x) c) (row_of x p) (d_order x) \<and>
        (\<forall>n\<in>set (preorder c). rendered s v n)"
    and "\<forall>c\<in>set ts. movable w c" and "distinct (forder ts)"
  shows "\<exists>v. each mv w (rev (map root ts)) = Returns v \<and> relaid w (set (forder ts)) v \<and>
      d_order v = foldr (\<lambda>m l. m (row_of w p) l)
        (map (move_block ins_after) (map (map_rose (row_of w)) ts)) (d_order w) \<and>
      (\<forall>n\<in>set (forder ts). rendered s v n)"
  using assms
proof (induction ts)
  case Nil
  then show ?case using relaid_order [of w "{}" "d_order w"] by simp
next
  case (Cons c ts)
  obtain u where u: "each mv w (rev (map root ts)) = Returns u" "relaid w (set (forder ts)) u"
    "d_order u = foldr (\<lambda>m l. m (row_of w p) l)
        (map (move_block ins_after) (map (map_rose (row_of w)) ts)) (d_order w)"
    "\<forall>n\<in>set (forder ts). rendered s u n"
    using Cons by auto
  have ru: "row_of u = row_of w" using relaidD(1) [OF u(2)] by auto
  obtain v where v: "mv u (root c) = Returns v" "relaid u (set (preorder c)) v"
    "d_order v = move_block ins_after (map_rose (row_of u) c) (row_of u p) (d_order u)"
    "\<forall>n\<in>set (preorder c). rendered s v n"
    using Cons.prems(1) [of c u] movable_relaid [OF u(2)] Cons.prems(2) by auto
  have "rendered s v n" if "n \<in> set (forder ts)" for n
    using rendered_relaid [OF v(2), of n] Cons.prems(3) u(4) that by auto
  moreover have "relaid w (set (forder (c # ts))) v" by (rule relaid_trans [OF u(2) v(2)]) auto
  ultimately show ?case
    using u(1,3) v by (auto simp: each_append ru fun_cong [OF ru])
qed

lemma move_rows_eq:
  "movable w t \<Longrightarrow> height t \<le> f \<Longrightarrow>
    \<exists>v. move_rows s f w (root t) d = Returns v \<and> relaid w (set (preorder t)) v \<and>
      d_order v = move_block ins_after (map_rose (row_of w) t) (row_of w d) (d_order w) \<and>
      (\<forall>n\<in>set (preorder t). rendered s v n)"
proof (induction f arbitrary: t w d)
  case 0
  then show ?case using height_pos [of t] by simp
next
  case (Suc f)
  obtain n ts where t: "t = Rose n ts" by (cases t)
  define x where "x = insert_after (row_of w n) (row_of w d) w"
  have x: "x = w\<lparr>d_order := d_order x\<rparr>" "d_order x = ins_after (row_of w n) (row_of w d) (d_order w)"
    by (simp_all add: x_def insert_after_def)
  have lx: "level x n \<noteq> None" using Suc.prems(1) by (subst x(1)) (simp add: movable_def t)
  obtain y where y: "render s x n = Returns y" "relaid x {n} y" "d_order y = d_order x"
    "rendered s y n"
    using render_relaid [OF lx] by blast
  have "relaid w {} x" by (subst x(1)) (rule relaid_order)
  then have wy: "relaid w {n} y" by (rule relaid_trans [OF _ y(2)]) auto
  have ry: "row_of y = row_of w" using relaidD(1) [OF wy] by auto
  have my: "movable y t" by (rule movable_relaid [OF wy Suc.prems(1)])
  then have d: "distinct (forder ts)" "n \<notin> set (forder ts)" and ch: "children w n = map root ts"
    using Suc.prems(1) by (auto simp: movable_def t forder_def)
  obtain v where v: "each (\<lambda>w2 c. move_rows s f w2 c n) y (rev (map root ts)) = Returns v"
    "relaid y (set (forder ts)) v"
    "d_order v = foldr (\<lambda>m l. m (row_of y n) l)
        (map (move_block ins_after) (map (map_rose (row_of y)) ts)) (d_order y)"
    "\<forall>m\<in>set (forder ts). rendered s v m"
  proof -
    have "height c \<le> f" if "c \<in> set ts" for c
      using height_kid [of c t] Suc.prems(2) that by (simp add: t)
    then have "\<exists>v. each (\<lambda>w2 c. move_rows s f w2 c n) y (rev (map root ts)) = Returns v \<and>
        relaid y (set (forder ts)) v \<and>
        d_order v = foldr (\<lambda>m l. m (row_of y n) l)
          (map (move_block ins_after) (map (map_rose (row_of y)) ts)) (d_order y) \<and>
        (\<forall>m\<in>set (forder ts). rendered s v m)"
      using movable_kid [OF my] by (intro move_each Suc.IH d) (auto simp: t)
    then show thesis using that by blast
  qed
  have "relaid w (set (preorder t)) v"
    by (rule relaid_trans [OF wy v(2)]) (auto simp: t forder_def)
  moreover have "rendered s v n" using rendered_relaid [OF v(2) d(2)] y(4) by simp
  moreover have "set (preorder t) = insert n (set (forder ts))" by (simp add: t forder_def)
  ultimately show ?case
    using y(1) v(1,3,4) x(2) y(3) ch by (simp add: t ry x_def fun_cong [OF ry] flip: x_def)
qed

section \<open>setParent\<close>

lemma not_a_child:
  assumes "forest_of s w fs" and "m \<in> set (forder fs)" and "parent_node w n \<noteq> Some m"
  shows "filter (\<lambda>x. x \<noteq> n) (children w m) = children w m"
proof -
  have "n \<notin> set (children w m)" using forest_child_parent [OF assms(1,2)] assms(3) by blast
  then show ?thesis by (intro filter_True) auto
qed

lemma set_parent_eq:
  assumes fo: "forest_of s w fs" and t: "t \<in> set (fsubtrees fs)" and d: "d \<in> set (forder fs)"
  obtains v where "set_parent s w (root t) d = Returns v"
    and "\<And>m. row_of v m = row_of w m" and "\<And>m. n_id (heap v m) = n_id (heap w m)"
    and "\<And>m. n_initialized (heap v m) = n_initialized (heap w m)"
    and "\<And>m. n_parentId (heap v m) =
      (if m = root t then Some (n_id (heap w d)) else n_parentId (heap w m))"
    and "\<And>m. m \<in> set (forder fs) \<Longrightarrow>
      children v m = filter (\<lambda>x. x \<noteq> root t) (children w m) @ (if m = d then [root t] else [])"
    and "\<And>r k. row_data v r k =
      (if r = row_of w (root t) \<and> k = parentIdAttr s then Some (n_id (heap w d)) else row_data w r k)"
    and "\<And>r c. has_class v r c = has_class w r c"
    and "\<And>r. r_displayed (d_row v r) = r_displayed (d_row w r)"
    and "tmap v = tmap w" and "tnodes v = tnodes w" and "troots v = troots w" and "nextn v = nextn w"
    and "d_order v = d_order w" and "d_visible v = d_visible w" and "tdata v = tdata w"
proof -
  let ?n = "root t"
  define w1 where "w1 = (case parent_node w ?n of None \<Rightarrow> w | Some p \<Rightarrow> remove_child w p ?n)"
  define v where "v = add_child (set_row_data (upd_node w1 ?n (\<lambda>x. x\<lparr>n_parentId := Some (n_id (heap w1 d))\<rparr>))
    (row_of w1 ?n) (parentIdAttr s) (n_id (heap w1 d))) d ?n"
  have w1: "row_of w1 m = row_of w m" "n_id (heap w1 m) = n_id (heap w m)"
    "n_initialized (heap w1 m) = n_initialized (heap w m)"
    "n_parentId (heap w1 m) = n_parentId (heap w m)"
    "d_row w1 = d_row w" "tmap w1 = tmap w" "tnodes w1 = tnodes w" "troots w1 = troots w"
    "nextn w1 = nextn w" "d_order w1 = d_order w" "d_visible w1 = d_visible w" "tdata w1 = tdata w" for m
    by (simp_all add: w1_def remove_child_def split: option.split)
  have ch1: "children w1 m = filter (\<lambda>x. x \<noteq> ?n) (children w m)" if m: "m \<in> set (forder fs)" for m
  proof (cases "parent_node w ?n = Some m")
    case True
    then show ?thesis
      using forest_hung(1) [OF fo t] splice1_in_array_distinct [of ?n "children w m"]
      by (simp add: w1_def remove_child_def hung_def)
  next
    case False
    then show ?thesis
      using not_a_child [OF fo m False] by (auto simp: w1_def remove_child_def split: option.split)
  qed
  have "parent_node w ?n \<noteq> None" if "n_parentId (heap w ?n) \<noteq> None"
    using forest_hung_or_loose [OF fo t] that by (auto simp: hung_def loose_def)
  moreover have "parent_node w ?n = None" if "n_parentId (heap w ?n) = None"
    using that by (simp add: parent_node_def)
  ultimately have "set_parent s w ?n d = Returns v"
    unfolding set_parent_def v_def w1_def by (auto simp: Let_def)
  moreover have "row_data v r k =
      (if r = row_of w ?n \<and> k = parentIdAttr s then Some (n_id (heap w d)) else row_data w r k)" for r k
    by (auto simp: v_def add_child_def set_row_data_def row_data_def w1 cong: option.case_cong)
  moreover have "children v m = filter (\<lambda>x. x \<noteq> ?n) (children w m) @ (if m = d then [?n] else [])"
    if "m \<in> set (forder fs)" for m
    using ch1 [OF that] by (auto simp: v_def add_child_def)
  ultimately show thesis
    by - (rule that [of v]; (assumption | simp add: v_def add_child_def w1 has_class_def set_row_data_def))
qed

text \<open>The representation of a tree does not depend on the parent id of its root.\<close>

lemma rep_cong_root:
  assumes "\<And>m. m \<in> set (preorder t) \<Longrightarrow> n_children (g m) = n_children (h m) \<and> n_id (g m) = n_id (h m)"
    and "\<And>m. m \<in> set (below t) \<Longrightarrow> n_parentId (g m) = n_parentId (h m)"
    and "rep h t"
  shows "rep g t"
proof (cases t)
  case (Rose n ts)
  have "rep g c \<and> n_parentId (g (root c)) = n_parentId (h (root c))" if c: "c \<in> set ts" for c
  proof
    have sub: "set (preorder c) \<subseteq> set (below t)" using c Rose by (auto simp: below_def set_forder)
    show "rep g c"
      by (rule rep_cong [of c g h]) (use assms sub below_preorder [of t] c Rose in auto)
    show "n_parentId (g (root c)) = n_parentId (h (root c))"
      by (rule assms(2)) (use sub root_in_preorder [of c] in blast)
  qed
  then show ?thesis using assms(1) [of n] assms(3) Rose by simp
qed

lemma set_parent_forest:
  assumes fo: "forest_of s w fs" and t: "t \<in> set (fsubtrees fs)" and d: "d \<in> set (forder fs)"
    and dt: "d \<notin> set (preorder t)" and ap: "nodeIdAttr s \<noteq> parentIdAttr s"
    and ids: "\<And>m. row_of v m = row_of w m" "\<And>m. n_id (heap v m) = n_id (heap w m)"
    and par: "\<And>m. n_parentId (heap v m) =
      (if m = root t then Some (n_id (heap w d)) else n_parentId (heap w m))"
    and ch: "\<And>m. m \<in> set (forder fs) \<Longrightarrow>
      children v m = filter (\<lambda>x. x \<noteq> root t) (children w m) @ (if m = d then [root t] else [])"
    and rd: "\<And>r k. row_data v r k =
      (if r = row_of w (root t) \<and> k = parentIdAttr s then Some (n_id (heap w d)) else row_data w r k)"
    and eq: "tmap v = tmap w" "tnodes v = tnodes w" "nextn v = nextn w" "d_order v = d_order w"
  shows "forest_of s v (fgraft d t (fprune (root t) fs))"
    and "set (forder (fgraft d t (fprune (root t) fs))) = set (forder fs)"
proof -
  let ?n = "root t" and ?hs = "fprune (root t) fs"
  let ?gs = "fgraft d t ?hs"
  note D = forest_ofD [OF fo] and sub = forest_of_subtree [OF fo t]
  have F: "forder ?hs = filter (\<lambda>x. x \<notin> set (preorder t)) (forder fs)" by (rule forder_fprune [OF D(3) t])
  have hs: "distinct (forder ?hs)" "d \<in> set (forder ?hs)" "set (forder ?hs) \<inter> set (preorder t) = {}"
    using D(3) d dt by (auto simp: F)
  have G: "distinct (forder ?gs)" "set (forder ?gs) = set (forder ?hs) \<union> set (preorder t)"
    using distinct_fgraft [OF hs(1,2) sub(2) hs(3)] by auto
  then show same: "set (forder ?gs) = set (forder fs)" using sub(3) by (auto simp: F)
  have rt: "rep (heap v) t"
  proof (rule rep_cong_root [OF _ _ sub(1)])
    fix m assume m: "m \<in> set (preorder t)"
    then have "m \<in> set (forder fs)" "m \<noteq> d" using sub(3) dt by auto
    moreover have "filter (\<lambda>x. x \<noteq> ?n) (children w m) = children w m"
      using rep_closed [OF sub(1) m] sub(2) by (intro filter_True) (auto simp: preorder_unfold)
    ultimately show "children v m = children w m \<and> n_id (heap v m) = n_id (heap w m)"
      using ch ids by simp
  qed (use par sub(2) in \<open>auto simp: preorder_unfold\<close>)
  have "rep (heap v) u \<and> n_parentId (heap v (root u)) = None" if u: "u \<in> set ?gs" for u
  proof -
    obtain k where k: "k \<in> set fs" "root k \<noteq> ?n" "u = graft d t (prune ?n k)"
      using u by (auto simp: fgraft_def fprune_def)
    have in_hs: "m \<in> set (forder fs) \<and> m \<noteq> ?n" if "m \<in> set (preorder (prune ?n k))" for m
    proof -
      have "m \<in> set (forder ?hs)"
        using that k(1,2) unfolding set_forder by (auto simp: fprune_def)
      then show ?thesis using hs(3) by (auto simp: F)
    qed
    define h where "h = (\<lambda>m. (heap w m)\<lparr>n_children := filter (\<lambda>x. x \<noteq> ?n) (children w m)\<rparr>)"
    have "rep h (prune ?n k)" by (rule rep_prune [OF D(1) [OF k(1)]]) (simp add: h_def)
    then have "rep (heap v) u"
      unfolding k(3) using rt by (rule rep_graft [rotated]) (use ch ids par in_hs in \<open>auto simp: h_def\<close>)
    then show ?thesis using D(2) [OF k(1)] k(2,3) par by simp
  qed
  moreover have "keyed v (set (forder fs))" using D(7) by (simp add: keyed_def ids eq)
  moreover have "inj_on (row_of v) (set (forder fs))" using D(10) by (simp add: inj_on_def ids)
  ultimately show "forest_of s v ?gs"
    using D(4-6,8,9,11-13) G(1) ap unfolding forest_of_def same
    by (auto simp: eq ids rd)
qed

section \<open>move\<close>

text \<open>The third condition of \<open>move\<close> is exactly that the destination is outside the subtree.\<close>

lemma ancestor_subtree:
  assumes fo: "forest_of s w fs" and t: "t \<in> set (fsubtrees fs)"
  shows "chain w d as \<Longrightarrow> d \<in> set (forder fs) \<Longrightarrow> root t \<in> set as \<Longrightarrow> d \<in> set (preorder t)"
proof (induction as arbitrary: d)
  case (Cons p as)
  then have p: "p \<in> set (forder fs)" "d \<in> set (children w p)" "chain w p as"
    using forest_parent_child [OF fo, of d] by auto
  have "p \<in> set (preorder t)" using Cons.IH [OF p(3,1)] Cons.prems(3) by auto
  then show ?case
    using rep_closed [OF forest_of_subtree(1) [OF fo t]] p(2) below_preorder [of t] by blast
qed simp

lemma move_guard:
  assumes fo: "forest_of s w fs" and t: "t \<in> set (fsubtrees fs)" and d: "d \<in> set (forder fs)"
  obtains as where "ancestors (fuel_of w) w d = Some as"
    and "root t \<noteq> d \<and> in_array (root t) as = -1 \<longleftrightarrow> d \<notin> set (preorder t)"
proof -
  obtain as where as: "ancestors (fuel_of w) w d = Some as" "chain w d as"
    by (rule forest_of_ancestors [OF fo d])
  have "root t \<noteq> d \<and> in_array (root t) as = -1 \<longleftrightarrow> d \<notin> set (preorder t)"
    unfolding in_array_neg_iff
    using ancestor_subtree [OF fo t as(2) d] subtree_chain [OF fo t _ as(2)] by auto
  then show thesis using that as(1) by blast
qed

lemma forest_of_relaid:
  assumes "relaid w N v" and "forest_of s w fs"
    and "distinct (d_order v)" and "set (d_order v) = set (d_order w)"
  shows "forest_of s v fs"
proof -
  have "forest_of s (w\<lparr>d_order := d_order v\<rparr>) fs"
    using assms(2-4) by (simp add: forest_of_def keyed_def row_data_def cong: option.case_cong)
  moreover have "same_shape (w\<lparr>d_order := d_order v\<rparr>) v"
    using assms(1) by (simp add: relaid_def touches_def)
  ultimately show ?thesis by (rule forest_of_shape [rotated])
qed

lemma forest_movable:
  assumes "forest_of s w fs" and "rep (heap w) t" and "distinct (preorder t)"
    and "set (preorder t) \<subseteq> set (forder fs)"
  shows "movable w t"
  using forest_of_level [OF assms(1)] assms(2-4) unfolding movable_def by fastforce

text \<open>The document order after \<open>_moveRows\<close> of a subtree behind a row outside it.\<close>

definition block_behind :: "rref \<Rightarrow> rref list \<Rightarrow> rref list \<Rightarrow> rref list" where
  "block_behind r rs xs = put_behind r rs (filter (\<lambda>x. x \<notin> set rs) xs)"

lemma block_behind_facts:
  assumes "r \<in> set xs" and "r \<notin> set rs" and "distinct xs" and "distinct rs" and "set rs \<subseteq> set xs"
  shows "distinct (block_behind r rs xs)" and "set (block_behind r rs xs) = set xs"
proof -
  show "distinct (block_behind r rs xs)"
    unfolding block_behind_def by (rule distinct_put_behind) (use assms in auto)
  show "set (block_behind r rs xs) = set xs"
    using assms by (auto simp: block_behind_def set_put_behind)
qed

lemma rows_moved:
  assumes "inj_on (row_of w) (insert d (set (preorder t)))" and "d \<notin> set (preorder t)"
    and "distinct (preorder t)" and "row_of w d \<in> set (d_order w)" and "distinct (d_order w)"
  shows "move_block ins_after (map_rose (row_of w) t) (row_of w d) (d_order w) =
      block_behind (row_of w d) (map (row_of w) (preorder t)) (d_order w)"
    and "row_of w d \<notin> row_of w ` set (preorder t)" and "distinct (map (row_of w) (preorder t))"
proof -
  show r: "row_of w d \<notin> row_of w ` set (preorder t)" using assms(1,2) by (auto simp: inj_on_def)
  show "distinct (map (row_of w) (preorder t))" using assms(1,3) by (simp add: distinct_map)
  then show "move_block ins_after (map_rose (row_of w) t) (row_of w d) (d_order w) =
      block_behind (row_of w d) (map (row_of w) (preorder t)) (d_order w)"
    using r assms(4,5) list_rows.listing_move_block [of "row_of w d" "map_rose (row_of w) t" "d_order w"]
    by (simp add: preorder_map_rose block_behind_def)
qed

lemma move_rows_forest:
  assumes fo: "forest_of s w fs" and d: "d \<in> set (forder fs)" "d \<notin> set (preorder t)"
    and t: "rep (heap w) t" "distinct (preorder t)" "set (preorder t) \<subseteq> set (forder fs)"
  obtains v where "move_rows s (fuel_of w) w (root t) d = Returns v"
    and "relaid w (set (preorder t)) v" and "forest_of s v fs"
    and "d_order v = block_behind (row_of w d) (map (row_of w) (preorder t)) (d_order w)"
    and "\<forall>n\<in>set (preorder t). rendered s v n"
proof -
  have "height t \<le> card (set (preorder t))"
    using height_le_length t(2) by (metis distinct_card)
  also have "\<dots> \<le> card {..<nextn w}"
    by (rule card_mono) (use t(3) forest_ofD(6) [OF fo] in auto)
  finally have "height t \<le> fuel_of w" by (simp add: fuel_of_def)
  then obtain v where v: "move_rows s (fuel_of w) w (root t) d = Returns v"
    "relaid w (set (preorder t)) v"
    "d_order v = move_block ins_after (map_rose (row_of w) t) (row_of w d) (d_order w)"
    "\<forall>n\<in>set (preorder t). rendered s v n"
    using move_rows_eq [OF forest_movable [OF fo t]] by blast
  have inj: "inj_on (row_of w) (insert d (set (preorder t)))"
    by (rule inj_on_subset [OF forest_ofD(10) [OF fo]]) (use d t(3) in auto)
  note r = rows_moved [OF inj d(2) t(2) forest_ofD(12) [OF fo d(1)] forest_ofD(11) [OF fo]]
  have "distinct (d_order v)" "set (d_order v) = set (d_order w)"
    using block_behind_facts [OF forest_ofD(12) [OF fo d(1)] _ forest_ofD(11) [OF fo] r(3)]
      r(2) t(3) forest_ofD(12) [OF fo] v(3) r(1) by auto
  then show thesis using that [OF v(1,2) forest_of_relaid [OF v(2) fo]] v(3,4) r(1) by simp
qed

text \<open>The classes at the end of \<open>move\<close>.\<close>

definition opt_list :: "nref option \<Rightarrow> nref list" where
  "opt_list p = (case p of None \<Rightarrow> [] | Some m \<Rightarrow> [m])"

lemma update_opt_foldl: "update_opt s p w = foldl (update_branch_leaf_class s) w (opt_list p)"
  by (simp add: update_opt_def opt_list_def split: option.split)

lemma update_shape: "same_shape w (update_branch_leaf_class s w n)"
  by (rule touches_shape [OF touches_update])

lemma foldl_update_shape: "same_shape w (foldl (update_branch_leaf_class s) w ns)"
  by (induction ns arbitrary: w) (auto intro: same_shape_trans [OF update_shape])

lemma foldl_update_relabels: "relabels w (foldl (update_branch_leaf_class s) w ns)"
  by (induction ns arbitrary: w) (auto intro: relabels_trans [OF relabels_update])

lemma move_end_foldl:
  "update_branch_leaf_class s (update_opt s q (update_opt s p w)) n =
   foldl (update_branch_leaf_class s) w (opt_list p @ opt_list q @ [n])"
  by (simp add: update_opt_foldl)

lemma relocate_in_forest:
  assumes fo: "forest_of s w fs" and t: "t \<in> set (fsubtrees fs)" and d: "d \<in> set (forder fs)"
    and dt: "d \<notin> set (preorder t)" and ap: "nodeIdAttr s \<noteq> parentIdAttr s"
  defines "gs \<equiv> fgraft d t (fprune (root t) fs)"
  obtains v where "relocate s w (root t) d = Returns v" and "forest_of s v gs"
    and "set (forder gs) = set (forder fs)"
    and "d_order v = block_behind (row_of w d) (map (row_of w) (preorder t)) (d_order w)"
    and "\<forall>m\<in>set (preorder t). rendered s v m"
    and "\<And>m. row_of v m = row_of w m" and "\<And>m. m \<in> set (forder fs) \<Longrightarrow>
      children v m = filter (\<lambda>x. x \<noteq> root t) (children w m) @ (if m = d then [root t] else [])"
    and "n_parentId (heap v (root t)) = Some (n_id (heap w d))"
    and "\<And>r k. r \<noteq> row_of w (root t) \<Longrightarrow> row_data v r k = row_data w r k"
    and "\<And>r c. has_class v r c = has_class w r c"
    and "\<And>r. r_displayed (d_row v r) = r_displayed (d_row w r)" and "troots v = troots w"
    and "parent_node v (root t) = Some d" and "tdata v = tdata w"
proof -
  let ?n = "root t"
  note sub = forest_of_subtree [OF fo t]
  obtain w1 where w1: "set_parent s w ?n d = Returns w1"
    and ids: "\<And>m. row_of w1 m = row_of w m" "\<And>m. n_id (heap w1 m) = n_id (heap w m)"
      "\<And>m. n_initialized (heap w1 m) = n_initialized (heap w m)"
    and par: "\<And>m. n_parentId (heap w1 m) = (if m = ?n then Some (n_id (heap w d)) else n_parentId (heap w m))"
    and ch: "\<And>m. m \<in> set (forder fs) \<Longrightarrow>
      children w1 m = filter (\<lambda>x. x \<noteq> ?n) (children w m) @ (if m = d then [?n] else [])"
    and rd: "\<And>r k. row_data w1 r k =
      (if r = row_of w ?n \<and> k = parentIdAttr s then Some (n_id (heap w d)) else row_data w r k)"
    and cls: "\<And>r c. has_class w1 r c = has_class w r c" "\<And>r. r_displayed (d_row w1 r) = r_displayed (d_row w r)"
    and eq: "tmap w1 = tmap w" "tnodes w1 = tnodes w" "troots w1 = troots w" "nextn w1 = nextn w"
      "d_order w1 = d_order w" "d_visible w1 = d_visible w" "tdata w1 = tdata w"
    by (rule set_parent_eq [OF fo t d], rule that; assumption)
  have f1: "forest_of s w1 gs" and gs: "set (forder gs) = set (forder fs)"
    unfolding gs_def using set_parent_forest [OF fo t d dt ap ids(1,2) par ch rd eq(1,2,4,5)] by auto
  have chn: "filter (\<lambda>x. x \<noteq> ?n) (children w m) = children w m" if "m \<in> set (preorder t)" for m
    using rep_closed [OF sub(1) that] sub(2) by (intro filter_True) (auto simp: preorder_unfold)
  have rt: "rep (heap w1) t"
  proof (rule rep_cong_root [OF _ _ sub(1)])
    fix m assume m: "m \<in> set (preorder t)"
    then have "m \<in> set (forder fs)" "m \<noteq> d" using sub(3) dt by auto
    then show "children w1 m = children w m \<and> n_id (heap w1 m) = n_id (heap w m)"
      using ch chn [OF m] ids by simp
  qed (use par sub(2) in \<open>auto simp: preorder_unfold\<close>)
  obtain w2 where w2: "move_rows s (fuel_of w1) w1 ?n d = Returns w2"
    "relaid w1 (set (preorder t)) w2" "forest_of s w2 gs"
    "d_order w2 = block_behind (row_of w1 d) (map (row_of w1) (preorder t)) (d_order w1)"
    "\<forall>m\<in>set (preorder t). rendered s w2 m"
    by (rule move_rows_forest [OF f1 _ dt rt sub(2)]) (use d sub(3) gs in auto)
  have "d \<in> set (forder gs)" using d gs by simp
  then have "tmap w2 (prop_key (n_id (heap w2 d))) = Some d"
    using forest_ofD(7) [OF w2(3)] by (simp add: keyed_def)
  then have pn2: "parent_node w2 ?n = Some d"
    using par relaidD [OF w2(2)] ids by (simp add: parent_node_def)
  obtain v where v: "(if length (children w2 d) = 1 then render s w2 d else Returns w2) = Returns v"
    "relaid w2 {d} v" "d_order v = d_order w2"
  proof (cases "length (children w2 d) = 1")
    case True
    have "level w2 d \<noteq> None" using forest_of_level [OF w2(3)] d gs by fastforce
    then show thesis using that True render_relaid [of w2 d s] by auto
  next
    case False
    then show thesis using that relaid_order [of w2 "{d}" "d_order w2"] by auto
  qed
  have fv: "forest_of s v gs"
    by (rule forest_of_relaid [OF v(2) w2(3)]) (use forest_ofD(11) [OF w2(3)] v(3) in auto)
  note e2 = relaidD [OF w2(2)] and e3 = relaidD [OF v(2)]
  have "relocate s w ?n d = Returns v" using w1 w2(1) pn2 v(1) by (simp add: relocate_def)
  moreover have "rendered s v m" if m: "m \<in> set (preorder t)" for m
  proof -
    have "m \<notin> {d}" using m dt by auto
    then show ?thesis using rendered_relaid [OF v(2)] w2(5) m by blast
  qed
  moreover have "parent_node v ?n = Some d" using pn2 e3(14) by simp
  ultimately show thesis
    using that [of v] fv gs w2(4) v(3) ids par ch rd cls eq
    by (simp add: e2 e3 has_class_def)
qed

lemma tree_move_accepted:
  assumes fo: "forest_of s w fs" and t: "t \<in> set (fsubtrees fs)" and d: "d \<in> set (forder fs)"
    and "d \<notin> set (preorder t)" and "n_parentId (heap w (root t)) \<noteq> Some (n_id (heap w d))"
    and "relocate s w (root t) d = Returns u"
  shows "tree_move s w (root t) d = Returns (foldl (update_branch_leaf_class s) u
    (opt_list (parent_node w (root t)) @ opt_list (parent_node u (root t)) @ [root t]))"
proof -
  obtain as where as: "ancestors (fuel_of w) w d = Some as"
    "root t \<noteq> d \<and> in_array (root t) as = -1 \<longleftrightarrow> d \<notin> set (preorder t)"
    by (rule move_guard [OF fo t d])
  have "root t \<noteq> d \<and> in_array (root t) as = -1" using as(2) assms(4) by blast
  then show ?thesis using as(1) assms(5,6) by (simp add: tree_move_def move_end_foldl)
qed

lemma tree_move_rejected:
  assumes fo: "forest_of s w fs" and t: "t \<in> set (fsubtrees fs)" and d: "d \<in> set (forder fs)"
    and no: "d \<in> set (preorder t) \<or> n_parentId (heap w (root t)) = Some (n_id (heap w d))"
  obtains v where "tree_move s w (root t) d = Returns v" and "relabels w v"
proof -
  let ?v = "foldl (update_branch_leaf_class s) w
    (opt_list (parent_node w (root t)) @ opt_list (parent_node w (root t)) @ [root t])"
  obtain as where as: "ancestors (fuel_of w) w d = Some as"
    "root t \<noteq> d \<and> in_array (root t) as = -1 \<longleftrightarrow> d \<notin> set (preorder t)"
    by (rule move_guard [OF fo t d])
  have "tree_move s w (root t) d = Returns ?v"
  proof (cases "n_parentId (heap w (root t)) = Some (n_id (heap w d))")
    case True
    then show ?thesis by (simp add: tree_move_def move_end_foldl)
  next
    case False
    then have "\<not> (root t \<noteq> d \<and> in_array (root t) as = -1)" using no as(2) by blast
    then show ?thesis using as(1) by (auto simp: tree_move_def move_end_foldl Let_def)
  qed
  then show thesis using that foldl_update_relabels by blast
qed

lemma tree_move_in_forest:
  assumes fo: "forest_of s w fs" and t: "t \<in> set (fsubtrees fs)" and d: "d \<in> set (forder fs)"
    and dt: "d \<notin> set (preorder t)" and ap: "nodeIdAttr s \<noteq> parentIdAttr s"
    and new: "n_parentId (heap w (root t)) \<noteq> Some (n_id (heap w d))"
  defines "gs \<equiv> fgraft d t (fprune (root t) fs)"
  obtains v where "tree_move s w (root t) d = Returns v" and "forest_of s v gs"
    and "set (forder gs) = set (forder fs)"
    and "d_order v = block_behind (row_of w d) (map (row_of w) (preorder t)) (d_order w)"
    and "\<forall>m\<in>set (preorder t). rendered s v m"
    and "(\<forall>m\<in>set (forder fs). labelled s w m) \<longrightarrow> (\<forall>m\<in>set (forder fs). labelled s v m)"
    and "\<And>m. disp v m = disp w m" and "\<And>m. expanded v m = expanded w m"
    and "parent_node v (root t) = Some d" and "children v d = filter (\<lambda>x. x \<noteq> root t) (children w d) @ [root t]"
    and "troots v = troots w" and "tdata v = tdata w"
proof -
  let ?n = "root t"
  obtain u where u: "relocate s w ?n d = Returns u" and fu: "forest_of s u gs"
    and gs: "set (forder gs) = set (forder fs)"
    and ord: "d_order u = block_behind (row_of w d) (map (row_of w) (preorder t)) (d_order w)"
    and ren: "\<forall>m\<in>set (preorder t). rendered s u m"
    and rows: "\<And>m. row_of u m = row_of w m" and ch: "\<And>m. m \<in> set (forder fs) \<Longrightarrow>
      children u m = filter (\<lambda>x. x \<noteq> ?n) (children w m) @ (if m = d then [?n] else [])"
    and pid: "n_parentId (heap u ?n) = Some (n_id (heap w d))"
    and rd: "\<And>r k. r \<noteq> row_of w ?n \<Longrightarrow> row_data u r k = row_data w r k"
    and cls: "\<And>r c. has_class u r c = has_class w r c"
      "\<And>r. r_displayed (d_row u r) = r_displayed (d_row w r)" and ro: "troots u = troots w"
    and pn: "parent_node u ?n = Some d" and td: "tdata u = tdata w"
    by (rule relocate_in_forest [OF fo t d dt ap, folded gs_def], rule that; assumption)
  let ?ns = "opt_list (parent_node w ?n) @ opt_list (parent_node u ?n) @ [?n]"
  define v where "v = foldl (update_branch_leaf_class s) u ?ns"
  have uv: "relabels u v" unfolding v_def by (rule foldl_update_relabels)
  then have sh: "same_shape u v" and hp: "heap v = heap u" by (auto simp: relabels_def)
  have nF: "?n \<in> set (forder fs)" using forest_of_subtree(3) [OF fo t] root_in_preorder [of t] by blast
  have nsF: "set ?ns \<subseteq> set (forder fs)"
    using forest_parent_child [OF fo nF] nF d pn by (auto simp: opt_list_def)
  have lab: "labelled s v m" if l: "\<forall>m\<in>set (forder fs). labelled s w m" and m: "m \<in> set (forder fs)" for m
  proof -
    have "labelled s u k" if k: "k \<in> set (forder fs) - set ?ns" for k
    proof -
      have kn: "k \<noteq> ?n" "k \<noteq> d" "parent_node w ?n \<noteq> Some k" using k pn by (auto simp: opt_list_def)
      then have "row_of w k \<noteq> row_of w ?n" using inj_onD [OF forest_ofD(10) [OF fo], of k ?n] k nF by auto
      moreover have "children u k = children w k" using ch k kn not_a_child [OF fo _ kn(3)] by simp
      ultimately have "is_branch_node s u k = is_branch_node s w k" using rd by (simp add: is_branch_node_def rows)
      then show ?thesis using l k by (simp add: labelled_def rows cls)
    qed
    moreover have "inj_on (row_of u) (set ?ns \<union> (set (forder fs) - set ?ns))"
      using forest_ofD(10) [OF fo] nsF by (auto simp: rows inj_on_def)
    ultimately show ?thesis
      using foldl_update_aux [of u ?ns "set (forder fs) - set ?ns" s] m unfolding v_def by blast
  qed
  have "tree_move s w ?n d = Returns v" unfolding v_def by (rule tree_move_accepted [OF fo t d dt new u])
  moreover have "forest_of s v gs" by (rule forest_of_shape [OF sh fu])
  moreover have "rendered s v m" if "m \<in> set (preorder t)" for m
    using ren that relabels_simps(7) [OF uv] by (simp add: rendered_def level_shape [OF sh] hp)
  moreover have "disp v m = disp w m" for m using relabels_simps(1) [OF uv] by (simp add: disp_def cls rows)
  moreover have "expanded v m = expanded w m" for m
    using relabels_simps(2) [OF uv] by (simp add: expanded_def cls rows)
  moreover have "children v d = filter (\<lambda>x. x \<noteq> ?n) (children w d) @ [?n]" using ch [OF d] hp by simp
  ultimately show thesis
    using that [of v] gs ord lab pn ro td same_shape_simps(9,10,12,15) [OF sh] by simp
qed

end
