(* ===== verification/Tree_Sort.thy ===== *)
theory Tree_Sort
  imports Tree_Move
begin

text \<open>
  \<open>sortBranch\<close> on a represented forest: the children are permuted by a stable sort (the
  interface \<open>stable_sort\<close>), and moving the node behind itself lays the rows of its subtree out
  in the new order (the interface \<open>row_order\<close>). The comparator for a column orders nodes by
  the trimmed upper-case text of a cell. At the end \<open>findLastNode\<close>.
\<close>

section \<open>Sorting the children of a node of a forest\<close>

definition sort_roots :: "('a \<Rightarrow> 'a \<Rightarrow> int) \<Rightarrow> 'a rose list \<Rightarrow> 'a rose list" where
  "sort_roots cmp ts = js_sort (\<lambda>a b. cmp (root a) (root b)) ts"

primrec resort :: "('a \<Rightarrow> 'a \<Rightarrow> int) \<Rightarrow> 'a \<Rightarrow> 'a rose \<Rightarrow> 'a rose" where
  "resort cmp n (Rose b ts) =
     Rose b (if b = n then sort_roots cmp (map (resort cmp n) ts) else map (resort cmp n) ts)"

lemma root_resort [simp]: "root (resort cmp n t) = root t"
  by (cases t) simp

lemma map_root_sort_insert:
  "map root (sort_insert (\<lambda>a b. cmp (root a) (root b)) t ts) = sort_insert cmp (root t) (map root ts)"
  by (induction ts) auto

lemma map_root_sort: "map root (sort_roots cmp ts) = js_sort cmp (map root ts)"
  unfolding sort_roots_def js_sort_def by (induction ts) (simp_all add: map_root_sort_insert)

lemma mset_forder: "mset (forder ts) = (\<Sum>t\<in>#mset ts. mset (preorder t))"
  by (induction ts) auto

lemma mset_sort_roots: "mset (sort_roots cmp ts) = mset ts"
  unfolding sort_roots_def by (rule js.mset_srt)

lemma set_sort_roots [simp]: "set (sort_roots cmp ts) = set ts"
  unfolding sort_roots_def by (rule js.set_srt)

lemma mset_forder_sort_roots: "mset (forder (sort_roots cmp ts)) = mset (forder ts)"
  by (simp add: mset_forder mset_sort_roots)

lemma mset_preorder_resort: "mset (preorder (resort cmp n t)) = mset (preorder t)"
proof (induction t)
  case (Rose b ts)
  have "mset (forder (map (resort cmp n) ts)) = mset (forder ts)"
    using Rose.IH by (induction ts) simp_all
  then have "mset (forder (if b = n then sort_roots cmp (map (resort cmp n) ts)
      else map (resort cmp n) ts)) = mset (forder ts)"
    by (simp add: mset_forder_sort_roots)
  then show ?case unfolding forder_def by simp
qed

lemma mset_forder_resort: "mset (forder (map (resort cmp n) fs)) = mset (forder fs)"
  by (induction fs) (simp_all add: mset_preorder_resort)

lemma resort_absent: "n \<notin> set (preorder t) \<Longrightarrow> resort cmp n t = t"
  by (induction t) (auto intro: map_idI)

lemma resort_at:
  assumes "distinct (preorder t)"
  shows "resort cmp (root t) t = Rose (root t) (sort_roots cmp (kids t))"
proof (cases t)
  case (Rose n ts)
  have "map (resort cmp n) ts = ts"
    using assms Rose by (intro map_idI resort_absent) auto
  then show ?thesis using Rose by simp
qed

lemma rep_resort:
  assumes "rep h u"
    and "\<And>m. m \<in> set (preorder u) \<Longrightarrow>
      n_children (g m) = (if m = n then js_sort cmp (n_children (h m)) else n_children (h m)) \<and>
      n_id (g m) = n_id (h m) \<and> n_parentId (g m) = n_parentId (h m)"
  shows "rep g (resort cmp n u)"
  using assms
proof (induction u)
  case (Rose b ts)
  have kid: "rep g (resort cmp n k) \<and>
      (\<exists>p. n_parentId (g (root k)) = Some p \<and> prop_key p = prop_key (n_id (g b)))"
    if k: "k \<in> set ts" for k
  proof
    show "rep g (resort cmp n k)" using Rose.IH [OF k] Rose.prems k by auto
    have "root k \<in> set (preorder (Rose b ts))" using root_in_forder [OF k] by (simp add: forder_def)
    then show "\<exists>p. n_parentId (g (root k)) = Some p \<and> prop_key p = prop_key (n_id (g b))"
      using Rose.prems k by simp
  qed
  have "n_children (g b) = map root (if b = n then sort_roots cmp (map (resort cmp n) ts)
      else map (resort cmp n) ts)"
    using Rose.prems by (auto simp: map_root_sort comp_def)
  then show ?case using kid by auto
qed

lemma forest_of_sorted:
  assumes fo: "forest_of s w fs"
    and ch: "\<And>m. children v m = (if m = n then js_sort cmp (children w m) else children w m)"
    and ids: "\<And>m. n_id (heap v m) = n_id (heap w m)" "\<And>m. row_of v m = row_of w m"
      "\<And>m. n_parentId (heap v m) = n_parentId (heap w m)"
    and eq: "d_row v = d_row w" "d_order v = d_order w" "tmap v = tmap w" "tnodes v = tnodes w"
      "nextn v = nextn w"
  shows "forest_of s v (map (resort cmp n) fs)"
proof -
  note D = forest_ofD [OF fo]
  have set: "set (forder (map (resort cmp n) fs)) = set (forder fs)"
    by (rule mset_eq_setD) (rule mset_forder_resort)
  have dis: "distinct (forder (map (resort cmp n) fs))"
    unfolding mset_eq_imp_distinct_iff [OF mset_forder_resort] by (rule D(3))
  have "rep (heap v) u \<and> n_parentId (heap v (root u)) = None"
    if u: "u \<in> set (map (resort cmp n) fs)" for u
  proof -
    obtain k where k: "k \<in> set fs" "u = resort cmp n k" using u by auto
    have "rep (heap v) u"
      unfolding k(2) by (rule rep_resort [OF D(1) [OF k(1)]]) (simp add: ch ids)
    then show ?thesis using D(2) [OF k(1)] k(2) ids(3) by simp
  qed
  moreover have rd: "row_data v r k = row_data w r k" for r k
    by (simp add: row_data_def eq cong: option.case_cong)
  moreover have inj: "inj_on (row_of v) (set (forder fs))" using D(10) by (simp add: inj_on_def ids(2))
  moreover have key: "keyed v (set (forder fs))" using D(7) by (simp add: keyed_def ids(1) eq(3))
  ultimately show ?thesis
    unfolding forest_of_def set
  proof (intro conjI)
    show "\<forall>k m. tmap v k = Some m \<longrightarrow> m \<in> set (forder fs) \<and> prop_key (n_id (heap v m)) = k"
      using D(8,9) by (simp add: eq(3) ids(1))
    show "\<forall>m\<in>set (forder fs). row_data v (row_of v m) (nodeIdAttr s) = Some (n_id (heap v m))"
      using D(13) by (simp add: rd ids(1,2))
  qed (use D(4-6,11,12) dis in \<open>auto simp: eq ids(2)\<close>)
qed

section \<open>sortBranch\<close>

lemma rows_sorted:
  assumes "inj_on (row_of w) (set (preorder t))" and "distinct (preorder t)"
    and "row_of w (root t) \<in> set (d_order w)" and "distinct (d_order w)"
  shows "move_block ins_after (map_rose (row_of w) t) (row_of w (root t)) (d_order w) =
      block_behind (row_of w (root t)) (map (row_of w) (below t)) (d_order w)"
proof (cases t)
  case (Rose n ts)
  have "distinct (map (row_of w) (preorder t))" using assms(1,2) by (simp add: distinct_map)
  then have "distinct (preorder (map_rose (row_of w) t))" by (simp only: preorder_map_rose)
  then have "distinct (preorder (Rose (row_of w n) (map (map_rose (row_of w)) ts)))" unfolding Rose by simp
  then have "move_block ins_after (Rose (row_of w n) (map (map_rose (row_of w)) ts)) (row_of w n) (d_order w) =
      block_behind (row_of w n) (map (row_of w) (forder ts)) (d_order w)"
    unfolding block_behind_def forder_map_rose [symmetric]
    by (rule list_rows.listing_move_self [rotated 2]) (use assms(3,4) Rose in simp_all)
  then show ?thesis by (simp add: Rose below_def)
qed

lemma sort_in_forest:
  assumes fo: "forest_of s w fs" and t: "t \<in> set (fsubtrees fs)"
  obtains v where "tree_sort_branch s cmp w (root t) = Returns v"
    and "forest_of s v (map (resort cmp (root t)) fs)"
    and "children v (root t) = js_sort cmp (children w (root t))"
    and "d_order v = block_behind (row_of w (root t))
      (map (row_of w) (forder (sort_roots cmp (kids t)))) (d_order w)"
    and "d_row v = d_row w"
    and "\<forall>n\<in>set (preorder t). rendered s v n" and "tdata v = tdata w"
proof -
  let ?n = "root t" and ?gs = "map (resort cmp (root t)) fs"
  define u where "u = upd_node w ?n (\<lambda>x. x\<lparr>n_children := js_sort cmp (n_children x)\<rparr>)"
  note sub = forest_of_subtree [OF fo t]
  define t' where "t' = Rose ?n (sort_roots cmp (kids t))"
  have u: "forest_of s u ?gs" by (rule forest_of_sorted [OF fo]) (simp_all add: u_def)
  have gs: "set (forder ?gs) = set (forder fs)" by (rule mset_eq_setD) (rule mset_forder_resort)
  have t': "t' = resort cmp ?n t" by (simp add: t'_def resort_at [OF sub(2)])
  have m: "mset (preorder t') = mset (preorder t)" unfolding t' by (rule mset_preorder_resort)
  have pre: "set (preorder t') = set (preorder t)" "distinct (preorder t')"
    using mset_eq_setD [OF m] mset_eq_imp_distinct_iff [OF m] sub(2) by auto
  have rt: "rep (heap u) t'"
    unfolding t' by (rule rep_resort [OF sub(1)]) (simp add: u_def)
  have "height t' \<le> card (set (preorder t'))" using height_le_length [of t'] pre(2) by (metis distinct_card)
  also have "\<dots> \<le> card {..<nextn u}"
    by (rule card_mono) (use sub(3) pre(1) gs forest_ofD(6) [OF u] in auto)
  finally have h: "height t' \<le> fuel_of u" by (simp add: fuel_of_def)
  have rn: "root t' = ?n" by (simp add: t'_def)
  obtain v where v: "move_rows s (fuel_of u) u ?n ?n = Returns v" "relaid u (set (preorder t')) v"
    "d_order v = move_block ins_after (map_rose (row_of u) t') (row_of u ?n) (d_order u)"
    "\<forall>n\<in>set (preorder t'). rendered s v n"
    using move_rows_eq [OF forest_movable [OF u rt pre(2)] h, of s ?n] pre(1) sub(3) gs rn by auto
  have ru: "row_of u = row_of w" "d_order u = d_order w" "d_row u = d_row w" by (auto simp: u_def)
  have nF: "?n \<in> set (forder ?gs)" using sub(3) root_in_preorder [of t] gs by blast
  have "inj_on (row_of u) (set (preorder t'))"
    by (rule inj_on_subset [OF forest_ofD(10) [OF u]]) (use sub(3) pre(1) gs in auto)
  then have ord: "d_order v = block_behind (row_of u ?n) (map (row_of u) (below t')) (d_order u)"
    using rows_sorted [of u t'] pre(2) forest_ofD(12) [OF u nF] forest_ofD(11) [OF u] v(3) rn by simp
  have b: "below t' = forder (sort_roots cmp (kids t))" by (simp add: t'_def below_def)
  have fv: "forest_of s v ?gs"
  proof (rule forest_of_relaid [OF v(2) u])
    have r: "row_of u ?n \<notin> set (map (row_of u) (below t'))" "distinct (map (row_of u) (below t'))"
      using \<open>inj_on (row_of u) (set (preorder t'))\<close> pre(2) rn
      by (auto simp: preorder_unfold [of t'] distinct_map)
    have s: "set (map (row_of u) (below t')) \<subseteq> set (d_order u)"
      using forest_ofD(12) [OF u] below_preorder [of t'] pre(1) sub(3) gs by fastforce
    show "distinct (d_order v)" "set (d_order v) = set (d_order u)"
      using block_behind_facts [OF forest_ofD(12) [OF u nF] r(1) forest_ofD(11) [OF u] r(2) s]
      by (simp_all add: ord)
  qed
  show thesis
    by (rule that [of v])
      (use v(1,4) fv relaidD(4,5,11) [OF v(2)] ord b ru pre(1) in
        \<open>simp_all add: tree_sort_branch_def Let_def u_def\<close>)
qed

section \<open>The comparator of a column\<close>

lemma column_cmp_le: "column_cmp s w c a b \<le> 0 \<longleftrightarrow> extract_value s w c a \<le> extract_value s w c b"
  by (auto simp: column_cmp_def Let_def not_less)

lemma column_cmp_consistent: "consistent (column_cmp s w c)"
  unfolding consistent_def column_cmp_le by (auto simp: column_cmp_def Let_def)

section \<open>findLastNode\<close>

lemma last_preorder:
  "last (preorder t) = (if kids t = [] then root t else last (preorder (last (kids t))))"
proof (cases t)
  case (Rose n ts)
  show ?thesis
  proof (cases ts rule: rev_cases)
    case (snoc us u)
    have "preorder u \<noteq> []" by (simp add: preorder_unfold)
    then show ?thesis using Rose snoc by simp
  qed (simp add: Rose)
qed

lemma find_last_node_eq:
  "rep (heap w) t \<Longrightarrow> height t \<le> f \<Longrightarrow> find_last_node f w (root t) = Some (last (preorder t))"
proof (induction f arbitrary: t)
  case 0
  then show ?case using height_pos [of t] by simp
next
  case (Suc f)
  show ?case
  proof (cases "kids t = []")
    case True
    then show ?thesis using rep_children [OF Suc.prems(1)] last_preorder [of t] by simp
  next
    case False
    then have c: "last (kids t) \<in> set (kids t)" by simp
    have "height (last (kids t)) \<le> f" using height_kid [OF c] Suc.prems(2) by simp
    then show ?thesis
      using Suc.IH [OF rep_kid [OF Suc.prems(1) c]] rep_children [OF Suc.prems(1)] False
        last_preorder [of t] by (simp add: last_map)
  qed
qed

end
