(* ===== verification/Forest_Names.thy ===== *)
theory Forest_Names
  imports Tree_Sort
begin

text \<open>
  The forest a table represents, by the names (the property keys of the ids) of its nodes instead
  of references into the heap. The operations on forests commute with an injective renaming, so
  each of them is the same operation on the forest of names.
\<close>

section \<open>Renaming a forest\<close>

abbreviation frename :: "('a \<Rightarrow> 'b) \<Rightarrow> 'a rose list \<Rightarrow> 'b rose list" where
  "frename f fs \<equiv> map (map_rose f) fs"

lemma root_map_rose [simp]: "root (map_rose f t) = f (root t)"
  by (cases t) simp

lemma kids_map_rose [simp]: "kids (map_rose f t) = frename f (kids t)"
  by (cases t) simp

lemma set_rose_preorder: "set_rose t = set (preorder t)"
  by (induction t) auto

lemma frename_cong:
  assumes "\<And>n. n \<in> set (forder fs) \<Longrightarrow> f n = g n"
  shows "frename f fs = frename g fs"
proof (rule map_cong [OF refl], rule rose.map_cong [OF refl])
  fix t n assume "t \<in> set fs" and "n \<in> set_rose t"
  then show "f n = g n" by (intro assms) (auto simp: set_forder set_rose_preorder)
qed

lemma subtrees_map_rose: "subtrees (map_rose f t) = frename f (subtrees t)"
  by (induction t) (simp add: map_concat comp_def cong: map_cong)

lemma fsubtrees_frename: "fsubtrees (frename f fs) = frename f (fsubtrees fs)"
  by (induction fs) (simp_all add: subtrees_map_rose)

lemma prune_map_rose:
  "inj_on f (insert a (set (preorder t))) \<Longrightarrow> prune (f a) (map_rose f t) = map_rose f (prune a t)"
proof (induction t)
  case (Rose b ts)
  have kid: "prune (f a) (map_rose f t) = map_rose f (prune a t) \<and> (f (root t) = f a \<longleftrightarrow> root t = a)"
    if t: "t \<in> set ts" for t
  proof -
    have sub: "insert a (set (preorder t)) \<subseteq> insert a (set (preorder (Rose b ts)))" using t by auto
    have "root t \<in> insert a (set (preorder t))" by simp
    then show ?thesis
      using Rose.IH [OF t inj_on_subset [OF Rose.prems sub]] inj_on_subset [OF Rose.prems sub]
      by (metis inj_onD insertI1)
  qed
  then have "filter (\<lambda>t. root t \<noteq> f a) (map (prune (f a)) (frename f ts)) =
      frename f (filter (\<lambda>t. root t \<noteq> a) (map (prune a) ts))"
    by (induction ts) auto
  then show ?case by simp
qed

lemma fprune_frename:
  assumes "inj_on f (insert a (set (forder fs)))"
  shows "fprune (f a) (frename f fs) = frename f (fprune a fs)"
  using assms
proof (induction fs)
  case (Cons t fs)
  have "prune (f a) (map_rose f t) = map_rose f (prune a t)"
    by (rule prune_map_rose) (rule inj_on_subset [OF Cons.prems], auto)
  moreover have "f (root t) = f a \<longleftrightarrow> root t = a"
  proof -
    have "root t \<in> insert a (set (forder (t # fs)))" by simp
    then show ?thesis using Cons.prems by (metis inj_onD insertI1)
  qed
  moreover have "inj_on f (insert a (set (forder fs)))"
    by (rule inj_on_subset [OF Cons.prems]) auto
  ultimately show ?case using Cons.IH by simp
qed simp

lemma clear_map_rose:
  "inj_on f (insert a (set (preorder t))) \<Longrightarrow> clear (f a) (map_rose f t) = map_rose f (clear a t)"
proof (induction t)
  case (Rose b ts)
  have "clear (f a) (map_rose f t) = map_rose f (clear a t)" if t: "t \<in> set ts" for t
    by (rule Rose.IH [OF t]) (rule inj_on_subset [OF Rose.prems], use t in auto)
  moreover have "f b = f a \<longleftrightarrow> b = a"
    using inj_onD [OF Rose.prems, of b a] by auto
  ultimately show ?case by (simp cong: map_cong)
qed

lemma fclear_frename:
  assumes "inj_on f (insert a (set (forder fs)))"
  shows "fclear (f a) (frename f fs) = frename f (fclear a fs)"
proof -
  have "clear (f a) (map_rose f t) = map_rose f (clear a t)" if t: "t \<in> set fs" for t
    by (rule clear_map_rose) (rule inj_on_subset [OF assms], use t in \<open>auto simp: set_forder\<close>)
  then show ?thesis by (simp add: fclear_def)
qed

lemma graft_map_rose:
  "inj_on f (insert d (set (preorder u))) \<Longrightarrow>
    graft (f d) (map_rose f t) (map_rose f u) = map_rose f (graft d t u)"
proof (induction u)
  case (Rose b ts)
  have "graft (f d) (map_rose f t) (map_rose f u) = map_rose f (graft d t u)" if u: "u \<in> set ts" for u
    by (rule Rose.IH [OF u]) (rule inj_on_subset [OF Rose.prems], use u in auto)
  moreover have "f b = f d \<longleftrightarrow> b = d"
    using inj_onD [OF Rose.prems, of b d] by auto
  ultimately show ?case by (simp cong: map_cong)
qed

lemma fgraft_frename:
  assumes "inj_on f (insert d (set (forder fs)))"
  shows "fgraft (f d) (map_rose f t) (frename f fs) = frename f (fgraft d t fs)"
proof -
  have "graft (f d) (map_rose f t) (map_rose f u) = map_rose f (graft d t u)" if u: "u \<in> set fs" for u
    by (rule graft_map_rose) (rule inj_on_subset [OF assms], use u in \<open>auto simp: set_forder\<close>)
  then show ?thesis by (simp add: fgraft_def)
qed

lemma sort_insert_map:
  "(\<And>y. y \<in> set ys \<Longrightarrow> c (g x) (g y) = e x y) \<Longrightarrow>
    sort_insert c (g x) (map g ys) = map g (sort_insert e x ys)"
  by (induction ys) auto

lemma js_sort_map:
  "(\<And>x y. x \<in> set xs \<Longrightarrow> y \<in> set xs \<Longrightarrow> c (g x) (g y) = e x y) \<Longrightarrow>
    js_sort c (map g xs) = map g (js_sort e xs)"
proof (induction xs)
  case (Cons x xs)
  have "set (foldr (sort_insert e) xs []) = set xs" using js.set_srt [of e xs] by (simp add: js_sort_def)
  then have "sort_insert c (g x) (map g (js_sort e xs)) = map g (sort_insert e x (js_sort e xs))"
    using Cons.prems by (intro sort_insert_map) (simp add: js_sort_def)
  then show ?case using Cons by (simp add: js_sort_def)
qed (simp add: js_sort_def)

lemma resort_map_rose:
  assumes "\<And>x y. x \<in> set (preorder t) \<Longrightarrow> y \<in> set (preorder t) \<Longrightarrow> c (f x) (f y) = e x y"
    and "inj_on f (insert a (set (preorder t)))"
  shows "resort c (f a) (map_rose f t) = map_rose f (resort e a t)"
  using assms
proof (induction t)
  case (Rose b ts)
  have kid: "resort c (f a) (map_rose f t) = map_rose f (resort e a t)" if t: "t \<in> set ts" for t
  proof (rule Rose.IH [OF t])
    show "inj_on f (insert a (set (preorder t)))"
      by (rule inj_on_subset [OF Rose.prems(2)]) (use t in auto)
  qed (use Rose.prems(1) t in auto)
  have ba: "f b = f a \<longleftrightarrow> b = a" using inj_onD [OF Rose.prems(2), of b a] by auto
  have kids: "map (resort c (f a)) (frename f ts) = frename f (map (resort e a) ts)"
    using kid by simp
  have sorted: "sort_roots c (frename f (map (resort e a) ts)) = frename f (sort_roots e (map (resort e a) ts))"
    unfolding sort_roots_def
  proof (rule js_sort_map)
    have r: "root z \<in> set (preorder (Rose b ts))" if "z \<in> set (map (resort e a) ts)" for z
    proof -
      obtain k where "k \<in> set ts" "z = resort e a k" using \<open>z \<in> set (map (resort e a) ts)\<close> by auto
      then show ?thesis using root_in_preorder [of k] by (simp del: root_in_preorder) blast
    qed
    fix x y assume "x \<in> set (map (resort e a) ts)" and "y \<in> set (map (resort e a) ts)"
    then have "root x \<in> set (preorder (Rose b ts))" "root y \<in> set (preorder (Rose b ts))"
      using r by blast+
    then show "c (root (map_rose f x)) (root (map_rose f y)) = e (root x) (root y)"
      using Rose.prems(1) by simp
  qed
  show ?case
    by (cases "b = a") (simp_all only: rose.map resort.simps kids ba sorted simp_thms if_True if_False)
qed

lemma fresort_frename:
  assumes "\<And>x y. x \<in> set (forder fs) \<Longrightarrow> y \<in> set (forder fs) \<Longrightarrow> c (f x) (f y) = e x y"
    and "inj_on f (insert a (set (forder fs)))"
  shows "map (resort c (f a)) (frename f fs) = frename f (map (resort e a) fs)"
proof -
  have "resort c (f a) (map_rose f t) = map_rose f (resort e a t)" if t: "t \<in> set fs" for t
  proof (rule resort_map_rose)
    show "inj_on f (insert a (set (preorder t)))"
      by (rule inj_on_subset [OF assms(2)]) (use t in \<open>auto simp: set_forder\<close>)
  qed (use assms(1) t in \<open>auto simp: set_forder\<close>)
  then show ?thesis by simp
qed

end
