(* ===== verification/Tree_Branch.thy ===== *)
theory Tree_Branch
  imports Tree_Sort
begin

text \<open>
  \<open>loadBranch\<close> on a represented forest: the new rows go behind the row of the last node of the
  branch (or to the end of the table), become nodes, are shown one by one, and the parent is
  rendered and expanded.
\<close>

section \<open>New rows in the table\<close>

lemma row_data_reorder [simp]: "row_data (w\<lparr>d_order := xs\<rparr>) r k = row_data w r k"
  by (simp add: row_data_def cong: option.case_cong)

lemma loadable_reorder [simp]: "loadable s (w\<lparr>d_order := xs\<rparr>) K rs = loadable s w K rs"
  by (induction rs arbitrary: K) (auto simp: parent_id_of_def split: option.split)

lemma forest_of_reorder:
  assumes "forest_of s w fs" and "distinct xs" and "row_of w ` set (forder fs) \<subseteq> set xs"
  shows "forest_of s (w\<lparr>d_order := xs\<rparr>) fs"
  using assms by (simp add: forest_of_def keyed_def)

lemma insert_branch_rows_eq:
  assumes fo: "forest_of s w fs" and t: "t \<in> set (fsubtrees fs)"
    and "set rs \<inter> row_of w ` set (forder fs) = {}" and "distinct rs"
  defines "xs \<equiv> block_behind (row_of w (last (preorder t))) rs (d_order w)"
  shows "insert_branch_rows (Some (root t)) rs w = Returns (w\<lparr>d_order := xs\<rparr>)"
    and "forest_of s (w\<lparr>d_order := xs\<rparr>) fs" and "set rs \<subseteq> set xs"
    and "set xs = set (d_order w) \<union> set rs"
proof -
  let ?l = "last (preorder t)"
  note sub = forest_of_subtree [OF fo t]
  have "preorder t \<noteq> []" by (simp add: preorder_unfold)
  then have lF: "?l \<in> set (forder fs)" using sub(3) last_in_set by blast
  then have lr: "row_of w ?l \<notin> set rs" "row_of w ?l \<in> set (d_order w)"
    using assms(3) forest_ofD(12) [OF fo] by auto
  then have "filter (\<lambda>r. r \<noteq> row_of w ?l) rs = rs" by (intro filter_True) auto
  then show "insert_branch_rows (Some (root t)) rs w = Returns (w\<lparr>d_order := xs\<rparr>)"
    using find_last_node_eq [OF sub(1) forest_height_fuel(1) [OF fo t]]
    by (simp add: insert_branch_rows_def insert_rows_after_def block_behind_def xs_def Let_def)
  show s: "set xs = set (d_order w) \<union> set rs"
    using lr by (auto simp: xs_def block_behind_def set_put_behind)
  then show "set rs \<subseteq> set xs" by simp
  have "distinct xs"
    unfolding xs_def block_behind_def
    by (rule distinct_put_behind) (use lr assms(4) forest_ofD(11) [OF fo] in auto)
  then show "forest_of s (w\<lparr>d_order := xs\<rparr>) fs"
    by (rule forest_of_reorder [OF fo]) (use s forest_ofD(12) [OF fo] in auto)
qed

section \<open>Showing the new nodes\<close>

lemma show_row_node_returns:
  assumes fo: "forest_of s w fs" and m: "m \<in> set (forder fs)" and "row_of w m = r"
  shows "\<exists>v. show_row_node s w r = Returns v \<and> same_shape w v \<and> disp v m \<and> n_initialized (heap v m)"
proof -
  obtain t where t: "t \<in> set (fsubtrees fs)" "root t = m" by (rule forest_subtree_at [OF m])
  obtain v where v: "node_show s (fuel_of w) w (root t) = Returns v" "touches w (set (preorder t)) v"
    "disp v (root t)" "n_initialized (heap v (root t))"
    using showing.shows_child [OF sound_forest_subtree [OF fo t(1)] forest_height_fuel(1) [OF fo t(1)], of s]
    by blast
  have "tmap w (prop_key (n_id (heap w m))) = Some m" using forest_ofD(7) [OF fo] m by (simp add: keyed_def)
  then have "show_row_node s w r = node_show s (fuel_of w) w m"
    using forest_ofD(13) [OF fo m] assms(3) by (auto simp: show_row_node_def)
  then show ?thesis using v t(2) touches_shape [OF v(2)] by auto
qed

lemma show_rows_returns:
  assumes fo: "forest_of s w fs" and "set rs \<subseteq> row_of w ` set (forder fs)"
  obtains v where "each (show_row_node s) w rs = Returns v" and "same_shape w v"
proof -
  have "\<exists>v. each (show_row_node s) w rs = Returns v \<and> same_shape w v"
  proof (rule each_invariant)
    fix r and x :: world
    assume r: "r \<in> set rs" and x: "same_shape w x"
    obtain m where m: "m \<in> set (forder fs)" "row_of w m = r" using r assms(2) by auto
    have "row_of x m = r" using m(2) same_shape_simps(1) [OF x] by simp
    then show "\<exists>v. show_row_node s x r = Returns v \<and> same_shape w v"
      using show_row_node_returns [OF forest_of_shape [OF x fo] m(1)] same_shape_trans [OF x] by blast
  qed simp
  then show thesis using that by blast
qed

section \<open>loadBranch\<close>

lemma load_branch_in_forest:
  assumes fo: "forest_of s w fs" and t: "t \<in> set (fsubtrees fs)" and td: "tdata w"
    and rs: "distinct rs" "set rs \<inter> row_of w ` set (forder fs) = {}"
    and ld: "loadable s w {k. tmap w k \<noteq> None} rs"
    and ids: "\<forall>r\<in>set rs. row_data w r (nodeIdAttr s) \<noteq> None"
  obtains v gs ns where "tt_loadBranch s (Some (root t)) rs w = Returns v" and "forest_of s v gs"
    and "d_order v = block_behind (row_of w (last (preorder t))) rs (d_order w)"
    and "tnodes v = tnodes w @ ns" and "map (row_of v) ns = rs"
    and "expanded v (root t)" and "troots w = map root fs \<longrightarrow> troots v = map root gs"
    and "tdata v" and "same_shape (foldl (load_row s) (w\<lparr>d_order := d_order v\<rparr>) rs) v"
proof -
  let ?n = "root t"
  define xs where "xs = block_behind (row_of w (last (preorder t))) rs (d_order w)"
  define w1 where "w1 = w\<lparr>d_order := xs\<rparr>"
  note ins = insert_branch_rows_eq [OF fo t rs(2,1), folded xs_def w1_def]
  define w2 where "w2 = foldl (load_row s) w1 rs"
  have "\<exists>gs. forest_of s w2 gs \<and> (linked s w1 \<longrightarrow> linked s w2) \<and>
      (parents_first w1 \<longrightarrow> parents_first w2) \<and> same_rows w1 w2 \<and>
      (\<exists>ns. tnodes w2 = tnodes w1 @ ns \<and>
        map (row_of w2) ns = filter (\<lambda>r. row_data w1 r (nodeIdAttr s) \<noteq> None) rs \<and>
        (\<forall>n\<in>set ns. \<not> n_initialized (heap w2 n))) \<and>
      (\<forall>m\<in>set (tnodes w1). row_of w2 m = row_of w1 m \<and>
        n_initialized (heap w2 m) = n_initialized (heap w1 m)) \<and>
      (troots w1 = map root fs \<longrightarrow> troots w2 = map root gs)"
    unfolding w2_def
    by (rule load_rows_forest [OF ins(2), of "{k. tmap w k \<noteq> None}"])
      (use ld rs ins(3) in \<open>simp_all add: w1_def\<close>)
  then obtain gs ns where w2: "forest_of s w2 gs" "same_rows w1 w2" "tnodes w2 = tnodes w @ ns"
    "map (row_of w2) ns = filter (\<lambda>r. row_data w1 r (nodeIdAttr s) \<noteq> None) rs"
    "troots w = map root fs \<longrightarrow> troots w2 = map root gs"
    by (auto simp: w1_def)
  have rows: "map (row_of w2) ns = rs"
    using w2(4) ids by (simp add: w1_def filter_True)
  define w3 where "w3 = load_rows s w1 rs"
  have r3: "relabels w2 w3"
    by (simp add: w3_def load_rows_def Let_def w2_def [symmetric] foldl_update_relabels)
  then have s3: "same_shape w2 w3" by (simp add: relabels_def)
  have f3: "forest_of s w3 gs" by (rule forest_of_shape [OF s3 w2(1)])
  have nsF: "set (tnodes w @ ns) = set (forder gs)" using forest_ofD(5) [OF w2(1)] w2(3) by simp
  have "set rs \<subseteq> row_of w3 ` set (forder gs)"
  proof -
    have "set rs = row_of w2 ` set ns" unfolding rows [symmetric] by simp
    moreover have "row_of w3 m = row_of w2 m" for m by (rule same_shape_simps(1) [OF s3])
    ultimately show ?thesis using nsF by auto
  qed
  then obtain w4 where w4: "each (show_row_node s) w3 rs = Returns w4" "same_shape w3 w4"
    by (rule show_rows_returns [OF f3])
  have f4: "forest_of s w4 gs" by (rule forest_of_shape [OF w4(2) f3])
  have nF: "?n \<in> set (forder gs)"
    using nsF forest_ofD(5) [OF fo] subsetD [OF forest_of_subtree(3) [OF fo t] root_in_preorder] by auto
  obtain w5 where w5: "render s w4 ?n = Returns w5" "touches w4 {?n} w5"
    using render_returns [of w4 ?n s] forest_of_level [OF f4 nF] by auto
  have s5: "same_shape w4 w5" by (rule touches_shape [OF w5(2)])
  have f5: "forest_of s w5 gs" by (rule forest_of_shape [OF s5 f4])
  obtain u where u: "u \<in> set (fsubtrees gs)" "root u = ?n" by (rule forest_subtree_at [OF nF])
  obtain v where v: "node_expand s (fuel_of w5) w5 (root u) = Returns v"
    "touches w5 (set (preorder u)) v" "expanded v (root u)"
    by (rule expand_in_forest [OF f5 u(1)])
  have sv: "same_shape w2 v"
    by (meson s3 w4(2) s5 touches_shape [OF v(2)] same_shape_trans)
  have "tt_loadBranch s (Some ?n) rs w = Returns v"
    using td ins(1) w4(1) w5(1) v(1) u(2)
    by (simp add: tt_loadBranch_def with_tree_def flip: w3_def)
  moreover have "d_order v = xs" using same_shape_simps(10) [OF sv] w2(2) by (simp add: same_rows_def w1_def)
  moreover have "same_shape (foldl (load_row s) (w\<lparr>d_order := d_order v\<rparr>) rs) v"
    unfolding \<open>d_order v = xs\<close> using sv by (simp add: w2_def w1_def)
  moreover have "map (row_of v) ns = rs" using rows same_shape_simps(1) [OF sv] by simp
  ultimately show thesis
    using that [of v gs ns] forest_of_shape [OF sv w2(1)] w2(2,3,5) v(3) u(2) td
      same_shape_simps(8,9,12) [OF sv] xs_def by (simp add: same_rows_def w1_def)
qed

text \<open>Without a parent the rows go to the end of the table.\<close>

lemma load_roots_in_forest:
  assumes fo: "forest_of s w fs" and td: "tdata w"
    and rs: "distinct rs" "set rs \<inter> row_of w ` set (forder fs) = {}"
    and ld: "loadable s w {k. tmap w k \<noteq> None} rs"
    and ids: "\<forall>r\<in>set rs. row_data w r (nodeIdAttr s) \<noteq> None"
  obtains v gs where "tt_loadBranch s None rs w = Returns v" and "forest_of s v gs" and "tdata v"
    and "same_shape (foldl (load_row s) (w\<lparr>d_order := d_order v\<rparr>) rs) v"
    and "d_order v = filter (\<lambda>x. x \<notin> set rs) (d_order w) @ rs"
proof -
  define xs where "xs = filter (\<lambda>x. x \<notin> set rs) (d_order w) @ rs"
  define w1 where "w1 = w\<lparr>d_order := xs\<rparr>"
  have "distinct xs" using rs(1) forest_ofD(11) [OF fo] by (auto simp: xs_def)
  moreover have "row_of w ` set (forder fs) \<subseteq> set xs"
    using rs(2) forest_ofD(12) [OF fo] by (auto simp: xs_def)
  ultimately have f1: "forest_of s w1 fs" unfolding w1_def by (rule forest_of_reorder [OF fo])
  define w2 where "w2 = foldl (load_row s) w1 rs"
  have "\<exists>gs. forest_of s w2 gs \<and> (linked s w1 \<longrightarrow> linked s w2) \<and>
      (parents_first w1 \<longrightarrow> parents_first w2) \<and> same_rows w1 w2 \<and>
      (\<exists>ns. tnodes w2 = tnodes w1 @ ns \<and>
        map (row_of w2) ns = filter (\<lambda>r. row_data w1 r (nodeIdAttr s) \<noteq> None) rs \<and>
        (\<forall>n\<in>set ns. \<not> n_initialized (heap w2 n))) \<and>
      (\<forall>m\<in>set (tnodes w1). row_of w2 m = row_of w1 m \<and>
        n_initialized (heap w2 m) = n_initialized (heap w1 m)) \<and>
      (troots w1 = map root fs \<longrightarrow> troots w2 = map root gs)"
    unfolding w2_def
    by (rule load_rows_forest [OF f1, of "{k. tmap w k \<noteq> None}"])
      (use ld rs in \<open>simp_all add: w1_def xs_def\<close>)
  then obtain gs ns where w2: "forest_of s w2 gs" "same_rows w1 w2" "tnodes w2 = tnodes w @ ns"
    "map (row_of w2) ns = filter (\<lambda>r. row_data w1 r (nodeIdAttr s) \<noteq> None) rs"
    by (auto simp: w1_def)
  have rows: "map (row_of w2) ns = rs" using w2(4) ids by (simp add: w1_def filter_True)
  define w3 where "w3 = load_rows s w1 rs"
  have s3: "same_shape w2 w3"
    by (simp add: w3_def load_rows_def Let_def w2_def [symmetric] foldl_update_shape)
  have f3: "forest_of s w3 gs" by (rule forest_of_shape [OF s3 w2(1)])
  have "set rs \<subseteq> row_of w3 ` set (forder gs)"
  proof -
    have "set rs = row_of w2 ` set ns" unfolding rows [symmetric] by simp
    moreover have "row_of w3 m = row_of w2 m" for m by (rule same_shape_simps(1) [OF s3])
    ultimately show ?thesis using forest_ofD(5) [OF w2(1)] w2(3) by auto
  qed
  then obtain v where v: "each (show_row_node s) w3 rs = Returns v" "same_shape w3 v"
    by (rule show_rows_returns [OF f3])
  have "insert_branch_rows None rs w = Returns w1"
    by (simp add: insert_branch_rows_def append_rows_def w1_def xs_def)
  then have "tt_loadBranch s None rs w = Returns v"
    using td v(1) by (simp add: tt_loadBranch_def with_tree_def flip: w3_def)
  moreover have "tdata v"
    using td w2(2) same_shape_simps(12) [OF s3] same_shape_simps(12) [OF v(2)]
    by (simp add: same_rows_def w1_def)
  moreover have sv: "same_shape w2 v" by (rule same_shape_trans [OF s3 v(2)])
  moreover have "d_order v = xs"
    using same_shape_simps(10) [OF sv] w2(2) by (simp add: same_rows_def w1_def)
  ultimately show thesis using that forest_of_shape [OF v(2) f3] by (simp add: w2_def w1_def xs_def)
qed

end
