(* ===== verification/Tree_All.thy ===== *)
theory Tree_All
  imports Tree_Branch
begin

text \<open>
  \<open>collapseAll\<close> and \<open>expandAll\<close> run over every node of the table, \<open>level\<close> is the depth in the
  forest, and the handlers \<open>render\<close> binds are bound once.
\<close>

section \<open>Levels\<close>

lemma level_root: "forest_of s w fs \<Longrightarrow> t \<in> set fs \<Longrightarrow> level w (root t) = Some 0"
  using forest_of_root_chain [of s w fs t] ancestors_chain [of "fuel_of w" w "root t" "[]"]
  by (simp add: level_def fuel_of_def)

lemma level_child:
  assumes "forest_of s w fs" and "m \<in> set (forder fs)" and "c \<in> set (children w m)"
  shows "level w c = map_option Suc (level w m)"
proof -
  obtain as where as: "chain w m as" by (rule forest_of_chain [OF assms(1,2)])
  have "parent_node w c = Some m" by (rule forest_child_parent [OF assms])
  then have ch: "chain w c (m # as)" using as by simp
  have "ancestors (fuel_of w) w c = Some (m # as)" "ancestors (fuel_of w) w m = Some as"
    using as ch chain_length [OF assms(1) ch] by (auto simp: ancestors_chain)
  then show ?thesis by (simp add: level_def)
qed

section \<open>collapseAll\<close>

lemma disp_roots_only:
  assumes "forest_of s w fs" and "vis_inv w fs" and "n \<in> set (forder fs)"
    and "\<forall>m\<in>set (forder fs). \<not> expanded w m"
  shows "disp w n \<longleftrightarrow> n \<in> root ` set fs"
proof
  assume "n \<in> root ` set fs"
  then show "disp w n" using assms(2) by (auto simp: vis_inv_def)
next
  assume d: "disp w n"
  show "n \<in> root ` set fs"
  proof (rule ccontr)
    assume "n \<notin> root ` set fs"
    then obtain p where "p \<in> set (forder fs)" "n \<in> set (children w p)"
      using forest_parent_child [OF assms(1,3)] by auto
    then show False using assms(2,4) d by (auto simp: vis_inv_def vis_ok_def)
  qed
qed

text \<open>It is enough that no root is expanded.\<close>

lemma disp_below_closed_roots:
  assumes fo: "forest_of s w fs" and "vis_inv w fs" and "\<forall>t\<in>set fs. \<not> expanded w (root t)"
  shows "chain w n as \<Longrightarrow> n \<in> set (forder fs) \<Longrightarrow> disp w n \<longleftrightarrow> n \<in> root ` set fs"
proof (induction as arbitrary: n)
  case Nil
  then obtain t where "t \<in> set fs" "n = root t" using forest_parent_child [OF fo, of n] by auto
  then show ?case using assms(2) by (auto simp: vis_inv_def)
next
  case (Cons p as)
  then have p: "p \<in> set (forder fs)" "n \<in> set (children w p)"
    using forest_parent_child [OF fo, of n] by auto
  have "n \<notin> root ` set fs"
    using forest_of_root_chain [OF fo] Cons.prems(1) by auto
  moreover have "\<not> (disp w p \<and> expanded w p)"
    using Cons.IH [OF _ p(1)] Cons.prems(1) assms(3) by auto
  ultimately show ?case using assms(2) p by (auto simp: vis_inv_def vis_ok_def)
qed

definition flags_ok :: "world \<Rightarrow> nref rose list \<Rightarrow> bool" where
  "flags_ok w fs \<longleftrightarrow> (\<forall>n\<in>set (forder fs). \<not> (collapsed w n \<and> expanded w n))"

lemma collapse_flags:
  assumes inj: "inj_on (row_of w) (insert m (set (preorder t)))" and "distinct (preorder t)"
    and "m \<noteq> root t"
  shows "collapsed (collapse_result s w t) m = collapsed w m"
    and "expanded (collapse_result s w t) m = expanded w m"
proof -
  have "row_of w m \<noteq> row_of w (root t)" using inj assms(3) by (auto simp: inj_on_def)
  then show "collapsed (collapse_result s w t) m = collapsed w m"
    "expanded (collapse_result s w t) m = expanded w m"
    by (auto simp: collapse_result_def Let_def collapsed_def expanded_def has_class_def
        add_class_def remove_class_def)
qed

lemma collapse_each:
  "forest_of s w fs \<Longrightarrow> vis_inv w fs \<Longrightarrow> flags_ok w fs \<Longrightarrow> set ns \<subseteq> set (forder fs) \<Longrightarrow>
    \<exists>v. each (\<lambda>w1 n. node_collapse s (fuel_of w1) w1 n) w ns = Returns v \<and>
      same_shape w v \<and> vis_inv v fs \<and> flags_ok v fs \<and>
      (\<forall>m\<in>set (forder fs). collapsed v m \<longleftrightarrow> m \<in> set ns \<or> collapsed w m)"
proof (induction ns arbitrary: w)
  case Nil
  then show ?case by simp
next
  case (Cons n ns)
  have nF: "n \<in> set (forder fs)" using Cons.prems(4) by simp
  obtain t where t: "t \<in> set (fsubtrees fs)" "root t = n" by (rule forest_subtree_at [OF nF])
  note sub = forest_of_subtree [OF Cons.prems(1) t(1)]
  obtain u where u: "node_collapse s (fuel_of w) w (root t) = Returns u"
    "u = (if collapsed w (root t) then w else collapse_result s w t)"
    "touches w (set (preorder t)) u" "vis_inv w fs \<longrightarrow> vis_inv u fs"
    by (rule collapse_in_forest [OF Cons.prems(1) t(1)])
  have inj: "inj_on (row_of w) (insert m (set (preorder t)))" if "m \<in> set (forder fs)" for m
    by (rule inj_on_subset [OF forest_ofD(10) [OF Cons.prems(1)]]) (use that sub(3) in auto)
  have root: "collapsed u n" "\<not> expanded u n"
    using u(2) t(2) collapse_result_facts(1,2) [OF inj_on_subset [OF inj [OF nF] subset_insertI] sub(2)]
      Cons.prems(3) nF by (auto simp: flags_ok_def)
  have other: "collapsed u m = collapsed w m" "expanded u m = expanded w m"
    if "m \<in> set (forder fs)" "m \<noteq> n" for m
    using u(2) collapse_flags [OF inj [OF that(1)] sub(2)] that(2) t(2) by auto
  have sh: "same_shape w u" by (rule touches_shape [OF u(3)])
  have "flags_ok u fs" using root other Cons.prems(3) unfolding flags_ok_def by metis
  then obtain v where v: "each (\<lambda>w1 n. node_collapse s (fuel_of w1) w1 n) u ns = Returns v"
    "same_shape u v" "vis_inv v fs" "flags_ok v fs"
    "\<forall>m\<in>set (forder fs). collapsed v m \<longleftrightarrow> m \<in> set ns \<or> collapsed u m"
    using Cons.IH [OF forest_of_shape [OF sh Cons.prems(1)]] u(4) Cons.prems(2,4) by auto
  have "collapsed v m \<longleftrightarrow> m \<in> set (n # ns) \<or> collapsed w m" if "m \<in> set (forder fs)" for m
    using v(5) that root(1) other(1) [OF that] by (cases "m = n") auto
  then show ?case
    using u(1) t(2) v(1,3,4) same_shape_trans [OF sh v(2)] by simp
qed

lemma collapse_all_in_forest:
  assumes "forest_of s w fs" and "vis_inv w fs" and "flags_ok w fs"
  obtains v where "tree_collapse_all s w = Returns v" and "forest_of s v fs" and "vis_inv v fs"
    and "\<forall>n\<in>set (forder fs). collapsed v n \<and> \<not> expanded v n \<and> (disp v n \<longleftrightarrow> n \<in> root ` set fs)"
proof -
  obtain v where v: "tree_collapse_all s w = Returns v" "same_shape w v" "vis_inv v fs" "flags_ok v fs"
    "\<forall>m\<in>set (forder fs). collapsed v m"
    using collapse_each [OF assms, of "tnodes w"] forest_ofD(5) [OF assms(1)]
    by (auto simp: tree_collapse_all_def)
  have fv: "forest_of s v fs" by (rule forest_of_shape [OF v(2) assms(1)])
  have ex: "\<forall>m\<in>set (forder fs). \<not> expanded v m" using v(4,5) by (auto simp: flags_ok_def)
  then show thesis using that [OF v(1) fv v(3)] v(5) disp_roots_only [OF fv v(3) _ ex] by blast
qed

text \<open>In any state: a node that is collapsed already is skipped, and any other hides all rows below it.\<close>

lemma below_iff_ancestor:
  assumes fo: "forest_of s w fs" and t: "t \<in> set (fsubtrees fs)"
  shows "chain w m as \<Longrightarrow> m \<in> set (forder fs) \<Longrightarrow> m \<in> set (below t) \<longleftrightarrow> root t \<in> set as"
proof (induction as arbitrary: m)
  case Nil
  have "m \<notin> set (below t)"
    using below_has_parent [OF forest_of_subtree(1) [OF fo t], of m] forest_child_parent [OF fo]
      forest_of_subtree(3) [OF fo t] Nil.prems(1) by fastforce
  then show ?case by simp
next
  case (Cons p as)
  then have p: "p \<in> set (forder fs)" "m \<in> set (children w p)" "chain w p as"
    using forest_parent_child [OF fo Cons.prems(2)] by auto
  have "m \<in> set (below t) \<longleftrightarrow> p \<in> set (preorder t)"
  proof
    assume "m \<in> set (below t)"
    then obtain q where "q \<in> set (preorder t)" "m \<in> set (children w q)"
      using below_has_parent [OF forest_of_subtree(1) [OF fo t]] by blast
    then show "p \<in> set (preorder t)"
      using forest_child_parent [OF fo, of q m] forest_of_subtree(3) [OF fo t] Cons.prems(1) by auto
  next
    assume "p \<in> set (preorder t)"
    then show "m \<in> set (below t)" using rep_closed [OF forest_of_subtree(1) [OF fo t]] p(2) by blast
  qed
  then show ?case using Cons.IH [OF p(3,1)] by (auto simp: preorder_unfold)
qed

lemma collapse_one:
  assumes fo: "forest_of s w fs" and t: "t \<in> set (fsubtrees fs)" and m: "m \<in> set (forder fs)"
  defines "u \<equiv> if collapsed w (root t) then w else collapse_result s w t"
  shows "collapsed u m \<longleftrightarrow> m = root t \<or> collapsed w m"
    and "expanded u m \<longleftrightarrow> expanded w m \<and> (m = root t \<longrightarrow> collapsed w m)"
    and "chain w m as \<Longrightarrow> disp u m \<longleftrightarrow> disp w m \<and> (root t \<in> set as \<longrightarrow> collapsed w (root t))"
proof -
  note sub = forest_of_subtree [OF fo t]
  have inj: "inj_on (row_of w) (insert m (set (preorder t)))"
    by (rule inj_on_subset [OF forest_ofD(10) [OF fo]]) (use m sub(3) in auto)
  note facts = collapse_result_facts [OF inj_on_subset [OF inj subset_insertI] sub(2)]
  note flags = collapse_flags [OF inj sub(2)]
  show "collapsed u m \<longleftrightarrow> m = root t \<or> collapsed w m"
    using facts(1) flags(1) by (cases "m = root t") (auto simp: u_def)
  show "expanded u m \<longleftrightarrow> expanded w m \<and> (m = root t \<longrightarrow> collapsed w m)"
    using facts(2) flags(2) by (cases "m = root t") (auto simp: u_def)
  assume as: "chain w m as"
  have "disp (collapse_result s w t) m \<longleftrightarrow> disp w m \<and> m \<notin> set (below t)"
  proof (cases "m \<in> set (preorder t)")
    case True
    then show ?thesis using facts(3,4) sub(2) by (auto simp: preorder_unfold)
  next
    case False
    then show ?thesis
      using touches_outside(1) [OF touches_collapse_result [of w t s] False inj] below_preorder [of t] by auto
  qed
  then show "disp u m \<longleftrightarrow> disp w m \<and> (root t \<in> set as \<longrightarrow> collapsed w (root t))"
    using below_iff_ancestor [OF fo t as m] by (auto simp: u_def)
qed

lemma collapse_each_exact:
  "forest_of s w fs \<Longrightarrow> distinct ns \<Longrightarrow> set ns \<subseteq> set (forder fs) \<Longrightarrow>
    \<exists>v. each (\<lambda>w1 n. node_collapse s (fuel_of w1) w1 n) w ns = Returns v \<and> same_shape w v \<and>
      (\<forall>m\<in>set (forder fs). (collapsed v m \<longleftrightarrow> m \<in> set ns \<or> collapsed w m) \<and>
        (expanded v m \<longleftrightarrow> expanded w m \<and> (m \<in> set ns \<longrightarrow> collapsed w m)) \<and>
        (\<forall>as. chain w m as \<longrightarrow> (disp v m \<longleftrightarrow> disp w m \<and> (\<forall>a\<in>set as. a \<in> set ns \<longrightarrow> collapsed w a))))"
proof (induction ns arbitrary: w)
  case Nil
  then show ?case by simp
next
  case (Cons n ns)
  have nF: "n \<in> set (forder fs)" using Cons.prems(3) by simp
  obtain t where t: "t \<in> set (fsubtrees fs)" "root t = n" by (rule forest_subtree_at [OF nF])
  obtain u where u: "node_collapse s (fuel_of w) w (root t) = Returns u"
    "u = (if collapsed w (root t) then w else collapse_result s w t)" "touches w (set (preorder t)) u"
    by (rule collapse_in_forest [OF Cons.prems(1) t(1)])
  have un: "u = (if collapsed w n then w else collapse_result s w t)" using u(2) t(2) by simp
  have one: "collapsed u m \<longleftrightarrow> m = n \<or> collapsed w m"
    "expanded u m \<longleftrightarrow> expanded w m \<and> (m = n \<longrightarrow> collapsed w m)"
    "chain w m as \<Longrightarrow> disp u m \<longleftrightarrow> disp w m \<and> (n \<in> set as \<longrightarrow> collapsed w n)"
    if m: "m \<in> set (forder fs)" for m as
    unfolding un using collapse_one [OF Cons.prems(1) t(1) m, unfolded t(2)] by simp_all
  have sh: "same_shape w u" by (rule touches_shape [OF u(3)])
  obtain v where v: "each (\<lambda>w1 n. node_collapse s (fuel_of w1) w1 n) u ns = Returns v" "same_shape u v"
    "\<forall>m\<in>set (forder fs). (collapsed v m \<longleftrightarrow> m \<in> set ns \<or> collapsed u m) \<and>
        (expanded v m \<longleftrightarrow> expanded u m \<and> (m \<in> set ns \<longrightarrow> collapsed u m)) \<and>
        (\<forall>as. chain u m as \<longrightarrow> (disp v m \<longleftrightarrow> disp u m \<and> (\<forall>a\<in>set as. a \<in> set ns \<longrightarrow> collapsed u a)))"
    using Cons.IH [OF forest_of_shape [OF sh Cons.prems(1)]] Cons.prems(2,3) by auto
  have n: "n \<notin> set ns" using Cons.prems(2) by simp
  have "(collapsed v m \<longleftrightarrow> m \<in> set (n # ns) \<or> collapsed w m) \<and>
      (expanded v m \<longleftrightarrow> expanded w m \<and> (m \<in> set (n # ns) \<longrightarrow> collapsed w m)) \<and>
      (\<forall>as. chain w m as \<longrightarrow> (disp v m \<longleftrightarrow> disp w m \<and> (\<forall>a\<in>set as. a \<in> set (n # ns) \<longrightarrow> collapsed w a)))"
    if m: "m \<in> set (forder fs)" for m
  proof (intro conjI allI impI)
    show "collapsed v m \<longleftrightarrow> m \<in> set (n # ns) \<or> collapsed w m"
      using v(3) m one(1) [OF m] by auto
    show "expanded v m \<longleftrightarrow> expanded w m \<and> (m \<in> set (n # ns) \<longrightarrow> collapsed w m)"
      using v(3) m one(1,2) [OF m] n by auto
    fix as assume as: "chain w m as"
    have eq: "disp v m \<longleftrightarrow> disp u m \<and> (\<forall>a\<in>set as. a \<in> set ns \<longrightarrow> collapsed u a)"
      using v(3) m as chain_shape [OF sh] by blast
    have "collapsed u a = collapsed w a" if "a \<in> set ns" for a
      using one(1) [of a] that Cons.prems(3) n by auto
    then show "disp v m \<longleftrightarrow> disp w m \<and> (\<forall>a\<in>set as. a \<in> set (n # ns) \<longrightarrow> collapsed w a)"
      using eq one(3) [OF m as] by auto
  qed
  then show ?case
    using u(1) t(2) v(1) same_shape_trans [OF sh v(2)] by (intro exI [of _ v]) simp
qed

lemma collapse_all_exact:
  assumes fo: "forest_of s w fs"
  obtains v where "tree_collapse_all s w = Returns v" and "forest_of s v fs"
    and "\<And>m. m \<in> set (forder fs) \<Longrightarrow> collapsed v m"
    and "\<And>m. m \<in> set (forder fs) \<Longrightarrow> expanded v m \<longleftrightarrow> expanded w m \<and> collapsed w m"
    and "\<And>m as. m \<in> set (forder fs) \<Longrightarrow> chain w m as \<Longrightarrow>
      disp v m \<longleftrightarrow> disp w m \<and> (\<forall>a\<in>set as. collapsed w a)"
proof -
  have T: "set (tnodes w) = set (forder fs)" by (rule forest_ofD(5) [OF fo])
  obtain v where v: "tree_collapse_all s w = Returns v" "same_shape w v"
    "\<forall>m\<in>set (forder fs). (collapsed v m \<longleftrightarrow> m \<in> set (tnodes w) \<or> collapsed w m) \<and>
        (expanded v m \<longleftrightarrow> expanded w m \<and> (m \<in> set (tnodes w) \<longrightarrow> collapsed w m)) \<and>
        (\<forall>as. chain w m as \<longrightarrow> (disp v m \<longleftrightarrow> disp w m \<and> (\<forall>a\<in>set as. a \<in> set (tnodes w) \<longrightarrow> collapsed w a)))"
    using collapse_each_exact [OF fo forest_ofD(4) [OF fo]] T by (auto simp: tree_collapse_all_def)
  have C: "set as \<subseteq> set (tnodes w)" if "chain w m as" for m as
    using chain_members [OF that] forest_ofD(8) [OF fo] by (auto simp: ran_def T)
  show thesis
  proof (rule that [OF v(1) forest_of_shape [OF v(2) fo]])
    fix m assume m: "m \<in> set (forder fs)"
    then show "collapsed v m" "expanded v m \<longleftrightarrow> expanded w m \<and> collapsed w m"
      using v(3) T by auto
    fix as assume as: "chain w m as"
    then have "disp v m \<longleftrightarrow> disp w m \<and> (\<forall>a\<in>set as. a \<in> set (tnodes w) \<longrightarrow> collapsed w a)"
      using v(3) m by blast
    then show "disp v m \<longleftrightarrow> disp w m \<and> (\<forall>a\<in>set as. collapsed w a)" using C [OF as] by blast
  qed
qed

section \<open>expandAll\<close>

lemma later_not_above:
  assumes fo: "forest_of s w fs" and pf: "parents_first w" and tn: "tnodes w = xs @ y # ys"
    and "m \<in> set xs" and t: "t \<in> set (fsubtrees fs)" "root t = y"
  shows "m \<notin> set (preorder t)"
proof
  assume mt: "m \<in> set (preorder t)"
  have mF: "m \<in> set (forder fs)" using forest_ofD(5) [OF fo] tn assms(4) by auto
  obtain as where as: "ancestors (fuel_of w) w m = Some as" "chain w m as"
    by (rule forest_of_ancestors [OF fo mF])
  have "y \<notin> set as" using pf as(1) assms(4) by (auto simp: parents_first_def tn sorted_wrt_append)
  moreover have "m \<noteq> y" using forest_ofD(4) [OF fo] tn assms(4) by auto
  ultimately show False using subtree_chain [OF fo t(1) mt as(2)] t(2) by blast
qed

lemma expand_each:
  "forest_of s w fs \<Longrightarrow> vis_inv w fs \<Longrightarrow> d_visible w \<Longrightarrow> parents_first w \<Longrightarrow> tnodes w = xs @ ys \<Longrightarrow>
    \<forall>m\<in>set xs. expanded w m \<Longrightarrow>
    \<exists>v. each (\<lambda>w1 n. node_expand s (fuel_of w1) w1 n) w ys = Returns v \<and>
      same_shape w v \<and> vis_inv v fs \<and> (\<forall>m\<in>set (xs @ ys). expanded v m)"
proof (induction ys arbitrary: w xs)
  case Nil
  then show ?case by simp
next
  case (Cons y ys)
  have yF: "y \<in> set (forder fs)" using forest_ofD(5) [OF Cons.prems(1)] Cons.prems(5) by auto
  obtain t where t: "t \<in> set (fsubtrees fs)" "root t = y" by (rule forest_subtree_at [OF yF])
  note sub = forest_of_subtree [OF Cons.prems(1) t(1)]
  obtain u where u: "node_expand s (fuel_of w) w (root t) = Returns u"
    "touches w (set (preorder t)) u" "expanded u (root t)"
    "disp u (root t) = disp w (root t)" "vis_inv w fs \<longrightarrow> d_visible w \<longrightarrow> vis_inv u fs"
    by (rule expand_in_forest [OF Cons.prems(1) t(1)])
  have sh: "same_shape w u" by (rule touches_shape [OF u(2)])
  have "expanded u m" if m: "m \<in> set (xs @ [y])" for m
  proof (cases "m = y")
    case False
    then have mx: "m \<in> set xs" using m by simp
    have "m \<in> set (forder fs)" using forest_ofD(5) [OF Cons.prems(1)] Cons.prems(5) mx by auto
    then have "inj_on (row_of w) (insert m (set (preorder t)))"
      by (intro inj_on_subset [OF forest_ofD(10) [OF Cons.prems(1)]]) (use sub(3) in auto)
    then show ?thesis
      using touches_outside(2) [OF u(2) later_not_above [OF Cons.prems(1,4,5) mx t]] Cons.prems(6) mx
      by blast
  qed (use u(3) t(2) in simp)
  moreover have "tnodes u = (xs @ [y]) @ ys" using same_shape_simps(8) [OF sh] Cons.prems(5) by simp
  ultimately obtain v where "each (\<lambda>w1 n. node_expand s (fuel_of w1) w1 n) u ys = Returns v"
    "same_shape u v" "vis_inv v fs" "\<forall>m\<in>set ((xs @ [y]) @ ys). expanded v m"
    using Cons.IH [OF forest_of_shape [OF sh Cons.prems(1)], of "xs @ [y]"] u(5) Cons.prems(2,3)
      same_shape_simps(11) [OF sh] parents_first_shape [OF sh Cons.prems(4)] by auto
  then show ?case using u(1) t(2) same_shape_trans [OF sh] by auto
qed

lemma expand_all_in_forest:
  assumes "forest_of s w fs" and "vis_inv w fs" and "d_visible w" and "parents_first w"
  obtains v where "tree_expand_all s w = Returns v" and "forest_of s v fs" and "vis_inv v fs"
    and "\<forall>n\<in>set (forder fs). expanded v n \<and> disp v n"
proof -
  obtain v where v: "tree_expand_all s w = Returns v" "same_shape w v" "vis_inv v fs"
    "\<forall>m\<in>set (tnodes w). expanded v m"
    using expand_each [OF assms, of "[]" "tnodes w"] by (auto simp: tree_expand_all_def)
  have fv: "forest_of s v fs" by (rule forest_of_shape [OF v(2) assms(1)])
  have ex: "\<forall>m\<in>set (forder fs). expanded v m" using v(4) forest_ofD(5) [OF assms(1)] by simp
  have "disp v n" if n: "n \<in> set (forder fs)" for n
  proof -
    obtain as where as: "chain v n as" by (rule forest_of_chain [OF fv n])
    have "set as \<subseteq> set (forder fs)"
      using chain_members [OF as] forest_ofD(8) [OF fv] by (auto simp: ran_def)
    then show ?thesis using displayed_chain [OF fv v(3) n as] ex by blast
  qed
  then show thesis using that [OF v(1) fv v(3)] ex by blast
qed

section \<open>expandNode\<close>

lemma vis_inv_looks: "looks w v \<Longrightarrow> vis_inv v fs = vis_inv w fs"
  by (simp add: vis_inv_def looks_simps)

text \<open>\<open>_initialize\<close> on a node of the table.\<close>

lemma initialize_in_forest:
  assumes fo: "forest_of s w fs" and t: "t \<in> set (fsubtrees fs)"
  obtains v where "node_initialize s (fuel_of w) w (root t) = Returns v" and "same_shape w v"
    and "n_initialized (heap v (root t))" and "vis_inv w fs \<longrightarrow> d_visible w \<longrightarrow> vis_inv v fs"
proof -
  let ?n = "root t"
  have nF: "?n \<in> set (forder fs)" using subsetD [OF forest_of_subtree(3) [OF fo t] root_in_preorder] .
  obtain w1 where w1: "render s w ?n = Returns w1" "touches w {?n} w1" "looks w w1"
    using render_returns [of w ?n s] forest_of_level [OF fo nF] by auto
  have sh1: "same_shape w w1" by (rule touches_shape [OF w1(2)])
  have f1: "forest_of s w1 fs" by (rule forest_of_shape [OF sh1 fo])
  have fu: "fuel_of w1 = fuel_of w" "d_visible w1 = d_visible w" by (rule same_shape_simps [OF sh1])+
  obtain w2 where w2: "(if expandable s \<and> initialState s = ''collapsed''
      then node_collapse s (fuel_of w) w1 ?n else node_expand s (fuel_of w) w1 ?n) = Returns w2"
    "same_shape w1 w2" "vis_inv w1 fs \<longrightarrow> d_visible w1 \<longrightarrow> vis_inv w2 fs"
  proof (cases "expandable s \<and> initialState s = ''collapsed''")
    case True
    obtain u where "node_collapse s (fuel_of w1) w1 ?n = Returns u" "touches w1 (set (preorder t)) u"
      "vis_inv w1 fs \<longrightarrow> vis_inv u fs"
      by (rule collapse_in_forest [OF f1 t])
    then show thesis using that [of u] True touches_shape fu(1) by simp
  next
    case False
    obtain u where "node_expand s (fuel_of w1) w1 ?n = Returns u" "touches w1 (set (preorder t)) u"
      "vis_inv w1 fs \<longrightarrow> d_visible w1 \<longrightarrow> vis_inv u fs"
      by (rule expand_in_forest [OF f1 t])
    then show thesis using that [of u] False touches_shape fu(1) by auto
  qed
  define w3 where "w3 = (if onNodeInitialized s then log_event w2 (NodeInitialized ?n) else w2)"
  define v where "v = upd_node w3 ?n (\<lambda>x. x\<lparr>n_initialized := True\<rparr>)"
  have l3: "looks w2 w3" by (simp add: w3_def looks_log)
  have "same_shape w3 v" using touches_shape [OF touches_upd_node] by (simp add: v_def)
  then have sh: "same_shape w v"
    using sh1 w2(2) l3 by (meson looks_def same_shape_trans)
  have d: "disp v m = disp w3 m" "expanded v m = expanded w3 m" "children v m = children w3 m" for m
    by (simp_all add: v_def disp_def expanded_def has_class_def)
  have "vis_inv v fs = vis_inv w3 fs" by (simp add: vis_inv_def vis_ok_def d)
  then have "vis_inv w fs \<longrightarrow> d_visible w \<longrightarrow> vis_inv v fs"
    using w2(3) fu(2) vis_inv_looks [OF w1(3)] vis_inv_looks [OF l3] by simp
  moreover have "node_initialize s (fuel_of w) w ?n = Returns v"
    using w1(1) w2(1) unfolding node_initialize_def initialize_via_def node_expand_def v_def w3_def Let_def
    by (simp only: and_then.simps)
  moreover have "n_initialized (heap v ?n)" by (simp add: v_def)
  ultimately show thesis using that sh by blast
qed

lemma expand_node_in_forest:
  assumes fo: "forest_of s w fs" and t: "t \<in> set (fsubtrees fs)" and td: "tdata w"
    and i: "tmap w (prop_key i) = Some (root t)"
  obtains v where "tt_expandNode s i w = Returns v" and "forest_of s v fs" and "same_shape w v"
    and "expanded v (root t)" and "vis_inv w fs \<longrightarrow> d_visible w \<longrightarrow> vis_inv v fs"
proof -
  let ?n = "root t"
  obtain w1 where w1: "(if \<not> n_initialized (heap w ?n) then node_initialize s (fuel_of w) w ?n
      else Returns w) = Returns w1" "same_shape w w1" "vis_inv w fs \<longrightarrow> d_visible w \<longrightarrow> vis_inv w1 fs"
  proof (cases "n_initialized (heap w ?n)")
    case True
    then show thesis using that [of w] by simp
  next
    case False
    obtain u where "node_initialize s (fuel_of w) w ?n = Returns u" "same_shape w u"
      "n_initialized (heap u ?n)" "vis_inv w fs \<longrightarrow> d_visible w \<longrightarrow> vis_inv u fs"
      by (rule initialize_in_forest [OF fo t])
    then show thesis using that [of u] False by simp
  qed
  have f1: "forest_of s w1 fs" by (rule forest_of_shape [OF w1(2) fo])
  obtain v where v: "node_expand s (fuel_of w1) w1 ?n = Returns v" "touches w1 (set (preorder t)) v"
    "expanded v ?n" "vis_inv w1 fs \<longrightarrow> d_visible w1 \<longrightarrow> vis_inv v fs"
    by (rule expand_in_forest [OF f1 t])
  have sh: "same_shape w v" by (rule same_shape_trans [OF w1(2) touches_shape [OF v(2)]])
  have "tt_expandNode s i w = Returns v"
    using td i w1(1) v(1) by (simp add: tt_expandNode_def with_node_def with_tree_def)
  then show thesis
    using that [OF _ forest_of_shape [OF sh fo] sh v(3)] v(4) w1(3) same_shape_simps(11) [OF w1(2)]
    by simp
qed

end
