(* ===== verification/Tree_Refinement.thy ===== *)
theory Tree_Refinement
  imports Forest_Names Tree_All
begin

text \<open>
  The abstract specification of a tree table: a forest of names. Every method call refines one
  operation on that forest, and which calls throw is decided by the names alone.
\<close>

section \<open>Calls of a page\<close>

text \<open>Node objects are nodes of the table, and the rows of \<open>loadBranch\<close> are new: they are not rows of
  the table's nodes, carry new ids, and name parents that are there. \<open>destroy\<close> and a forced \<open>init\<close> end
  what is described here.\<close>

definition new_rows :: "settings \<Rightarrow> world \<Rightarrow> rref list \<Rightarrow> bool" where
  "new_rows s w rs \<longleftrightarrow> distinct rs \<and> set rs \<inter> row_of w ` set (tnodes w) = {} \<and>
     loadable s w {k. tmap w k \<noteq> None} rs \<and> (\<forall>r\<in>set rs. row_data w r (nodeIdAttr s) \<noteq> None)"

fun allowed :: "ttable \<Rightarrow> tt_call \<Rightarrow> bool" where
  "allowed t (CallInit opts force) \<longleftrightarrow> \<not> force"
| "allowed t CallDestroy \<longleftrightarrow> False"
| "allowed t (CallLoadBranch None rs) \<longleftrightarrow> new_rows (t_settings t) (t_world t) rs"
| "allowed t (CallLoadBranch (Some n) rs) \<longleftrightarrow>
     n \<in> set (tnodes (t_world t)) \<and> new_rows (t_settings t) (t_world t) rs"
| "allowed t (CallSortBranch n a) \<longleftrightarrow> n \<in> set (tnodes (t_world t))"
| "allowed t (CallUnloadBranch n) \<longleftrightarrow> n \<in> set (tnodes (t_world t))"
| "allowed t (CallOther m) \<longleftrightarrow> m \<noteq> ''destroy''"
| "allowed t call \<longleftrightarrow> True"

section \<open>The specification\<close>

datatype spec_op =
    Keep
  | Hang string string
  | Remove string
  | Empty string
  | Reorder string "string \<Rightarrow> string \<Rightarrow> int"
  | Load "(string \<times> string option) list"

text \<open>The subtree with a name, if it is there.\<close>

definition subtree_at :: "'a \<Rightarrow> 'a rose list \<Rightarrow> 'a rose option" where
  "subtree_at k F = List.find (\<lambda>t. root t = k) (fsubtrees F)"

text \<open>A node is hung under another one as its last child, unless one of them is not there or the
  other one lies in the subtree of the node.\<close>

definition hang :: "'a \<Rightarrow> 'a \<Rightarrow> 'a rose list \<Rightarrow> 'a rose list" where
  "hang i j F =
     (case subtree_at i F of
        None \<Rightarrow> F
      | Some t \<Rightarrow>
          if j \<notin> set (forder F) \<or> j \<in> set (preorder t) then F else fgraft j t (fprune i F))"

fun spec_step :: "spec_op \<Rightarrow> string rose list \<Rightarrow> string rose list" where
  "spec_step Keep F = F"
| "spec_step (Hang i j) F = hang i j F"
| "spec_step (Remove i) F = fprune i F"
| "spec_step (Empty i) F = fclear i F"
| "spec_step (Reorder i c) F = map (resort c i) F"
| "spec_step (Load rs) F = foldl (\<lambda>G (k, p). add_leaf p k G) F rs"

section \<open>The abstraction\<close>

definition name_of :: "world \<Rightarrow> nref \<Rightarrow> string" where
  "name_of w n = prop_key (n_id (heap w n))"

definition names :: "world \<Rightarrow> nref rose list \<Rightarrow> string rose list" where
  "names w fs = frename (name_of w) fs"

text \<open>The name and the parent's name a row carries.\<close>

definition row_label :: "settings \<Rightarrow> world \<Rightarrow> rref \<Rightarrow> string \<times> string option" where
  "row_label s w r =
     (case row_data w r (nodeIdAttr s) of None \<Rightarrow> ''undefined'' | Some i \<Rightarrow> prop_key i,
      map_option prop_key (parent_id_of s w r))"

definition row_labels :: "settings \<Rightarrow> world \<Rightarrow> rref list \<Rightarrow> (string \<times> string option) list" where
  "row_labels s w rs =
     map (row_label s w) (filter (\<lambda>r. row_data w r (nodeIdAttr s) \<noteq> None) rs)"

text \<open>The operation a call stands for. A move under the parent whose id the node carries already
  is none.\<close>

fun spec_of :: "ttable \<Rightarrow> tt_call \<Rightarrow> spec_op" where
  "spec_of t (CallMove i j) =
     (let w = t_world t in
      case (tmap w (prop_key i), tmap w (prop_key j)) of
        (Some n, Some d) \<Rightarrow>
          if n_parentId (heap w n) = Some (n_id (heap w d)) then Keep
          else Hang (prop_key i) (prop_key j)
      | _ \<Rightarrow> Keep)"
| "spec_of t (CallRemoveNode i) = Remove (prop_key i)"
| "spec_of t (CallUnloadBranch n) = Empty (name_of (t_world t) n)"
| "spec_of t (CallSortBranch n a) =
     Reorder (name_of (t_world t) n)
       (\<lambda>x y. sort_comparator (t_settings t) (t_world t) a
         (the (tmap (t_world t) x)) (the (tmap (t_world t) y)))"
| "spec_of t (CallLoadBranch n rs) = Load (row_labels (t_settings t) (t_world t) rs)"
| "spec_of t (CallOther m) = (if m = ''removeNode'' then Remove ''undefined'' else Keep)"
| "spec_of t c = Keep"

text \<open>The names a call asks for: it throws when one of them is not there. A method that is called by
  its name alone asks for \<open>undefined\<close>.\<close>

fun asks :: "tt_call \<Rightarrow> string list" where
  "asks (CallCollapseNode i) = [prop_key i]"
| "asks (CallExpandNode i) = [prop_key i]"
| "asks (CallMove i j) = [prop_key i, prop_key j]"
| "asks (CallRemoveNode i) = [prop_key i]"
| "asks (CallReveal i) = [prop_key i]"
| "asks (CallOther m) =
     (if m \<in> {''collapseNode'', ''expandNode'', ''move'', ''removeNode'', ''reveal''} then [''undefined'']
      else [])"
| "asks c = []"

text \<open>Texts that cannot be called without arguments.\<close>

definition not_callable :: "string \<Rightarrow> bool" where
  "not_callable m \<longleftrightarrow>
     m \<notin> {'''', ''init'', ''destroy'', ''collapseAll'', ''collapseNode'', ''expandAll'', ''expandNode'',
       ''loadBranch'', ''move'', ''node'', ''removeNode'', ''reveal''} \<union> set inherited_quiet"

definition spec_throws :: "string rose list \<Rightarrow> tt_call \<Rightarrow> bool" where
  "spec_throws F c \<longleftrightarrow> \<not> set (asks c) \<subseteq> set (forder F) \<or> (\<exists>m. c = CallOther m \<and> not_callable m)"

section \<open>Names in a forest\<close>

lemma name_inj: "forest_of s w fs \<Longrightarrow> inj_on (name_of w) (set (forder fs))"
  using forest_key_inj by (auto simp: inj_on_def name_of_def)

lemma name_key: "forest_of s w fs \<Longrightarrow> tmap w k = Some n \<Longrightarrow> name_of w n = k \<and> n \<in> set (forder fs)"
  using forest_ofD(8,9) by (auto simp: name_of_def)

lemma key_name: "forest_of s w fs \<Longrightarrow> n \<in> set (forder fs) \<Longrightarrow> tmap w (name_of w n) = Some n"
  using forest_ofD(7) by (auto simp: name_of_def keyed_def)

lemma set_names: "set (forder (names w fs)) = name_of w ` set (forder fs)"
  by (simp add: names_def forder_map_rose)

lemma name_known: "forest_of s w fs \<Longrightarrow> k \<in> set (forder (names w fs)) \<longleftrightarrow> tmap w k \<noteq> None"
  using name_key key_name by (fastforce simp: set_names)

text \<open>Two states whose maps agree on a node call it the same.\<close>

lemma name_kept:
  assumes "forest_of s w fs" and "forest_of s v gs" and "n \<in> set (forder gs)"
    and "\<And>k. tmap v k = Some n \<Longrightarrow> tmap w k = Some n"
  shows "name_of v n = name_of w n"
  using name_key [OF assms(1) assms(4) [OF key_name [OF assms(2,3)]]] by simp

lemma names_kept:
  assumes "forest_of s w fs" and "forest_of s v gs"
    and "\<And>k n. tmap v k = Some n \<Longrightarrow> tmap w k = Some n"
  shows "names v gs = names w gs"
  unfolding names_def by (rule frename_cong) (rule name_kept [OF assms(1,2)], use assms(3) in auto)

lemma names_shape: "same_shape w v \<Longrightarrow> names v fs = names w fs"
  unfolding names_def by (rule frename_cong) (simp add: name_of_def same_shape_simps)

section \<open>What the methods do to the map from ids\<close>

lemma render_tmap: "render s w n = Returns v \<Longrightarrow> tmap v = tmap w"
  by (auto simp: render_def Let_def upd_node_def split: option.splits)

lemma each_tmap:
  assumes "\<And>w x v. body w x = Returns v \<Longrightarrow> tmap v = tmap w"
  shows "each body w xs = Returns v \<Longrightarrow> tmap v = tmap w"
  by (induction xs arbitrary: w) (auto simp: and_then_Returns_iff dest: assms)

lemma move_rows_tmap: "move_rows s f w n d = Returns v \<Longrightarrow> tmap v = tmap w"
proof (induction f arbitrary: w n d v)
  case (Suc f)
  obtain u where u: "render s (insert_after (row_of w n) (row_of w d) w) n = Returns u"
    "each (\<lambda>w c. move_rows s f w c n) u (rev (children w n)) = Returns v"
    using Suc.prems by (auto simp: and_then_Returns_iff)
  have "tmap v = tmap u" by (rule each_tmap [OF Suc.IH u(2)])
  then show ?case using render_tmap [OF u(1)] by (simp add: insert_after_def)
qed simp

lemma set_parent_tmap: "set_parent s w n d = Returns v \<Longrightarrow> tmap v = tmap w"
  by (auto simp: set_parent_def and_then_Returns_iff add_child_def upd_node_def set_row_data_def
      upd_row_def remove_child_def Let_def split: option.splits if_splits)

lemma update_class_tmap: "tmap (update_branch_leaf_class s w n) = tmap w"
  by (simp add: update_branch_leaf_class_def Let_def add_class_def remove_class_def upd_row_def)

lemma tree_move_tmap: "tree_move s w n d = Returns v \<Longrightarrow> tmap v = tmap w"
  by (auto simp: tree_move_def relocate_def and_then_Returns_iff Let_def update_class_tmap update_opt_def
      dest!: set_parent_tmap move_rows_tmap render_tmap split: if_splits option.splits)

lemma sort_branch_tmap: "tree_sort_branch s c w n = Returns v \<Longrightarrow> tmap v = tmap w"
  by (auto simp: tree_sort_branch_def Let_def upd_node_def dest!: move_rows_tmap)

lemma each_tmap_less:
  assumes "\<And>w x v k n. body w x = Returns v \<Longrightarrow> tmap v k = Some n \<Longrightarrow> tmap w k = Some n"
  shows "each body w xs = Returns v \<Longrightarrow> tmap v k = Some n \<Longrightarrow> tmap w k = Some n"
  by (induction xs arbitrary: w) (auto simp: and_then_Returns_iff dest: assms)

lemma drop_node_tmap: "drop_node w n = Returns v \<Longrightarrow> tmap v k = Some m \<Longrightarrow> tmap w k = Some m"
  by (auto simp: drop_node_def and_then_Returns_iff remove_child_def upd_node_def
      split: option.splits if_splits)

lemma unload_via_tmap:
  assumes "\<And>w x v k n. rm w x = Returns v \<Longrightarrow> tmap v k = Some n \<Longrightarrow> tmap w k = Some n"
    and "unload_via rm s w n = Returns v" and "tmap v k = Some m"
  shows "tmap w k = Some m"
proof -
  obtain u where u: "each rm w (children w n) = Returns u"
    "v = update_branch_leaf_class s (upd_node u n (\<lambda>x. x\<lparr>n_children := []\<rparr>)) n"
    using assms(2) by (auto simp: unload_via_def and_then_Returns_iff)
  have t: "tmap u k = Some m" using assms(3) by (simp add: u(2) update_class_tmap upd_node_def)
  show ?thesis by (rule each_tmap_less [OF assms(1) u(1) t])
qed

lemma remove_node_tmap: "remove_node s f w n = Returns v \<Longrightarrow> tmap v k = Some m \<Longrightarrow> tmap w k = Some m"
proof (induction f arbitrary: w n v k m)
  case (Suc f)
  obtain u where u: "unload_via (remove_node s f) s w n = Returns u" "drop_node (detach_row u n) n = Returns v"
    using Suc.prems by (auto simp: and_then_Returns_iff)
  have t: "tmap u k = Some m"
    using drop_node_tmap [OF u(2) Suc.prems(2)] by (simp add: detach_row_def remove_row_def upd_row_def upd_node_def)
  show ?case by (rule unload_via_tmap [OF Suc.IH u(1) t])
qed simp

lemma unload_branch_tmap:
  "unload_branch s f w n = Returns v \<Longrightarrow> tmap v k = Some m \<Longrightarrow> tmap w k = Some m"
  unfolding unload_branch_def by (rule unload_via_tmap [OF remove_node_tmap])

section \<open>The operations on names\<close>

lemma find_unique:
  assumes "y \<in> set xs" and "P y" and "\<And>x. x \<in> set xs \<Longrightarrow> P x \<Longrightarrow> x = y"
  shows "List.find P xs = Some y"
  using assms
proof (induction xs)
  case (Cons a xs)
  show ?case
  proof (cases "P a")
    case True
    then have "a = y" by (intro Cons.prems(3)) simp_all
    then show ?thesis using True by simp
  next
    case False
    then have "y \<in> set xs" using Cons.prems(1,2) by auto
    then have "List.find P xs = Some y" using Cons.prems(2,3) by (intro Cons.IH) simp_all
    then show ?thesis using False by simp
  qed
qed simp

lemma subtree_at_names:
  assumes fo: "forest_of s w fs" and t: "t \<in> set (fsubtrees fs)"
  shows "subtree_at (name_of w (root t)) (names w fs) = Some (map_rose (name_of w) t)"
  unfolding subtree_at_def names_def fsubtrees_frename
proof (rule find_unique)
  fix x assume "x \<in> set (frename (name_of w) (fsubtrees fs))" and "root x = name_of w (root t)"
  then obtain u where u: "u \<in> set (fsubtrees fs)" "x = map_rose (name_of w) u"
    "name_of w (root u) = name_of w (root t)" by auto
  have "root u \<in> set (forder fs)" "root t \<in> set (forder fs)"
    using fsubtree_forder [OF u(1)] fsubtree_forder [OF t] root_in_preorder by blast+
  then have "root u = root t" using inj_onD [OF name_inj [OF fo] u(3)] by blast
  then show "x = map_rose (name_of w) t"
    using fsubtree_root_unique [OF forest_ofD(3) [OF fo] u(1) t] u(2) by simp
qed (use t in auto)

lemma name_inj_insert:
  "forest_of s w fs \<Longrightarrow> a \<in> set (forder fs) \<Longrightarrow> inj_on (name_of w) (insert a (set (forder fs)))"
  using name_inj by (simp add: insert_absorb)

lemma names_prune:
  assumes fo: "forest_of s w fs" and t: "t \<in> set (fsubtrees fs)"
  shows "fprune (name_of w (root t)) (names w fs) = names w (fprune (root t) fs)"
proof -
  have "root t \<in> set (forder fs)" using fsubtree_forder [OF t] root_in_preorder by blast
  then show ?thesis unfolding names_def by (rule fprune_frename [OF name_inj_insert [OF fo]])
qed

lemma hang_names:
  assumes fo: "forest_of s w fs" and t: "t \<in> set (fsubtrees fs)" and d: "d \<in> set (forder fs)"
  shows "hang (name_of w (root t)) (name_of w d) (names w fs) =
    (if d \<in> set (preorder t) then names w fs else names w (fgraft d t (fprune (root t) fs)))"
proof -
  note inj = name_inj [OF fo]
  have sub: "set (preorder t) \<subseteq> set (forder fs)" by (rule fsubtree_forder [OF t])
  have "name_of w d \<in> name_of w ` set (preorder t) \<longleftrightarrow> d \<in> set (preorder t)"
    using inj_on_image_mem_iff [OF inj d sub] .
  moreover have "fgraft (name_of w d) (map_rose (name_of w) t) (names w (fprune (root t) fs)) =
      names w (fgraft d t (fprune (root t) fs))"
    unfolding names_def
  proof (rule fgraft_frename)
    have "set (forder (fprune (root t) fs)) \<subseteq> set (forder fs)"
      by (auto simp: forder_fprune [OF forest_ofD(3) [OF fo] t])
    then show "inj_on (name_of w) (insert d (set (forder (fprune (root t) fs))))"
      using d by (intro inj_on_subset [OF inj]) auto
  qed
  ultimately show ?thesis
    using d subtree_at_names [OF fo t] names_prune [OF fo t]
    by (simp add: hang_def set_names preorder_map_rose)
qed

lemma names_clear:
  assumes fo: "forest_of s w fs" and t: "t \<in> set (fsubtrees fs)"
  shows "fclear (name_of w (root t)) (names w fs) = names w (fclear (root t) fs)"
proof -
  have "root t \<in> set (forder fs)" using fsubtree_forder [OF t] root_in_preorder by blast
  then show ?thesis unfolding names_def by (rule fclear_frename [OF name_inj_insert [OF fo]])
qed

lemma names_resort:
  assumes fo: "forest_of s w fs" and n: "n \<in> set (forder fs)"
  shows "map (resort (\<lambda>x y. c (the (tmap w x)) (the (tmap w y))) (name_of w n)) (names w fs) =
    names w (map (resort c n) fs)"
  unfolding names_def
  by (rule fresort_frename [OF _ name_inj_insert [OF fo n]]) (simp add: key_name [OF fo])

lemma names_add_leaf:
  assumes fo: "forest_of s w fs" and q: "\<And>m. q = Some m \<Longrightarrow> m \<in> set (forder fs)"
    and same: "\<And>m. m \<in> set (forder fs) \<Longrightarrow> name_of v m = name_of w m"
  shows "names v (add_leaf q n fs) = add_leaf (map_option (name_of w) q) (name_of v n) (names w fs)"
proof -
  have old: "frename (name_of v) fs = frename (name_of w) fs" by (rule frename_cong) (rule same)
  show ?thesis
  proof (cases q)
    case (Some m)
    have m: "m \<in> set (forder fs)" by (rule q [OF Some])
    have "inj_on (name_of v) (set (forder fs))"
      using name_inj [OF fo] by (simp add: same inj_on_def)
    then have "fgraft (name_of v m) (map_rose (name_of v) (Rose n [])) (frename (name_of v) fs) =
        frename (name_of v) (fgraft m (Rose n []) fs)"
      using m by (intro fgraft_frename) (simp add: insert_absorb)
    then show ?thesis by (simp add: Some names_def add_leaf_def old same [OF m])
  qed (simp add: names_def add_leaf_def old)
qed

section \<open>Loading rows\<close>

lemma load_rows_names:
  assumes "forest_of s w fs" and "\<And>k. k \<in> K \<longleftrightarrow> tmap w k \<noteq> None" and "loadable s w K rs"
    and "distinct rs" and "set rs \<subseteq> set (d_order w)" and "set rs \<inter> row_of w ` set (forder fs) = {}"
  shows "\<exists>gs. forest_of s (foldl (load_row s) w rs) gs \<and>
    names (foldl (load_row s) w rs) gs = spec_step (Load (row_labels s w rs)) (names w fs)"
  using assms
proof (induction rs arbitrary: w fs K)
  case (Cons r rs)
  show ?case
  proof (cases "row_data w r (nodeIdAttr s)")
    case None
    then have "load_row s w r = w" by (simp add: load_row_def)
    then show ?thesis
      using Cons.IH [OF Cons.prems(1,2)] Cons.prems(3-6) None by (simp add: row_labels_def)
  next
    case (Some i)
    note i = Some
    let ?v = "load_row s w r" and ?n = "nextn w"
    have new: "tmap w (prop_key i) = None" using Cons.prems(2,3) i by auto
    have par: "tmap w (prop_key p) \<noteq> None" if "parent_id_of s w r = Some p" for p
      using Cons.prems(2,3) i that by auto
    have rd: "r \<in> set (d_order w)" and rn: "r \<notin> row_of w ` set (forder fs)"
      using Cons.prems(5,6) by auto
    define q where "q = (case parent_id_of s w r of None \<Rightarrow> None | Some p \<Rightarrow> tmap w (prop_key p))"
    define gs where "gs = add_leaf q ?n fs"
    have fv: "forest_of s ?v gs"
      unfolding gs_def q_def by (rule load_row_forest [OF Cons.prems(1) i new rd rn par])
    note nv = load_row_nodes [OF Cons.prems(1) i new par]
    have old: "set (tnodes w) = set (forder fs)" by (rule forest_ofD(5) [OF Cons.prems(1)])
    have "set (forder gs) = insert ?n (set (forder fs))"
      using forest_ofD(5) [OF fv] old nv(5) by simp
    then have img: "row_of ?v ` set (forder gs) = insert r (row_of w ` set (forder fs))"
      using nv(1,2) old by auto
    have pq: "map_option (name_of w) q = map_option prop_key (parent_id_of s w r)"
      using par name_key [OF Cons.prems(1)] by (auto simp: q_def split: option.split)
    have "names ?v gs = add_leaf (map_option (name_of w) q) (name_of ?v ?n) (names w fs)"
      unfolding gs_def
    proof (rule names_add_leaf [OF Cons.prems(1)])
      show "m \<in> set (forder fs)" if "q = Some m" for m
        using that forest_ofD(8) [OF Cons.prems(1)] by (auto simp: q_def split: option.splits)
      show "name_of ?v m = name_of w m" if "m \<in> set (forder fs)" for m
        using nv(1) that old by (simp add: name_of_def)
    qed
    then have step: "names ?v gs = add_leaf (snd (row_label s w r)) (fst (row_label s w r)) (names w fs)"
      using nv(3) i by (simp add: pq row_label_def name_of_def)
    have data: "row_data ?v x k = row_data w x k" for x k using nv(7) by (simp add: same_rows_def)
    have label: "row_label s ?v = row_label s w"
      by (rule ext) (simp add: row_label_def data parent_id_same_rows [OF nv(7)])
    have "\<exists>hs. forest_of s (foldl (load_row s) ?v rs) hs \<and> names (foldl (load_row s) ?v rs) hs =
        spec_step (Load (row_labels s ?v rs)) (names ?v gs)"
    proof (rule Cons.IH [OF fv, of "insert (prop_key i) K"])
      show "k \<in> insert (prop_key i) K \<longleftrightarrow> tmap ?v k \<noteq> None" for k
        using Cons.prems(2) by (auto simp: nv(6))
      show "loadable s ?v (insert (prop_key i) K) rs"
        using Cons.prems(3) i by (simp add: loadable_same_rows [OF nv(7)])
      show "set rs \<inter> row_of ?v ` set (forder gs) = {}"
        using Cons.prems(4,6) by (auto simp: img)
      show "set rs \<subseteq> set (d_order ?v)" using Cons.prems(5) nv(7) by (simp add: same_rows_def)
    qed (use Cons.prems(4) in simp)
    then show ?thesis by (simp add: row_labels_def data label step i split_beta)
  qed
qed (auto simp: row_labels_def)

section \<open>Every method refines its operation\<close>

text \<open>A method run on a state, against whether it throws and the forest it leaves.\<close>

definition refines :: "settings \<Rightarrow> world outcome \<Rightarrow> bool \<Rightarrow> string rose list \<Rightarrow> bool" where
  "refines s r b F \<longleftrightarrow>
     (\<exists>v gs. (if b then \<exists>e. r = Throws e v else r = Returns v) \<and> forest_of s v gs \<and>
        F = names v gs \<and> tdata v)"

lemma refines_shape:
  assumes "forest_of s w fs" and "tdata w" and "r = Returns v" and "same_shape w v"
  shows "refines s r False (names w fs)"
  unfolding refines_def
  using assms(2,3) forest_of_shape [OF assms(4,1)] names_shape [OF assms(4)] same_shape_simps(12) [OF assms(4)]
  by (intro exI [of _ v] exI [of _ fs]) simp

lemma refines_unknown:
  assumes fo: "forest_of s w fs" and td: "tdata w"
    and known: "\<And>n. tmap w (prop_key i) = Some n \<Longrightarrow> n \<in> set (forder fs) \<Longrightarrow> refines s (k n) False F"
    and unknown: "prop_key i \<notin> set (forder (names w fs)) \<Longrightarrow> F = names w fs"
  shows "refines s (with_node w i k) (prop_key i \<notin> set (forder (names w fs))) F"
proof (cases "tmap w (prop_key i)")
  case None
  then have "prop_key i \<notin> set (forder (names w fs))" using name_known [OF fo] by simp
  then show ?thesis
    using None td fo unknown by (auto simp: refines_def with_node_def with_tree_def)
next
  case (Some n)
  then show ?thesis
    using known forest_ofD(8) [OF fo] name_known [OF fo] td by (simp add: with_node_def with_tree_def)
qed

lemma collapse_shape:
  assumes "forest_of s w fs" and "n \<in> set (forder fs)"
  shows "\<exists>v. node_collapse s (fuel_of w) w n = Returns v \<and> same_shape w v"
proof -
  obtain t where t: "t \<in> set (fsubtrees fs)" "root t = n" by (rule forest_subtree_at [OF assms(2)])
  obtain v where "node_collapse s (fuel_of w) w (root t) = Returns v" "touches w (set (preorder t)) v"
    by (rule collapse_in_forest [OF assms(1) t(1)])
  then show ?thesis using t(2) touches_shape by blast
qed

lemma expand_shape:
  assumes "forest_of s w fs" and "n \<in> set (forder fs)"
  shows "\<exists>v. node_expand s (fuel_of w) w n = Returns v \<and> same_shape w v"
proof -
  obtain t where t: "t \<in> set (fsubtrees fs)" "root t = n" by (rule forest_subtree_at [OF assms(2)])
  obtain v where "node_expand s (fuel_of w) w (root t) = Returns v" "touches w (set (preorder t)) v"
    by (rule expand_in_forest [OF assms(1) t(1)])
  then show ?thesis using t(2) touches_shape by blast
qed

lemma reveal_shape:
  "forest_of s w fs \<Longrightarrow> n \<in> set (forder fs) \<Longrightarrow> chain w n as \<Longrightarrow> length as < f \<Longrightarrow>
    \<exists>v. node_reveal s f w n = Returns v \<and> same_shape w v"
proof (induction as arbitrary: n f)
  case Nil
  obtain g where f: "f = Suc g" using Nil.prems(4) by (cases f) auto
  have "n_parentId (heap w n) = None"
    using forest_parent_child [OF Nil.prems(1,2)] Nil.prems(3) forest_ofD(2) [OF Nil.prems(1)] by auto
  then show ?case using expand_shape [OF Nil.prems(1,2)] by (auto simp: f)
next
  case (Cons p as)
  obtain g where f: "f = Suc g" using Cons.prems(4) by (cases f) auto
  have pn: "parent_node w n = Some p" "chain w p as" using Cons.prems(3) by auto
  then have pid: "n_parentId (heap w n) \<noteq> None" by (auto simp: parent_node_def split: option.splits)
  have p: "p \<in> set (forder fs)" using forest_parent_child [OF Cons.prems(1,2)] pn by auto
  obtain u where u: "node_reveal s g w p = Returns u" "same_shape w u"
    using Cons.IH [OF Cons.prems(1) p pn(2), of g] Cons.prems(4) f by auto
  obtain v where "node_expand s (fuel_of u) u n = Returns v" "same_shape u v"
    using expand_shape [OF forest_of_shape [OF u(2) Cons.prems(1)] Cons.prems(2)] by blast
  then show ?case using u pn pid f same_shape_trans [OF u(2)] by auto
qed

lemma each_shape:
  assumes fo: "forest_of s w fs" and "set ns \<subseteq> set (forder fs)"
    and "\<And>x n. forest_of s x fs \<Longrightarrow> n \<in> set (forder fs) \<Longrightarrow> \<exists>v. body x n = Returns v \<and> same_shape x v"
  shows "\<exists>v. each body w ns = Returns v \<and> same_shape w v"
proof (rule each_invariant)
  fix n and x :: world assume "n \<in> set ns" and x: "same_shape w x"
  then have "n \<in> set (forder fs)" using assms(2) by blast
  then obtain v where "body x n = Returns v" "same_shape x v"
    using assms(3) [OF forest_of_shape [OF x fo]] by blast
  then show "\<exists>v. body x n = Returns v \<and> same_shape w v" using same_shape_trans [OF x] by blast
qed simp

lemma refines_all:
  assumes fo: "forest_of s w fs" and td: "tdata w"
  shows "refines s (tt_collapseAll s w) False (names w fs)"
    and "refines s (tt_expandAll s w) False (names w fs)"
proof -
  have ns: "set (tnodes w) \<subseteq> set (forder fs)" using forest_ofD(5) [OF fo] by simp
  have "\<exists>v. each (\<lambda>x n. node_collapse s (fuel_of x) x n) w (tnodes w) = Returns v \<and> same_shape w v"
    by (rule each_shape [OF fo ns]) (rule collapse_shape)
  then obtain v where "tt_collapseAll s w = Returns v" "same_shape w v"
    using td by (auto simp: tt_collapseAll_def with_tree_def tree_collapse_all_def)
  then show "refines s (tt_collapseAll s w) False (names w fs)" by (rule refines_shape [OF fo td])
  have "\<exists>v. each (\<lambda>x n. node_expand s (fuel_of x) x n) w (tnodes w) = Returns v \<and> same_shape w v"
    by (rule each_shape [OF fo ns]) (rule expand_shape)
  then obtain u where "tt_expandAll s w = Returns u" "same_shape w u"
    using td by (auto simp: tt_expandAll_def with_tree_def tree_expand_all_def)
  then show "refines s (tt_expandAll s w) False (names w fs)" by (rule refines_shape [OF fo td])
qed

lemma refines_display:
  assumes fo: "forest_of s w fs" and td: "tdata w"
  shows "refines s (tt_collapseNode s i w) (prop_key i \<notin> set (forder (names w fs))) (names w fs)"
    and "refines s (tt_expandNode s i w) (prop_key i \<notin> set (forder (names w fs))) (names w fs)"
    and "refines s (tt_reveal s i w) (prop_key i \<notin> set (forder (names w fs))) (names w fs)"
proof -
  show "refines s (tt_collapseNode s i w) (prop_key i \<notin> set (forder (names w fs))) (names w fs)"
    unfolding tt_collapseNode_def
  proof (rule refines_unknown [OF fo td])
    fix n assume "n \<in> set (forder fs)"
    then show "refines s (node_collapse s (fuel_of w) w n) False (names w fs)"
      using collapse_shape [OF fo] refines_shape [OF fo td] by blast
  qed simp
  show "refines s (tt_reveal s i w) (prop_key i \<notin> set (forder (names w fs))) (names w fs)"
    unfolding tt_reveal_def
  proof (rule refines_unknown [OF fo td])
    fix n assume n: "n \<in> set (forder fs)"
    obtain as where as: "chain w n as" by (rule forest_of_chain [OF fo n])
    show "refines s (node_reveal s (fuel_of w) w n) False (names w fs)"
      using reveal_shape [OF fo n as chain_length [OF fo as]] refines_shape [OF fo td] by blast
  qed simp
  show "refines s (tt_expandNode s i w) (prop_key i \<notin> set (forder (names w fs))) (names w fs)"
  proof (cases "tmap w (prop_key i)")
    case None
    then show ?thesis unfolding tt_expandNode_def by (intro refines_unknown [OF fo td]) simp_all
  next
    case (Some n)
    obtain t where t: "t \<in> set (fsubtrees fs)" "root t = n"
      by (rule forest_subtree_at [OF forest_ofD(8) [OF fo Some]])
    obtain v where v: "tt_expandNode s i w = Returns v" "same_shape w v"
      by (rule expand_node_in_forest [OF fo t(1) td Some [folded t(2)]])
    have "prop_key i \<in> set (forder (names w fs))" using Some name_known [OF fo] by simp
    then show ?thesis using refines_shape [OF fo td v] by simp
  qed
qed

lemma refines_remove:
  assumes fo: "forest_of s w fs" and td: "tdata w"
  shows "refines s (tt_removeNode s i w) (prop_key i \<notin> set (forder (names w fs)))
    (fprune (prop_key i) (names w fs))"
proof (cases "tmap w (prop_key i)")
  case None
  then show ?thesis
    unfolding tt_removeNode_def by (intro refines_unknown [OF fo td]) (simp_all add: fprune_absent)
next
  case (Some n)
  obtain t where t: "t \<in> set (fsubtrees fs)" "root t = n"
    by (rule forest_subtree_at [OF forest_ofD(8) [OF fo Some]])
  obtain v E where v: "remove_node s (fuel_of w) w (root t) = Returns v"
    "forest_of s v (fprune (root t) fs)" "gone w (set (preorder t)) E v"
    by (rule remove_in_forest [OF fo t(1)])
  have "names v (fprune (root t) fs) = names w (fprune (root t) fs)"
    by (rule names_kept [OF fo v(2)]) (rule remove_node_tmap [OF v(1)])
  moreover have "name_of w (root t) = prop_key i" using name_key [OF fo Some] t(2) by simp
  ultimately have F: "fprune (prop_key i) (names w fs) = names v (fprune (root t) fs)"
    using names_prune [OF fo t(1)] by simp
  have "tt_removeNode s i w = Returns v"
    using v(1) Some t(2) td by (simp add: tt_removeNode_def with_node_def with_tree_def)
  moreover have "prop_key i \<in> set (forder (names w fs))" using Some name_known [OF fo] by simp
  ultimately show ?thesis
    unfolding refines_def F using v(2) goneD(11) [OF v(3)] td by auto
qed

lemma refines_move:
  assumes fo: "forest_of s w fs" and td: "tdata w" and ap: "nodeIdAttr s \<noteq> parentIdAttr s"
    and n: "tmap w (prop_key i) = Some n" and d: "tmap w (prop_key j) = Some d"
  shows "refines s (tt_move s i j w) False
    (if n_parentId (heap w n) = Some (n_id (heap w d)) then names w fs
     else hang (prop_key i) (prop_key j) (names w fs))"
proof -
  obtain t where t: "t \<in> set (fsubtrees fs)" "root t = n"
    by (rule forest_subtree_at [OF forest_ofD(8) [OF fo n]])
  have dF: "d \<in> set (forder fs)" by (rule forest_ofD(8) [OF fo d])
  have mv: "tt_move s i j w = tree_move s w (root t) d"
    using n d t(2) td by (simp add: tt_move_def with_tree_def)
  have nm: "name_of w (root t) = prop_key i" "name_of w d = prop_key j"
    using name_key [OF fo n] name_key [OF fo d] t(2) by auto
  note h = hang_names [OF fo t(1) dF, unfolded nm]
  show ?thesis
  proof (cases "d \<in> set (preorder t) \<or> n_parentId (heap w (root t)) = Some (n_id (heap w d))")
    case True
    obtain v where v: "tree_move s w (root t) d = Returns v" "relabels w v"
      by (rule tree_move_rejected [OF fo t(1) dF True])
    have "refines s (tt_move s i j w) False (names w fs)"
      by (rule refines_shape [OF fo td]) (use v mv in \<open>auto simp: relabels_def\<close>)
    then show ?thesis using True h t(2) by auto
  next
    case False
    then have dt: "d \<notin> set (preorder t)" and
      new: "n_parentId (heap w (root t)) \<noteq> Some (n_id (heap w d))" by auto
    let ?gs = "fgraft d t (fprune (root t) fs)"
    obtain v where v: "tree_move s w (root t) d = Returns v" "forest_of s v ?gs" "tdata v = tdata w"
      by (rule tree_move_in_forest [OF fo t(1) dF dt ap new]) blast
    have "names v ?gs = names w ?gs"
      by (rule names_kept [OF fo v(2)]) (simp add: tree_move_tmap [OF v(1)])
    then show ?thesis
      unfolding refines_def using v td h dt new t(2) mv by (intro exI [of _ v] exI [of _ ?gs]) simp
  qed
qed

lemma refines_sort:
  assumes fo: "forest_of s w fs" and td: "tdata w" and n: "n \<in> set (tnodes w)"
  shows "refines s (tt_sortBranch s n a w) False
    (map (resort (\<lambda>x y. sort_comparator s w a (the (tmap w x)) (the (tmap w y))) (name_of w n)) (names w fs))"
proof -
  let ?c = "sort_comparator s w a"
  have nF: "n \<in> set (forder fs)" using n forest_ofD(5) [OF fo] by simp
  obtain t where t: "t \<in> set (fsubtrees fs)" "root t = n" by (rule forest_subtree_at [OF nF])
  obtain v where v: "tree_sort_branch s ?c w (root t) = Returns v"
    "forest_of s v (map (resort ?c (root t)) fs)" "tdata v = tdata w"
    by (rule sort_in_forest [OF fo t(1)]) blast
  have "names v (map (resort ?c n) fs) = names w (map (resort ?c n) fs)"
    using v(2) t(2) by (intro names_kept [OF fo]) (auto simp: sort_branch_tmap [OF v(1)])
  then show ?thesis
    unfolding refines_def names_resort [OF fo nF] using v t(2) td
    by (intro exI [of _ v] exI [of _ "map (resort ?c n) fs"]) (simp add: tt_sortBranch_def with_tree_def)
qed

lemma refines_unload:
  assumes fo: "forest_of s w fs" and td: "tdata w" and n: "n \<in> set (tnodes w)"
  shows "refines s (tt_unloadBranch s n w) False (fclear (name_of w n) (names w fs))"
proof -
  have nF: "n \<in> set (forder fs)" using n forest_ofD(5) [OF fo] by simp
  obtain t where t: "t \<in> set (fsubtrees fs)" "root t = n" by (rule forest_subtree_at [OF nF])
  obtain v where v: "unload_branch s (fuel_of w) w (root t) = Returns v"
    "forest_of s v (fclear (root t) fs)" "tdata v = tdata w"
    by (rule unload_in_forest [OF fo t(1)]) blast
  have "names v (fclear (root t) fs) = names w (fclear (root t) fs)"
    by (rule names_kept [OF fo v(2)]) (rule unload_branch_tmap [OF v(1)])
  then show ?thesis
    unfolding refines_def using v t(2) td names_clear [OF fo t(1)]
    by (intro exI [of _ v] exI [of _ "fclear n fs"]) (simp add: tt_unloadBranch_def with_tree_def)
qed

lemma refines_loaded:
  assumes fo: "forest_of s w fs" and fv: "forest_of s v hs" and new: "new_rows s w rs"
    and sv: "same_shape (foldl (load_row s) (w\<lparr>d_order := d_order v\<rparr>) rs) v"
    and r: "r = Returns v" "tdata v" "set rs \<subseteq> set (d_order v)"
      "row_of w ` set (forder fs) \<subseteq> set (d_order v)"
  shows "refines s r False (spec_step (Load (row_labels s w rs)) (names w fs))"
proof -
  let ?x = "w\<lparr>d_order := d_order v\<rparr>"
  have fx: "forest_of s ?x fs" by (rule forest_of_reorder [OF fo forest_ofD(11) [OF fv] r(4)])
  have "row_labels s ?x rs = row_labels s w rs"
    by (simp add: row_labels_def row_label_def parent_id_of_def cong: option.case_cong)
  moreover have "names ?x fs = names w fs" unfolding names_def by (rule frename_cong) (simp add: name_of_def)
  moreover have "\<exists>gs. forest_of s (foldl (load_row s) ?x rs) gs \<and>
      names (foldl (load_row s) ?x rs) gs = spec_step (Load (row_labels s ?x rs)) (names ?x fs)"
  proof (rule load_rows_names [OF fx, of "{k. tmap w k \<noteq> None}"])
    show "set rs \<inter> row_of ?x ` set (forder fs) = {}"
      using new forest_ofD(5) [OF fo] by (simp add: new_rows_def)
  qed (use new r(3) in \<open>simp_all add: new_rows_def\<close>)
  ultimately obtain gs where gs: "forest_of s (foldl (load_row s) ?x rs) gs"
    "names (foldl (load_row s) ?x rs) gs = spec_step (Load (row_labels s w rs)) (names w fs)" by auto
  show ?thesis
    unfolding refines_def using r(1,2) forest_of_shape [OF sv gs(1)] gs(2) names_shape [OF sv, of gs]
    by (intro exI [of _ v] exI [of _ gs]) simp
qed

lemma refines_load:
  assumes fo: "forest_of s w fs" and td: "tdata w" and new: "new_rows s w rs"
    and n: "\<And>m. n = Some m \<Longrightarrow> m \<in> set (tnodes w)"
  shows "refines s (tt_loadBranch s n rs w) False (spec_step (Load (row_labels s w rs)) (names w fs))"
proof -
  have r: "distinct rs" "set rs \<inter> row_of w ` set (forder fs) = {}"
    "loadable s w {k. tmap w k \<noteq> None} rs" "\<forall>r\<in>set rs. row_data w r (nodeIdAttr s) \<noteq> None"
    using new forest_ofD(5) [OF fo] by (auto simp: new_rows_def)
  have rows: "row_of w ` set (forder fs) \<subseteq> set (d_order w)" using forest_ofD(12) [OF fo] by auto
  show ?thesis
  proof (cases n)
    case None
    obtain v gs where v: "tt_loadBranch s None rs w = Returns v" "forest_of s v gs" "tdata v"
      "same_shape (foldl (load_row s) (w\<lparr>d_order := d_order v\<rparr>) rs) v"
      "d_order v = filter (\<lambda>x. x \<notin> set rs) (d_order w) @ rs"
      by (rule load_roots_in_forest [OF fo td r])
    show ?thesis
      unfolding None
      by (rule refines_loaded [OF fo v(2) new v(4,1,3)]) (use rows v(5) in auto)
  next
    case (Some m)
    have mF: "m \<in> set (forder fs)" using n [OF Some] forest_ofD(5) [OF fo] by simp
    obtain t where t: "t \<in> set (fsubtrees fs)" "root t = m" by (rule forest_subtree_at [OF mF])
    obtain v gs where v: "tt_loadBranch s (Some (root t)) rs w = Returns v" "forest_of s v gs" "tdata v"
      "same_shape (foldl (load_row s) (w\<lparr>d_order := d_order v\<rparr>) rs) v"
      "d_order v = block_behind (row_of w (last (preorder t))) rs (d_order w)"
      by (rule load_branch_in_forest [OF fo t(1) td r])
    have "set (d_order v) = set (d_order w) \<union> set rs"
      using insert_branch_rows_eq(4) [OF fo t(1) r(2,1)] v(5) by simp
    then show ?thesis
      unfolding Some using t(2) rows
      by (intro refines_loaded [OF fo v(2) new v(4)]) (use v(1,3) in auto)
  qed
qed

section \<open>Calls\<close>

text \<open>\<open>shows_forest t F\<close>: the table has its tree, and it represents the forest of names \<open>F\<close>.\<close>

definition shows_forest :: "ttable \<Rightarrow> string rose list \<Rightarrow> bool" where
  "shows_forest t F \<longleftrightarrow> tdata (t_world t) \<and> nodeIdAttr (t_settings t) \<noteq> parentIdAttr (t_settings t) \<and>
     (\<exists>fs. forest_of (t_settings t) (t_world t) fs \<and> F = names (t_world t) fs)"

definition refined :: "ttable outcome \<Rightarrow> bool \<Rightarrow> string rose list \<Rightarrow> bool" where
  "refined r b F \<longleftrightarrow> (\<exists>u. (if b then \<exists>e. r = Throws e u else r = Returns u) \<and> shows_forest u F)"

lemma on_world_refined:
  assumes "shows_forest t F" and "refines (t_settings t) (f (t_settings t) (t_world t)) b G"
  shows "refined (on_world f t) b G"
proof -
  obtain v gs where v: "if b then \<exists>e. f (t_settings t) (t_world t) = Throws e v
      else f (t_settings t) (t_world t) = Returns v"
    "forest_of (t_settings t) v gs" "G = names v gs" "tdata v"
    using assms(2) unfolding refines_def by blast
  then have "shows_forest (t\<lparr>t_world := v\<rparr>) G" using assms(1) by (auto simp: shows_forest_def)
  then show ?thesis using v(1) by (cases b) (auto simp: refined_def on_world_def)
qed

lemma method_refined:
  assumes sh: "shows_forest t F" and al: "allowed t c" and no: "\<nexists>m. c = CallOther m"
  shows "refined (treetable c t) (spec_throws F c) (spec_step (spec_of t c) F)"
proof -
  let ?s = "t_settings t" and ?w = "t_world t"
  obtain fs where fo: "forest_of ?s ?w fs" and F: "F = names ?w fs"
    using sh by (auto simp: shows_forest_def)
  have td: "tdata ?w" and ap: "nodeIdAttr ?s \<noteq> parentIdAttr ?s" using sh by (auto simp: shows_forest_def)
  note lift = on_world_refined [OF sh]
  show ?thesis
  proof (cases c)
    case (CallInit opts force)
    then show ?thesis using al td sh by (simp add: tt_init_def refined_def spec_throws_def)
  next
    case CallDestroy
    then show ?thesis using al by simp
  next
    case CallCollapseAll
    then show ?thesis using lift [of "tt_collapseAll", OF refines_all(1) [OF fo td]] by (simp add: spec_throws_def F)
  next
    case (CallCollapseNode i)
    then show ?thesis using lift [of "\<lambda>s. tt_collapseNode s i", OF refines_display(1) [OF fo td]] by (simp add: spec_throws_def F)
  next
    case CallExpandAll
    then show ?thesis using lift [of "tt_expandAll", OF refines_all(2) [OF fo td]] by (simp add: spec_throws_def F)
  next
    case (CallExpandNode i)
    then show ?thesis using lift [of "\<lambda>s. tt_expandNode s i", OF refines_display(2) [OF fo td]] by (simp add: spec_throws_def F)
  next
    case (CallLoadBranch n rs)
    have "new_rows ?s ?w rs" "\<And>m. n = Some m \<Longrightarrow> m \<in> set (tnodes ?w)"
      using al CallLoadBranch by (cases n; simp)+
    then show ?thesis
      using lift [of "\<lambda>s. tt_loadBranch s n rs", OF refines_load [OF fo td]] CallLoadBranch by (simp add: spec_throws_def F)
  next
    case (CallMove i j)
    show ?thesis
    proof (cases "\<exists>n d. tmap ?w (prop_key i) = Some n \<and> tmap ?w (prop_key j) = Some d")
      case True
      then obtain n d where nd: "tmap ?w (prop_key i) = Some n" "tmap ?w (prop_key j) = Some d" by blast
      then have "\<not> spec_throws F c" using name_known [OF fo] CallMove F by (simp add: spec_throws_def)
      then show ?thesis
        using lift [of "\<lambda>s. tt_move s i j", OF refines_move [OF fo td ap nd]] nd CallMove by (auto simp: F Let_def split: if_splits)
    next
      case False
      then have "spec_throws F c" using name_known [OF fo] CallMove F by (auto simp: spec_throws_def)
      moreover have "spec_of t c = Keep" using False CallMove by (auto simp: Let_def split: option.split)
      moreover have "tt_move ?s i j ?w = Throws TypeError ?w"
        using False td by (auto simp: tt_move_def with_tree_def split: option.split)
      ultimately show ?thesis using CallMove sh by (auto simp: refined_def on_world_def)
    qed
  next
    case (CallNode i)
    then show ?thesis using td sh by (simp add: refined_def on_world_def with_tree_def spec_throws_def)
  next
    case (CallRemoveNode i)
    then show ?thesis using lift [of "\<lambda>s. tt_removeNode s i", OF refines_remove [OF fo td]] by (simp add: spec_throws_def F)
  next
    case (CallReveal i)
    then show ?thesis using lift [of "\<lambda>s. tt_reveal s i", OF refines_display(3) [OF fo td]] by (simp add: spec_throws_def F)
  next
    case (CallSortBranch n a)
    then show ?thesis using lift [of "\<lambda>s. tt_sortBranch s n a", OF refines_sort [OF fo td]] al by (simp add: spec_throws_def F)
  next
    case (CallUnloadBranch n)
    then show ?thesis using lift [of "\<lambda>s. tt_unloadBranch s n", OF refines_unload [OF fo td]] al by (simp add: spec_throws_def F)
  next
    case (CallOther m)
    then show ?thesis using no by simp
  qed
qed

text \<open>A method called by its name alone is the call with \<open>undefined\<close> for its arguments.\<close>

inductive by_name :: "string \<Rightarrow> tt_call \<Rightarrow> bool" where
  none: "by_name '''' (CallInit (\<lambda>s. s) False)"
| init: "by_name ''init'' (CallInit (\<lambda>s. s) False)"
| collapseAll: "by_name ''collapseAll'' CallCollapseAll"
| collapseNode: "by_name ''collapseNode'' (CallCollapseNode (DStr ''undefined''))"
| expandAll: "by_name ''expandAll'' CallExpandAll"
| expandNode: "by_name ''expandNode'' (CallExpandNode (DStr ''undefined''))"
| loadBranch: "by_name ''loadBranch'' (CallLoadBranch None [])"
| move: "by_name ''move'' (CallMove (DStr ''undefined'') (DStr ''undefined''))"
| node: "by_name ''node'' (CallNode (DStr ''undefined''))"
| removeNode: "by_name ''removeNode'' (CallRemoveNode (DStr ''undefined''))"
| reveal: "by_name ''reveal'' (CallReveal (DStr ''undefined''))"

lemma hang_itself: "hang i i F = F"
proof (cases "subtree_at i F")
  case (Some t)
  then have "root t = i" by (auto simp: subtree_at_def find_Some_iff)
  then have "i \<in> set (preorder t)" using root_in_preorder by metis
  then show ?thesis by (simp add: hang_def Some)
qed (simp add: hang_def)


lemma named_call:
  assumes "by_name m c"
  shows "treetable (CallOther m) t = treetable c t" and "allowed t c" and "\<nexists>m. c = CallOther m"
    and "spec_throws F (CallOther m) = spec_throws F c"
    and "spec_step (spec_of t (CallOther m)) F = spec_step (spec_of t c) F"
proof -
  show "treetable (CallOther m) t = treetable c t"
    using assms by (cases rule: by_name.cases) (simp_all add: call_by_name_def Let_def)
  show "allowed t c" and "\<nexists>m. c = CallOther m"
    using assms by (cases rule: by_name.cases; simp add: new_rows_def)+
  show "spec_throws F (CallOther m) = spec_throws F c"
    using assms by (cases rule: by_name.cases) (simp_all add: spec_throws_def not_callable_def)
  show "spec_step (spec_of t (CallOther m)) F = spec_step (spec_of t c) F"
    using assms
    by (cases rule: by_name.cases) (simp_all add: hang_itself row_labels_def Let_def split: option.split)
qed

lemma unnamed_call:
  assumes "\<nexists>c. by_name m c" and "m \<noteq> ''destroy''"
  shows "treetable (CallOther m) t =
    (if not_callable m then
       Throws (if m \<in> {''sortBranch'', ''unloadBranch''} \<union> set inherited_throwing then TypeError else NoSuchMethod m) t
     else Returns t)"
    and "spec_throws F (CallOther m) = not_callable m" and "spec_of t (CallOther m) = Keep"
proof -
  have m: "m \<noteq> ''''" "m \<noteq> ''init''" "m \<noteq> ''collapseAll''" "m \<noteq> ''collapseNode''" "m \<noteq> ''expandAll''"
    "m \<noteq> ''expandNode''" "m \<noteq> ''loadBranch''" "m \<noteq> ''move''" "m \<noteq> ''node''" "m \<noteq> ''removeNode''" "m \<noteq> ''reveal''"
    using assms(1) by_name.intros by blast+
  have quiet: "''sortBranch'' \<notin> set inherited_quiet" "''unloadBranch'' \<notin> set inherited_quiet"
    by (simp_all add: inherited_quiet_def)
  show "spec_of t (CallOther m) = Keep" using m by simp
  show "spec_throws F (CallOther m) = not_callable m" using m by (simp add: spec_throws_def)
  have "not_callable m \<longleftrightarrow> m \<notin> set inherited_quiet" using m assms(2) by (simp add: not_callable_def)
  moreover have "call_by_name m t =
      (if m = ''sortBranch'' \<or> m = ''unloadBranch'' then Throws TypeError t
      else if m \<in> set inherited_quiet then Returns t
      else if m \<in> set inherited_throwing then Throws TypeError t
      else Throws (NoSuchMethod m) t)"
    using m assms(2) by (simp add: call_by_name_def Let_def)
  ultimately show "treetable (CallOther m) t =
    (if not_callable m then
       Throws (if m \<in> {''sortBranch'', ''unloadBranch''} \<union> set inherited_throwing then TypeError else NoSuchMethod m) t
     else Returns t)"
    using quiet by auto
qed

lemma call_refined:
  assumes sh: "shows_forest t F" and al: "allowed t c"
  shows "refined (treetable c t) (spec_throws F c) (spec_step (spec_of t c) F)"
proof (cases "\<exists>m. c = CallOther m")
  case True
  then obtain m where c: "c = CallOther m" by blast
  show ?thesis
  proof (cases "\<exists>d. by_name m d")
    case True
    then obtain d where m: "by_name m d" by blast
    show ?thesis
      using method_refined [OF sh named_call(2,3) [OF m]]
      unfolding c named_call(1) [OF m] named_call(4,5) [OF m] .
  next
    case False
    then show ?thesis
      using unnamed_call [OF False] sh al unfolding c
      by (auto simp: refined_def)
  qed
next
  case False
  then show ?thesis by (rule method_refined [OF sh al])
qed

text \<open>A call that throws stands for no change.\<close>

lemma spec_throws_keeps:
  assumes "shows_forest t F" and "spec_throws F c"
  shows "spec_step (spec_of t c) F = F"
proof -
  obtain fs where fo: "forest_of (t_settings t) (t_world t) fs" and F: "F = names (t_world t) fs"
    using assms(1) by (auto simp: shows_forest_def)
  note known = name_known [OF fo, folded F]
  show ?thesis
  proof (cases c)
    case (CallMove i j)
    then have "tmap (t_world t) (prop_key i) = None \<or> tmap (t_world t) (prop_key j) = None"
      using assms(2) known by (auto simp: spec_throws_def)
    then show ?thesis using CallMove by (auto simp: Let_def split: option.split)
  next
    case (CallRemoveNode i)
    then show ?thesis using assms(2) by (simp add: spec_throws_def fprune_absent)
  next
    case (CallOther m)
    show ?thesis
    proof (cases "m = ''removeNode''")
      case True
      then have "''undefined'' \<notin> set (forder F)"
        using assms(2) CallOther by (simp add: spec_throws_def not_callable_def)
      then show ?thesis using CallOther True by (simp add: fprune_absent)
    qed (simp add: CallOther)
  qed (use assms(2) in \<open>auto simp: spec_throws_def\<close>)
qed

text \<open>And it leaves the table as it is, down to the last field.\<close>

lemma spec_throws_unchanged:
  assumes "shows_forest t F" and "allowed t c" and "spec_throws F c"
  shows "\<exists>e. treetable c t = Throws e t"
proof -
  obtain fs where fo: "forest_of (t_settings t) (t_world t) fs" and F: "F = names (t_world t) fs"
    using assms(1) by (auto simp: shows_forest_def)
  have td: "tdata (t_world t)" using assms(1) by (simp add: shows_forest_def)
  note known = name_known [OF fo, folded F]
  have nameless: "\<exists>e. treetable d t = Throws e t" if "spec_throws F d" and "\<nexists>m. d = CallOther m" for d
  proof (cases d)
    case (CallMove i j)
    then have "tmap (t_world t) (prop_key i) = None \<or> tmap (t_world t) (prop_key j) = None"
      using that(1) known by (auto simp: spec_throws_def)
    then show ?thesis
      using CallMove td by (auto simp: on_world_def tt_move_def with_tree_def split: option.split)
  qed (use that known td in \<open>auto simp: spec_throws_def on_world_def with_node_def with_tree_def
      tt_collapseNode_def tt_expandNode_def tt_removeNode_def tt_reveal_def\<close>)
  show ?thesis
  proof (cases "\<exists>m. c = CallOther m")
    case True
    then obtain m where c: "c = CallOther m" by blast
    show ?thesis
    proof (cases "\<exists>d. by_name m d")
      case True
      then obtain d where d: "by_name m d" by blast
      show ?thesis
        using nameless [OF _ named_call(3) [OF d]] assms(3) named_call(1,4) [OF d] c by metis
    next
      case False
      then show ?thesis using unnamed_call [OF False] assms(2,3) c by auto
    qed
  next
    case False
    then show ?thesis by (rule nameless [OF assms(3)])
  qed
qed

section \<open>init\<close>

lemma init_shows:
  assumes "pristine (opts default_settings) (t_world t)" and "\<not> tdata (t_world t)"
    and "nodeIdAttr (opts default_settings) \<noteq> parentIdAttr (opts default_settings)"
  shows "\<exists>u. treetable (CallInit opts False) t = Returns u \<and> t_settings u = opts default_settings \<and>
    shows_forest u (spec_step
      (Load (row_labels (opts default_settings) (t_world t) (d_order (t_world t)))) [])"
proof -
  let ?s = "opts default_settings" and ?w = "t_world t"
  define w0 where "w0 = ?w\<lparr>tmap := Map.empty, tnodes := [], troots := []\<rparr>"
  define u where "u = load_rows ?s w0 (d_order ?w)"
  have s0: "same_rows ?w w0" by (simp add: w0_def)
  have "\<exists>gs. forest_of ?s (foldl (load_row ?s) w0 (d_order ?w)) gs \<and>
      names (foldl (load_row ?s) w0 (d_order ?w)) gs =
        spec_step (Load (row_labels ?s w0 (d_order ?w))) (names w0 [])"
    by (rule load_rows_names [of _ _ _ "{}"])
      (use assms(1) in \<open>simp_all add: w0_def forest_of_def keyed_def pristine_def
        loadable_same_rows [OF s0, unfolded w0_def]\<close>)
  then obtain gs where gs: "forest_of ?s (foldl (load_row ?s) w0 (d_order ?w)) gs"
    "names (foldl (load_row ?s) w0 (d_order ?w)) gs =
      spec_step (Load (row_labels ?s w0 (d_order ?w))) (names w0 [])" by blast
  have labels: "row_labels ?s w0 = row_labels ?s ?w"
  proof -
    have "row_data w0 r k = row_data ?w r k" for r k using s0 by (simp add: same_rows_def)
    then show ?thesis
      by (intro ext) (simp add: row_labels_def row_label_def parent_id_same_rows [OF s0])
  qed
  have ul: "same_shape (foldl (load_row ?s) w0 (d_order ?w)) u"
    by (simp add: u_def load_rows_def Let_def foldl_update_shape)
  obtain fs where fs: "forest_of ?s u fs" "troots u = map root fs" "fresh u (set (forder fs))"
    using load_rows_pristine [OF assms(1)] unfolding u_def w0_def by metis
  obtain x where x: "tree_render ?s u = Returns x" "same_shape u x"
    using tree_render_forest [OF fs] by blast
  define v where "v = (if onInitialized ?s then log_event (x\<lparr>tclass := True, tdata := True\<rparr>) Initialized
    else x\<lparr>tclass := True, tdata := True\<rparr>)"
  have v: "heap v = heap x" "d_row v = d_row x" "d_order v = d_order x" "tmap v = tmap x"
    "tnodes v = tnodes x" "nextn v = nextn x" "tdata v"
    by (simp_all add: v_def log_event_def)
  have lx: "same_shape (foldl (load_row ?s) w0 (d_order ?w)) x" by (rule same_shape_trans [OF ul x(2)])
  have "row_data v r k = row_data x r k" for r k
    by (simp add: row_data_def v cong: option.case_cong)
  then have fv: "forest_of ?s v gs"
    using forest_of_shape [OF lx gs(1)] by (simp add: forest_of_def keyed_def v)
  have "names v gs = names x gs" unfolding names_def by (rule frename_cong) (simp add: name_of_def v)
  also have "\<dots> = spec_step (Load (row_labels ?s ?w (d_order ?w))) []"
    using gs(2) names_shape [OF lx, of gs] by (simp add: labels names_def)
  finally have nv: "names v gs = spec_step (Load (row_labels ?s ?w (d_order ?w))) []" .
  have "treetable (CallInit opts False) t = Returns \<lparr>t_world = v, t_settings = ?s\<rparr>"
    using assms(2) x(1) by (simp add: tt_init_def Let_def v_def flip: w0_def u_def)
  moreover have "shows_forest \<lparr>t_world = v, t_settings = ?s\<rparr>
      (spec_step (Load (row_labels ?s ?w (d_order ?w))) [])"
    unfolding shows_forest_def using fv nv v(7) assms(3) by auto
  ultimately show ?thesis by auto
qed

end
