(* ===== verification/Tree_Example.thy ===== *)
theory Tree_Example
  imports Tree_All
begin

text \<open>
  A small table on which the properties are exercised: five rows, \<open>1\<close> with children \<open>2\<close> and
  \<open>3\<close>, \<open>4\<close> below \<open>2\<close>, and \<open>5\<close>. \<open>plain_table\<close> is the page before \<open>init\<close>, \<open>open_table\<close> the page
  with every branch expanded.
\<close>

definition plain_row :: "int \<Rightarrow> int option \<Rightarrow> string \<Rightarrow> row" where
  "plain_row i p name =
     \<lparr>r_attrs = (\<lambda>k. if k = ''ttId'' then Some (DNum i)
        else if k = ''ttParentId'' then map_option DNum p else None),
      r_store = (\<lambda>_. None), r_cells = [(''td'', name)], r_classes = {}, r_displayed = True,
      r_indenters = 0\<rparr>"

definition plain_rows :: "rref \<Rightarrow> row" where
  "plain_rows r =
     (if r = 0 then plain_row 1 None ''Node''
      else if r = 1 then plain_row 2 (Some 1) ''title''
      else if r = 2 then plain_row 3 (Some 1) ''Body''
      else if r = 3 then plain_row 4 (Some 2) ''raw''
      else plain_row 5 None ''User'')"

definition blank_node :: node where
  "blank_node = \<lparr>n_row = 0, n_id = DNum 0, n_parentId = None, n_treeCell = None, n_children = [],
     n_initialized = False, n_padding = None, n_hasExpander = False, n_title = None,
     n_clicks = (\<lambda>_. 0), n_keydowns = (\<lambda>_. 0)\<rparr>"

definition plain_table :: world where
  "plain_table = \<lparr>d_row = plain_rows, d_order = [0, 1, 3, 2, 4], d_visible = True,
     heap = (\<lambda>_. blank_node), nextn = 0, tmap = (\<lambda>_. None), tnodes = [], troots = [],
     tdata = False, tclass = False, tlog = []\<rparr>"

definition demo_settings :: settings where
  "demo_settings = default_settings\<lparr>expandable := True\<rparr>"

definition open_row :: "row \<Rightarrow> row" where
  "open_row x = x\<lparr>r_classes := {''expanded''}, r_indenters := 1\<rparr>"

definition open_node :: "nref \<Rightarrow> int \<Rightarrow> int option \<Rightarrow> nref list \<Rightarrow> node" where
  "open_node n i p cs = blank_node\<lparr>n_row := n, n_id := DNum i, n_parentId := map_option DNum p,
     n_treeCell := Some 0, n_children := cs, n_initialized := True, n_hasExpander := cs \<noteq> [],
     n_clicks := (\<lambda>h. if cs \<noteq> [] \<and> h = Expander then 1 else 0),
     n_keydowns := (\<lambda>h. if cs \<noteq> [] \<and> h = Expander then 1 else 0)\<rparr>"

definition open_heap :: "nref \<Rightarrow> node" where
  "open_heap n =
     (if n = 0 then open_node 0 1 None [1, 2]
      else if n = 1 then open_node 1 2 (Some 1) [3]
      else if n = 2 then open_node 2 3 (Some 1) []
      else if n = 3 then open_node 3 4 (Some 2) []
      else open_node 4 5 None [])"

definition open_tree :: "string \<Rightarrow> nref option" where
  "open_tree k = (if k = ''1'' then Some 0 else if k = ''2'' then Some 1
     else if k = ''3'' then Some 2 else if k = ''4'' then Some 3
     else if k = ''5'' then Some 4 else None)"

definition open_table :: world where
  "open_table = \<lparr>d_row = (\<lambda>r. open_row (plain_rows r)), d_order = [0, 1, 3, 2, 4],
     d_visible = True, heap = open_heap, nextn = 5, tmap = open_tree, tnodes = [0, 1, 3, 2, 4],
     troots = [0, 4], tdata = True, tclass = True, tlog = []\<rparr>"

text \<open>Two more rows that are not in the table yet.\<close>

definition spare_table :: world where
  "spare_table = open_table\<lparr>d_row := (d_row open_table)
     (5 := plain_row 6 (Some 3) ''new'', 6 := plain_row 7 (Some 6) ''newer'')\<rparr>"

definition open_forest :: "nref rose list" where
  "open_forest = [Rose 0 [Rose 1 [Rose 3 []], Rose 2 []], Rose 4 []]"

lemmas open_defs = open_table_def open_heap_def open_node_def open_tree_def open_row_def
  blank_node_def plain_rows_def plain_row_def demo_settings_def default_settings_def

lemma show_digits [simp]: "show_int 1 = ''1''" "show_int 2 = ''2''" "show_int 3 = ''3''"
  "show_int 4 = ''4''" "show_int 5 = ''5''"
  by code_simp+

lemma open_forder: "forder open_forest = [0, 1, 3, 2, 4]"
  by (simp add: open_forest_def forder_def)

lemma open_table_forest: "forest_of demo_settings open_table open_forest"
  unfolding forest_of_def open_forder
  by (auto simp: open_forest_def open_defs keyed_def row_data_def inj_on_def)

lemma open_table_vis: "vis_inv open_table open_forest"
  unfolding vis_inv_def vis_ok_def open_forder
  by (auto simp: open_forest_def open_defs disp_def expanded_def has_class_def)

lemma open_table_flags: "flags_ok open_table open_forest"
  unfolding flags_ok_def open_forder
  by (auto simp: open_defs collapsed_def has_class_def)

lemma open_table_facts:
  "d_visible open_table" "tdata open_table" "nodeIdAttr demo_settings \<noteq> parentIdAttr demo_settings"
  "fuel_of open_table = 6" "tmap open_table = open_tree"
  by (simp_all add: open_defs fuel_of_def)

lemma open_subtrees:
  "fsubtrees open_forest = [Rose 0 [Rose 1 [Rose 3 []], Rose 2 []], Rose 1 [Rose 3 []], Rose 3 [],
     Rose 2 [], Rose 4 []]"
  by (simp add: open_forest_def fsubtrees_def)

lemma open_subtree_1: "Rose 1 [Rose 3 []] \<in> set (fsubtrees open_forest)"
  by (simp add: open_subtrees)

lemma open_table_parents_first: "parents_first open_table"
  by code_simp

lemma plain_table_pristine: "pristine demo_settings plain_table"
  by (auto simp: pristine_def plain_table_def open_defs row_data_def parent_id_of_def has_class_def)

lemma spare_table_forest: "forest_of demo_settings spare_table open_forest"
  unfolding forest_of_def open_forder
  by (auto simp: open_forest_def spare_table_def open_defs keyed_def row_data_def inj_on_def)

end
