(* ===== verification/Tree_Properties.thy ===== *)
theory Tree_Properties
  imports Tree_Example
begin

text \<open>
  What the plugin promises its caller, stated of the methods as they are called, with the
  example table as the witness. \<open>forest_of s w fs\<close> (the state represents the forest \<open>fs\<close>) is
  established by \<open>init\<close> and kept by every method below; \<open>vis_inv w fs\<close> is the display contract.
\<close>

section \<open>init\<close>

text \<open>C3: \<open>init\<close> on a table whose ids are distinct and whose parent ids name earlier rows returns;
  every row with an id is then a node, in document order, the links are the ones the rows ask
  for, parents precede their descendants, the document order is unchanged, and a row is
  displayed exactly when it is a root or its parent is displayed and expanded.\<close>

theorem init_builds_the_forest:
  assumes "pristine (opts default_settings) (t_world t)" and "\<not> tdata (t_world t)"
  shows "\<exists>v fs. treetable (CallInit opts False) t =
        Returns \<lparr>t_world = v, t_settings = opts default_settings\<rparr> \<and>
      forest_of (opts default_settings) v fs \<and> linked (opts default_settings) v \<and>
      parents_first v \<and> vis_inv v fs \<and> tdata v \<and> troots v = map root fs \<and>
      d_order v = d_order (t_world t) \<and>
      map (row_of v) (tnodes v) =
        filter (\<lambda>r. row_data (t_world t) r (nodeIdAttr (opts default_settings)) \<noteq> None)
          (d_order (t_world t))"
  using init_forest [of opts t False] assms by auto

theorem init_builds_the_forest_witness:
  "\<exists>v fs. treetable (CallInit (\<lambda>s. s\<lparr>expandable := True\<rparr>) False)
      \<lparr>t_world = plain_table, t_settings = default_settings\<rparr> =
        Returns \<lparr>t_world = v, t_settings = demo_settings\<rparr> \<and> forest_of demo_settings v fs \<and> tdata v"
proof -
  have "pristine ((\<lambda>s. s\<lparr>expandable := True\<rparr>) default_settings) plain_table"
    using plain_table_pristine by (simp add: demo_settings_def)
  moreover have "\<not> tdata plain_table" by (simp add: plain_table_def)
  ultimately show ?thesis
    using init_builds_the_forest [of "\<lambda>s. s\<lparr>expandable := True\<rparr>"
        "\<lparr>t_world = plain_table, t_settings = default_settings\<rparr>"]
    by (auto simp: demo_settings_def)
qed

text \<open>An expandable table whose trees start collapsed shows, after \<open>init\<close>, the rows of the
  roots and no other row of a node.\<close>

theorem init_shows_only_the_roots:
  assumes "pristine (opts default_settings) (t_world t)" and "\<not> tdata (t_world t)"
    and "starts_collapsed (opts default_settings)"
  shows "\<exists>v fs. treetable (CallInit opts False) t =
        Returns \<lparr>t_world = v, t_settings = opts default_settings\<rparr> \<and>
      forest_of (opts default_settings) v fs \<and>
      (\<forall>n\<in>set (tnodes v). disp v n \<longleftrightarrow> n_parentId (heap v n) = None)"
proof -
  let ?s = "opts default_settings"
  obtain v fs where v: "treetable (CallInit opts False) t = Returns \<lparr>t_world = v, t_settings = ?s\<rparr>"
    "forest_of ?s v fs" "vis_inv v fs" "\<forall>t\<in>set fs. \<not> expanded v (root t)"
    using init_forest [of opts t False] assms by auto
  have "disp v n \<longleftrightarrow> n_parentId (heap v n) = None" if n: "n \<in> set (tnodes v)" for n
  proof -
    have nF: "n \<in> set (forder fs)" using n forest_ofD(5) [OF v(2)] by simp
    obtain as where as: "chain v n as" by (rule forest_of_chain [OF v(2) nF])
    have "n_parentId (heap v n) = None \<longleftrightarrow> n \<in> root ` set fs"
      using forest_parent_child [OF v(2) nF] forest_ofD(2) [OF v(2)] by (auto simp: parent_node_def)
    then show ?thesis using disp_below_closed_roots [OF v(2,3,4) as nF] by simp
  qed
  then show ?thesis using v(1,2) by blast
qed

theorem init_shows_only_the_roots_witness:
  "\<exists>v. treetable (CallInit (\<lambda>s. s\<lparr>expandable := True\<rparr>) False)
      \<lparr>t_world = plain_table, t_settings = default_settings\<rparr> =
        Returns \<lparr>t_world = v, t_settings = demo_settings\<rparr> \<and>
      (\<forall>n\<in>set (tnodes v). disp v n \<longleftrightarrow> n_parentId (heap v n) = None)"
proof -
  have "pristine ((\<lambda>s. s\<lparr>expandable := True\<rparr>) default_settings) plain_table"
    using plain_table_pristine by (simp add: demo_settings_def)
  moreover have "\<not> tdata plain_table" by (simp add: plain_table_def)
  moreover have "starts_collapsed ((\<lambda>s. s\<lparr>expandable := True\<rparr>) default_settings)"
    by (simp add: starts_collapsed_def default_settings_def)
  ultimately show ?thesis
    using init_shows_only_the_roots [of "\<lambda>s. s\<lparr>expandable := True\<rparr>"
        "\<lparr>t_world = plain_table, t_settings = default_settings\<rparr>"]
    by (auto simp: demo_settings_def)
qed

text \<open>C21: After \<open>loadRows\<close> every row of a node carries exactly one of the classes \<open>branch\<close> and
  \<open>leaf\<close>, and \<open>branch\<close> exactly when the node has children or the row says it is a branch.\<close>

theorem loadRows_labels_every_row:
  assumes "pristine s w" and "v = load_rows s (w\<lparr>tmap := Map.empty, tnodes := [], troots := []\<rparr>) (d_order w)"
    and "n \<in> set (tnodes v)"
  shows "(has_class v (row_of v n) ''branch'' \<longleftrightarrow>
      children v n \<noteq> [] \<or> row_data v (row_of v n) (branchAttr s) = Some (DBool True)) \<and>
    (has_class v (row_of v n) ''leaf'' \<longleftrightarrow> \<not> has_class v (row_of v n) ''branch'')"
proof -
  have "\<forall>n\<in>set (tnodes v). labelled s v n"
    unfolding assms(2) by (rule load_rows_pristine [OF assms(1)]) blast
  then have "labelled s v n" using assms(3) by blast
  then show ?thesis unfolding labelled_def is_branch_node_def by simp
qed

theorem loadRows_labels_every_row_witness:
  "\<exists>v. 0 \<in> set (tnodes v) \<and> has_class v (row_of v 0) ''leaf'' \<noteq> has_class v (row_of v 0) ''branch''"
proof -
  let ?v = "load_rows demo_settings (plain_table\<lparr>tmap := Map.empty, tnodes := [], troots := []\<rparr>)
    (d_order plain_table)"
  have "0 \<in> set (tnodes ?v)" by code_simp
  then show ?thesis using loadRows_labels_every_row [OF plain_table_pristine refl] by blast
qed

section \<open>Moving\<close>

text \<open>C4: \<open>move\<close> of a node under a node outside its subtree that is not its parent returns. The
  tree is the old one with the subtree cut out and hung under the destination as its last
  child; the rows of the subtree stand in preorder directly behind the row of the destination
  and all others keep their order; the nodes of the subtree are rendered for their new level;
  and if every row carried the right one of the classes branch and leaf, every row does so
  again.\<close>

theorem move_hangs_the_subtree:
  assumes "forest_of s w fs" and "tdata w" and "nodeIdAttr s \<noteq> parentIdAttr s"
    and "t \<in> set (fsubtrees fs)" and "d \<in> set (forder fs)" and "d \<notin> set (preorder t)"
    and "tmap w (prop_key i) = Some (root t)" and "tmap w (prop_key j) = Some d"
    and "n_parentId (heap w (root t)) \<noteq> Some (n_id (heap w d))"
  shows "\<exists>v. tt_move s i j w = Returns v \<and>
      forest_of s v (fgraft d t (fprune (root t) fs)) \<and>
      children v d = filter (\<lambda>x. x \<noteq> root t) (children w d) @ [root t] \<and>
      d_order v = block_behind (row_of w d) (map (row_of w) (preorder t)) (d_order w) \<and>
      (\<forall>m\<in>set (preorder t). rendered s v m) \<and>
      ((\<forall>m\<in>set (forder fs). labelled s w m) \<longrightarrow> (\<forall>m\<in>set (forder fs). labelled s v m))"
proof -
  obtain v where v: "tree_move s w (root t) d = Returns v"
    "forest_of s v (fgraft d t (fprune (root t) fs))"
    "set (forder (fgraft d t (fprune (root t) fs))) = set (forder fs)"
    "d_order v = block_behind (row_of w d) (map (row_of w) (preorder t)) (d_order w)"
    "\<forall>m\<in>set (preorder t). rendered s v m"
    "(\<forall>m\<in>set (forder fs). labelled s w m) \<longrightarrow> (\<forall>m\<in>set (forder fs). labelled s v m)"
    "\<And>m. disp v m = disp w m" "\<And>m. expanded v m = expanded w m"
    "parent_node v (root t) = Some d" "children v d = filter (\<lambda>x. x \<noteq> root t) (children w d) @ [root t]" "troots v = troots w"
    by (rule tree_move_in_forest [OF assms(1,4,5,6,3,9)], rule that; assumption)
  then show ?thesis using assms(2,7,8) by (auto simp: tt_move_def with_tree_def)
qed

theorem move_hangs_the_subtree_witness:
  "\<exists>v. tt_move demo_settings (DNum 2) (DNum 5) open_table = Returns v \<and>
     forest_of demo_settings v [Rose 0 [Rose 2 []], Rose 4 [Rose 1 [Rose 3 []]]] \<and>
     d_order v = [0, 2, 4, 1, 3]"
proof -
  have "tmap open_table (prop_key (DNum 2)) = Some (root (Rose 1 [Rose 3 []]))"
    "tmap open_table (prop_key (DNum 5)) = Some 4"
    "n_parentId (heap open_table (root (Rose 1 [Rose 3 []]))) \<noteq> Some (n_id (heap open_table 4))"
    by (simp_all add: open_defs)
  then obtain v where v: "tt_move demo_settings (DNum 2) (DNum 5) open_table = Returns v"
    "forest_of demo_settings v (fgraft 4 (Rose 1 [Rose 3 []]) (fprune 1 open_forest))"
    "d_order v = block_behind (row_of open_table 4) (map (row_of open_table) [1, 3]) (d_order open_table)"
    using move_hangs_the_subtree [OF open_table_forest open_table_facts(2,3) open_subtree_1, of 4 "DNum 2" "DNum 5"]
    by (auto simp: open_forder)
  have "fgraft 4 (Rose 1 [Rose 3 []]) (fprune 1 open_forest) =
      [Rose 0 [Rose 2 []], Rose 4 [Rose 1 [Rose 3 []]]]"
    by (simp add: open_forest_def)
  moreover have "block_behind (row_of open_table 4) (map (row_of open_table) [1, 3]) (d_order open_table) =
      [0, 2, 4, 1, 3]"
    by (simp add: block_behind_def open_defs)
  ultimately show ?thesis using v by auto
qed

text \<open>C5: \<open>move\<close> with two known ids always returns and always leaves a forest of the same nodes: a
  node is never hung below itself. When the destination is the node, one of its descendants or
  its parent, nothing changes but the classes branch and leaf.\<close>

theorem move_keeps_a_forest:
  assumes "forest_of s w fs" and "tdata w" and "nodeIdAttr s \<noteq> parentIdAttr s"
    and "tmap w (prop_key i) = Some n" and "tmap w (prop_key j) = Some d"
  shows "\<exists>v gs. tt_move s i j w = Returns v \<and> forest_of s v gs \<and>
      set (forder gs) = set (forder fs) \<and>
      (n = d \<or> (\<exists>as. chain w d as \<and> n \<in> set as) \<or> n_parentId (heap w n) = Some (n_id (heap w d)) \<longrightarrow>
        relabels w v \<and> gs = fs)"
proof -
  have nd: "n \<in> set (forder fs)" "d \<in> set (forder fs)" using forest_ofD(8) [OF assms(1)] assms(4,5) by auto
  obtain t where t: "t \<in> set (fsubtrees fs)" "root t = n" by (rule forest_subtree_at [OF nd(1)])
  have tt: "tt_move s i j w = tree_move s w (root t) d"
    using assms(2,4,5) t(2) by (simp add: tt_move_def with_tree_def)
  have refused: "n = d \<or> (\<exists>as. chain w d as \<and> n \<in> set as) \<or> n_parentId (heap w n) = Some (n_id (heap w d)) \<longrightarrow>
      d \<in> set (preorder t) \<or> n_parentId (heap w (root t)) = Some (n_id (heap w d))"
    using ancestor_subtree [OF assms(1) t(1) _ nd(2)] t(2) by auto
  show ?thesis
  proof (cases "d \<in> set (preorder t) \<or> n_parentId (heap w (root t)) = Some (n_id (heap w d))")
    case True
    obtain v where v: "tree_move s w (root t) d = Returns v" "relabels w v"
      by (rule tree_move_rejected [OF assms(1) t(1) nd(2) True])
    then have "forest_of s v fs" using forest_of_shape [OF _ assms(1)] by (simp add: relabels_def)
    then show ?thesis using v tt by auto
  next
    case False
    then have dt: "d \<notin> set (preorder t)" and
      new: "n_parentId (heap w (root t)) \<noteq> Some (n_id (heap w d))" by auto
    let ?gs = "fgraft d t (fprune (root t) fs)"
    obtain v where v: "relocate s w (root t) d = Returns v" "forest_of s v ?gs"
      "set (forder ?gs) = set (forder fs)"
      by (rule relocate_in_forest [OF assms(1) t(1) nd(2) dt assms(3)])
    note u = tree_move_accepted [OF assms(1) t(1) nd(2) dt new v(1)]
    have no: "\<not> (n = d \<or> (\<exists>as. chain w d as \<and> n \<in> set as) \<or> n_parentId (heap w n) = Some (n_id (heap w d)))"
      using refused False by blast
    show ?thesis
      unfolding tt u using no v(3) forest_of_shape [OF foldl_update_shape v(2)]
      by (intro exI [of _ ?gs] exI conjI impI refl) blast+
  qed
qed

theorem move_keeps_a_forest_witness:
  "\<exists>v. tt_move demo_settings (DNum 1) (DNum 4) open_table = Returns v \<and>
     forest_of demo_settings v open_forest"
proof -
  have "chain open_table 3 [1, 0]"
    by (simp add: open_defs parent_node_def)
  then have "\<exists>as. chain open_table 3 as \<and> 0 \<in> set as" by (intro exI [of _ "[1, 0]"]) simp
  then show ?thesis
    using move_keeps_a_forest [OF open_table_forest open_table_facts(2,3), of "DNum 1" 0 "DNum 4" 3]
    by (auto simp: open_table_facts(5) open_tree_def simp del: chain.simps)
qed

section \<open>Removing\<close>

text \<open>C6: \<open>removeNode\<close> returns. The node and its descendants have left the list of nodes, the map
  from ids and the table, nothing else has, every other row is as it was, the tree is the old one
  without that subtree, and the display contract is kept.\<close>

theorem removeNode_prunes:
  assumes "forest_of s w fs" and "tdata w" and "t \<in> set (fsubtrees fs)"
    and "tmap w (prop_key i) = Some (root t)"
  shows "\<exists>v. tt_removeNode s i w = Returns v \<and> forest_of s v (fprune (root t) fs) \<and>
      tnodes v = filter (\<lambda>m. m \<notin> set (preorder t)) (tnodes w) \<and>
      (\<forall>k. tmap v k = (case tmap w k of None \<Rightarrow> None
         | Some m \<Rightarrow> if m \<in> set (preorder t) then None else Some m)) \<and>
      d_order v = filter (\<lambda>r. r \<notin> row_of w ` set (preorder t)) (d_order w) \<and>
      (\<forall>r. r \<notin> row_of w ` set (preorder t) \<longrightarrow> d_row v r = d_row w r) \<and>
      (vis_inv w fs \<longrightarrow> vis_inv v (fprune (root t) fs))"
proof -
  obtain v E where v: "remove_node s (fuel_of w) w (root t) = Returns v"
    "forest_of s v (fprune (root t) fs)" "gone w (set (preorder t)) E v"
    "vis_inv w fs \<longrightarrow> vis_inv v (fprune (root t) fs)"
    by (rule remove_in_forest [OF assms(1,3)])
  then show ?thesis
    using assms(2,4) goneD(1-3,7) [OF v(3)]
    by (simp add: tt_removeNode_def with_node_def with_tree_def)
qed

theorem removeNode_prunes_witness:
  "\<exists>v. tt_removeNode demo_settings (DNum 2) open_table = Returns v \<and>
     forest_of demo_settings v [Rose 0 [Rose 2 []], Rose 4 []] \<and> d_order v = [0, 2, 4]"
proof -
  have k: "tmap open_table (prop_key (DNum 2)) = Some (root (Rose 1 [Rose 3 []]))"
    by (simp add: open_defs)
  obtain v where "tt_removeNode demo_settings (DNum 2) open_table = Returns v"
    "forest_of demo_settings v (fprune 1 open_forest)"
    "d_order v = filter (\<lambda>r. r \<notin> row_of open_table ` {1, 3}) (d_order open_table)"
    using removeNode_prunes [OF open_table_forest open_table_facts(2) open_subtree_1 k] by auto
  then show ?thesis by (auto simp: open_forest_def open_defs)
qed

text \<open>C12: \<open>unloadBranch\<close> returns. All descendants of the node are gone from the tree and the
  table, the node itself stays, is a leaf of the tree and carries the class that fits, and the
  display contract is kept.\<close>

theorem unloadBranch_empties:
  assumes "forest_of s w fs" and "tdata w" and "t \<in> set (fsubtrees fs)"
  shows "\<exists>v. tt_unloadBranch s (root t) w = Returns v \<and> forest_of s v (fclear (root t) fs) \<and>
      d_order v = filter (\<lambda>r. r \<notin> row_of w ` set (below t)) (d_order w) \<and>
      labelled s v (root t) \<and> (vis_inv w fs \<longrightarrow> vis_inv v (fclear (root t) fs))"
proof -
  obtain v where "unload_branch s (fuel_of w) w (root t) = Returns v"
    "forest_of s v (fclear (root t) fs)" "vis_inv w fs \<longrightarrow> vis_inv v (fclear (root t) fs)"
    "d_order v = filter (\<lambda>r. r \<notin> row_of w ` set (below t)) (d_order w)" "labelled s v (root t)"
    by (rule unload_in_forest [OF assms(1,3)])
  then show ?thesis using assms(2) by (simp add: tt_unloadBranch_def with_tree_def)
qed

theorem unloadBranch_empties_witness:
  "\<exists>v. tt_unloadBranch demo_settings 1 open_table = Returns v \<and>
     forest_of demo_settings v [Rose 0 [Rose 1 [], Rose 2 []], Rose 4 []] \<and>
     d_order v = [0, 1, 2, 4]"
proof -
  obtain v where "tt_unloadBranch demo_settings 1 open_table = Returns v"
    "forest_of demo_settings v (fclear 1 open_forest)"
    "d_order v = filter (\<lambda>r. r \<notin> row_of open_table ` {3}) (d_order open_table)"
    using unloadBranch_empties [OF open_table_forest open_table_facts(2) open_subtree_1]
    by (auto simp: below_def)
  then show ?thesis by (auto simp: open_forest_def fclear_def open_defs)
qed

section \<open>Collapsing and expanding\<close>

text \<open>C13: \<open>collapseNode\<close> returns. A node that is already collapsed is left alone. Otherwise all its
  descendants are hidden, its own row and every row outside its subtree are displayed as before,
  the node is collapsed and not expanded, the tree is unchanged, the display contract is kept,
  and a second call changes nothing.\<close>

theorem collapseNode_hides:
  assumes "forest_of s w fs" and "tdata w" and "t \<in> set (fsubtrees fs)"
    and "tmap w (prop_key i) = Some (root t)"
  shows "\<exists>v. tt_collapseNode s i w = Returns v \<and> forest_of s v fs \<and> collapsed v (root t) \<and>
      (collapsed w (root t) \<longrightarrow> v = w) \<and>
      (\<not> collapsed w (root t) \<longrightarrow> \<not> expanded v (root t) \<and> (\<forall>m\<in>set (below t). \<not> disp v m)) \<and>
      (\<forall>m\<in>set (forder fs). m \<notin> set (below t) \<longrightarrow> disp v m = disp w m) \<and>
      (vis_inv w fs \<longrightarrow> vis_inv v fs) \<and> tt_collapseNode s i v = Returns v"
proof -
  note sub = forest_of_subtree [OF assms(1,3)]
  obtain v where v: "node_collapse s (fuel_of w) w (root t) = Returns v"
    "v = (if collapsed w (root t) then w else collapse_result s w t)"
    "touches w (set (preorder t)) v" "vis_inv w fs \<longrightarrow> vis_inv v fs"
    by (rule collapse_in_forest [OF assms(1,3)])
  have inj: "inj_on (row_of w) (insert m (set (preorder t)))" if "m \<in> set (forder fs)" for m
    by (rule inj_on_subset [OF forest_ofD(10) [OF assms(1)]]) (use that sub(3) in auto)
  have rF: "root t \<in> set (forder fs)" by (rule subsetD [OF sub(3) root_in_preorder])
  note cr = collapse_result_facts [OF inj_on_subset [OF inj [OF rF] subset_insertI] sub(2)]
  have sh: "same_shape w v" by (rule touches_shape [OF v(3)])
  have same: "disp v m = disp w m" if m: "m \<in> set (forder fs)" "m \<notin> set (below t)" for m
  proof (cases "m = root t")
    case True
    then show ?thesis using v(2) cr(4) by simp
  next
    case False
    then have "m \<notin> set (preorder t)" using m(2) by (simp add: preorder_unfold)
    then show ?thesis using touches_outside(1) [OF v(3) _ inj [OF m(1)]] by simp
  qed
  have col: "collapsed v (root t)" using v(2) cr(1) by simp
  then have "tt_collapseNode s i v = Returns v"
    using assms(2,4) same_shape_simps(7,12) [OF sh]
    by (simp add: tt_collapseNode_def with_node_def with_tree_def node_collapse_def)
  moreover have "tt_collapseNode s i w = Returns v"
    using assms(2,4) v(1) by (simp add: tt_collapseNode_def with_node_def with_tree_def)
  ultimately show ?thesis
    using v(2,4) cr(2,3) same col forest_of_shape [OF sh assms(1)] by auto
qed

theorem collapseNode_hides_witness:
  "\<exists>v. tt_collapseNode demo_settings (DNum 1) open_table = Returns v \<and>
     \<not> disp v 1 \<and> \<not> disp v 2 \<and> \<not> disp v 3 \<and> disp v 0 \<and> disp v 4"
proof -
  let ?t = "Rose 0 [Rose 1 [Rose 3 []], Rose (2::nat) []]"
  have t: "?t \<in> set (fsubtrees open_forest)" by (simp add: open_subtrees)
  have k: "tmap open_table (prop_key (DNum 1)) = Some (root ?t)" by (simp add: open_defs)
  have "\<not> collapsed open_table 0" "disp open_table 0" "disp open_table 4"
    by (simp_all add: open_defs collapsed_def has_class_def disp_def)
  then show ?thesis
    using collapseNode_hides [OF open_table_forest open_table_facts(2) t k]
    by (auto simp: below_def open_forder)
qed

text \<open>C14: \<open>expandNode\<close> returns, whether or not the node was initialised before. The node is
  expanded then, the tree is unchanged, and in a table that is itself visible the display
  contract is kept: the children appear exactly if the node's own row is displayed.\<close>

theorem expandNode_expands:
  assumes "forest_of s w fs" and "tdata w" and "tmap w (prop_key i) = Some n"
  shows "\<exists>v. tt_expandNode s i w = Returns v \<and> forest_of s v fs \<and> expanded v n \<and>
      (vis_inv w fs \<longrightarrow> d_visible w \<longrightarrow>
        vis_inv v fs \<and> (\<forall>c\<in>set (children w n). disp v c = disp v n))"
proof -
  have nF: "n \<in> set (forder fs)" by (rule forest_ofD(8) [OF assms(1,3)])
  obtain t where t: "t \<in> set (fsubtrees fs)" "root t = n" by (rule forest_subtree_at [OF nF])
  obtain v where v: "tt_expandNode s i w = Returns v" "forest_of s v fs" "same_shape w v"
    "expanded v (root t)" "vis_inv w fs \<longrightarrow> d_visible w \<longrightarrow> vis_inv v fs"
    by (rule expand_node_in_forest [OF assms(1) t(1) assms(2) assms(3) [folded t(2)]])
  have "\<forall>c\<in>set (children w n). disp v c = disp v n" if "vis_inv v fs"
    using that v(4) t(2) nF same_shape_simps(4) [OF v(3)] by (simp add: vis_inv_def vis_ok_def)
  then show ?thesis using v t(2) by blast
qed

theorem expandNode_expands_witness:
  "\<exists>v. tt_expandNode demo_settings (DNum 3) open_table = Returns v \<and> expanded v 2 \<and>
     vis_inv v open_forest"
  using expandNode_expands [OF open_table_forest open_table_facts(2), of "DNum 3" 2]
    open_table_vis open_table_facts(1)
  by (auto simp: open_table_facts(5) open_tree_def)



section \<open>Sorting\<close>

text \<open>C11: \<open>sortBranch\<close> by a column returns. The children of the node are permuted into ascending
  order of the trimmed upper-case text of their cell in that column, children with equal texts
  keep their order, the tree is otherwise the old one, and the rows of the branch stand behind
  the row of the node in the new preorder, with all other rows in their old order.\<close>

theorem sortBranch_sorts:
  assumes "forest_of s w fs" and "tdata w" and "t \<in> set (fsubtrees fs)"
    and "sort_comparator s w a = column_cmp s w k"
  shows "\<exists>v. tt_sortBranch s (root t) a w = Returns v \<and>
      forest_of s v (map (resort (column_cmp s w k) (root t)) fs) \<and>
      mset (children v (root t)) = mset (children w (root t)) \<and>
      sorted_wrt (\<lambda>x y. extract_value s w k x \<le> extract_value s w k y) (children v (root t)) \<and>
      (\<forall>x. filter (\<lambda>y. extract_value s w k y = extract_value s w k x) (children v (root t)) =
           filter (\<lambda>y. extract_value s w k y = extract_value s w k x) (children w (root t))) \<and>
      d_order v = block_behind (row_of w (root t))
        (map (row_of w) (forder (sort_roots (column_cmp s w k) (kids t)))) (d_order w) \<and>
      d_row v = d_row w"
proof -
  let ?cmp = "column_cmp s w k"
  obtain v where v: "tree_sort_branch s ?cmp w (root t) = Returns v"
    "forest_of s v (map (resort ?cmp (root t)) fs)"
    "children v (root t) = js_sort ?cmp (children w (root t))"
    "d_order v = block_behind (row_of w (root t))
      (map (row_of w) (forder (sort_roots ?cmp (kids t)))) (d_order w)"
    "d_row v = d_row w" "\<forall>n\<in>set (preorder t). rendered s v n"
    by (rule sort_in_forest [OF assms(1,3)])
  have eq: "?cmp x y \<le> 0 \<and> ?cmp y x \<le> 0 \<longleftrightarrow> extract_value s w k y = extract_value s w k x" for x y
    unfolding column_cmp_le by auto
  have "sorted_wrt (\<lambda>x y. extract_value s w k x \<le> extract_value s w k y) (children v (root t))"
    using js.ordered_srt [OF column_cmp_consistent, of s w k "children w (root t)"]
    by (simp add: v(3) column_cmp_le)
  moreover have "filter (\<lambda>y. extract_value s w k y = extract_value s w k x) (children v (root t)) =
      filter (\<lambda>y. extract_value s w k y = extract_value s w k x) (children w (root t))" for x
    using js.stable_srt [OF column_cmp_consistent, of s w k x "children w (root t)"]
    unfolding eq by (simp add: v(3))
  ultimately show ?thesis
    using v assms(2,4) by (simp add: tt_sortBranch_def with_tree_def js.mset_srt)
qed

theorem sortBranch_sorts_witness:
  "\<exists>v. tt_sortBranch demo_settings 0 SortDefault open_table = Returns v \<and>
     forest_of demo_settings v [Rose 0 [Rose 2 [], Rose 1 [Rose 3 []]], Rose 4 []] \<and>
     d_order v = [0, 2, 1, 3, 4]"
proof -
  let ?t = "Rose 0 [Rose 1 [Rose 3 []], Rose (2::nat) []]" and ?c = "column_cmp demo_settings open_table 0"
  have t: "?t \<in> set (fsubtrees open_forest)" by (simp add: open_subtrees)
  have a: "sort_comparator demo_settings open_table SortDefault = ?c"
    by (simp add: sort_comparator_def open_defs)
  have c: "?c 1 2 = 1" by code_simp
  have "map (resort ?c 0) open_forest = [Rose 0 [Rose 2 [], Rose 1 [Rose 3 []]], Rose 4 []]"
    "forder (sort_roots ?c (kids ?t)) = [2, 1, 3]"
    using c by (simp_all add: open_forest_def sort_roots_def js_sort_def)
  moreover have "block_behind 0 (map (row_of open_table) [2, 1, 3]) (d_order open_table) = [0, 2, 1, 3, 4]"
    by (simp add: block_behind_def open_defs)
  moreover have "row_of open_table 0 = 0" by (simp add: open_defs)
  ultimately show ?thesis
    using sortBranch_sorts [OF open_table_forest open_table_facts(2) t a] by auto
qed

section \<open>Loading a branch\<close>

text \<open>C7: \<open>loadBranch\<close> with new rows under a node returns, when the rows carry new ids and each
  names a parent that is there already. Then there is one new node for every row, in the order
  given, all rows stand directly behind the last row of the branch, the state represents a
  forest again, and the node is expanded.\<close>

theorem loadBranch_adds_the_rows:
  assumes "forest_of s w fs" and "tdata w" and "t \<in> set (fsubtrees fs)"
    and "distinct rs" and "set rs \<inter> row_of w ` set (forder fs) = {}"
    and "loadable s w {k. tmap w k \<noteq> None} rs"
    and "\<forall>r\<in>set rs. row_data w r (nodeIdAttr s) \<noteq> None"
  shows "\<exists>v gs ns. tt_loadBranch s (Some (root t)) rs w = Returns v \<and> forest_of s v gs \<and>
      tnodes v = tnodes w @ ns \<and> map (row_of v) ns = rs \<and>
      d_order v = block_behind (row_of w (last (preorder t))) rs (d_order w) \<and>
      expanded v (root t)"
proof -
  obtain v gs ns where "tt_loadBranch s (Some (root t)) rs w = Returns v" "forest_of s v gs"
    "d_order v = block_behind (row_of w (last (preorder t))) rs (d_order w)"
    "tnodes v = tnodes w @ ns" "map (row_of v) ns = rs" "expanded v (root t)"
    "troots w = map root fs \<longrightarrow> troots v = map root gs"
    by (rule load_branch_in_forest [OF assms(1,3,2,4,5,6,7)])
  then show ?thesis by blast
qed

theorem loadBranch_adds_the_rows_witness:
  "\<exists>v. tt_loadBranch demo_settings (Some 2) [5, 6] spare_table = Returns v \<and>
     d_order v = [0, 1, 3, 2, 5, 6, 4] \<and> expanded v 2"
proof -
  have t: "Rose 2 [] \<in> set (fsubtrees open_forest)" by (simp add: open_subtrees)
  have n: "tmap spare_table k \<noteq> None \<longleftrightarrow> k \<in> {''1'', ''2'', ''3'', ''4'', ''5''}" for k
    by (simp add: spare_table_def open_defs)
  have s: "show_int 6 = ''6''" "show_int 7 = ''7''" by code_simp+
  have "loadable demo_settings spare_table {k. tmap spare_table k \<noteq> None} [5, 6]"
    unfolding n
    by (simp add: spare_table_def open_defs row_data_def parent_id_of_def s)
  moreover have "set [5, 6] \<inter> row_of spare_table ` set (forder open_forest) = {}"
    by (simp add: open_forder spare_table_def open_defs)
  moreover have "\<forall>r\<in>set [5, 6]. row_data spare_table r (nodeIdAttr demo_settings) \<noteq> None"
    by (simp add: spare_table_def open_defs row_data_def)
  moreover have "tdata spare_table" by (simp add: spare_table_def open_defs)
  ultimately obtain v where "tt_loadBranch demo_settings (Some 2) [5, 6] spare_table = Returns v"
    "d_order v = block_behind (row_of spare_table 2) [5, 6] (d_order spare_table)" "expanded v 2"
    using loadBranch_adds_the_rows [OF spare_table_forest _ t, of "[5, 6]"] by auto
  then show ?thesis by (simp add: block_behind_def spare_table_def open_defs)
qed

section \<open>Handlers\<close>

text \<open>C19: A click on the expander of a node (on its cell, with clickable node names) returns and
  turns the node over, whatever happened to the table before; Enter does the same as a click and
  any other key does nothing. The tree is unchanged and the display contract is kept.\<close>

theorem click_turns_the_node_over:
  assumes "forest_of s w fs" and "tdata w" and "n \<in> set (forder fs)"
    and "n_clicks (heap w n) h = 1" and "n_keydowns (heap w n) h = 1"
    and "\<not> (collapsed w n \<and> expanded w n)"
  shows "\<exists>v. fire_click s w n h = Returns v \<and> forest_of s v fs \<and>
      (expanded v n \<longleftrightarrow> \<not> expanded w n) \<and>
      (vis_inv w fs \<longrightarrow> d_visible w \<longrightarrow> vis_inv v fs) \<and>
      fire_keydown s w n h 13 = Returns v \<and>
      (\<forall>key. key \<noteq> 13 \<longrightarrow> fire_keydown s w n h key = Returns w)"
proof -
  obtain v where "node_toggle s (fuel_of w) w n = Returns v" "forest_of s v fs"
    "vis_inv w fs \<longrightarrow> d_visible w \<longrightarrow> vis_inv v fs" "same_shape w v"
    "expanded v n \<longleftrightarrow> \<not> expanded w n \<or> collapsed w n"
    by (rule toggle_in_forest [OF assms(1,3)])
  then show ?thesis
    using assms(4-6) click_handler_toggles [OF assms(1,3,2)]
    by (auto simp: fire_click_def fire_keydown_def)
qed

theorem click_turns_the_node_over_witness:
  "\<exists>v. fire_click demo_settings open_table 1 Expander = Returns v \<and> \<not> expanded v 1"
proof -
  have "n_clicks (heap open_table 1) Expander = 1" "n_keydowns (heap open_table 1) Expander = 1"
    "\<not> (collapsed open_table 1 \<and> expanded open_table 1)" "expanded open_table 1"
    by (simp_all add: open_defs collapsed_def expanded_def has_class_def)
  then show ?thesis
    using click_turns_the_node_over [OF open_table_forest open_table_facts(2), of 1 Expander]
    by (auto simp: open_forder)
qed

section \<open>All nodes\<close>

text \<open>C17: \<open>collapseAll\<close> on any table that represents a forest returns with every node collapsed and the
  tree unchanged. It skips nodes that are collapsed already, so a row is displayed afterwards exactly when
  it was displayed before and all its ancestors were collapsed already. On a table in order (the
  display contract holds, which \<open>move\<close> may break, and no node is both collapsed and expanded) these
  are the rows of the roots, and the contract holds again.\<close>

theorem collapseAll_leaves_the_roots:
  assumes "forest_of s w fs" and "tdata w"
  shows "\<exists>v. tt_collapseAll s w = Returns v \<and> forest_of s v fs \<and>
      (\<forall>n\<in>set (forder fs). collapsed v n \<and> (expanded v n \<longleftrightarrow> expanded w n \<and> collapsed w n) \<and>
        (\<forall>as. chain w n as \<longrightarrow> (disp v n \<longleftrightarrow> disp w n \<and> (\<forall>a\<in>set as. collapsed w a)))) \<and>
      (vis_inv w fs \<and> flags_ok w fs \<longrightarrow>
        vis_inv v fs \<and> (\<forall>n\<in>set (forder fs). \<not> expanded v n \<and> (disp v n \<longleftrightarrow> n \<in> root ` set fs)))"
proof -
  obtain v where v: "tree_collapse_all s w = Returns v" "forest_of s v fs"
    "\<And>m. m \<in> set (forder fs) \<Longrightarrow> collapsed v m"
    "\<And>m. m \<in> set (forder fs) \<Longrightarrow> expanded v m \<longleftrightarrow> expanded w m \<and> collapsed w m"
    "\<And>m as. m \<in> set (forder fs) \<Longrightarrow> chain w m as \<Longrightarrow> disp v m \<longleftrightarrow> disp w m \<and> (\<forall>a\<in>set as. collapsed w a)"
    by (rule collapse_all_exact [OF assms(1)], rule that; assumption)
  have "vis_inv v fs \<and> (\<forall>n\<in>set (forder fs). \<not> expanded v n \<and> (disp v n \<longleftrightarrow> n \<in> root ` set fs))"
    if inv: "vis_inv w fs" and flags: "flags_ok w fs"
  proof -
    obtain u where "tree_collapse_all s w = Returns u" "vis_inv u fs"
      "\<forall>n\<in>set (forder fs). collapsed u n \<and> \<not> expanded u n \<and> (disp u n \<longleftrightarrow> n \<in> root ` set fs)"
      by (rule collapse_all_in_forest [OF assms(1) inv flags])
    then show ?thesis using v(1) by simp
  qed
  moreover have "tt_collapseAll s w = Returns v"
    using v(1) assms(2) by (simp add: tt_collapseAll_def with_tree_def)
  ultimately show ?thesis using v(2-5) by blast
qed

text \<open>A table in order, and one whose node \<open>2\<close> is displayed below the collapsed root \<open>1\<close>, as \<open>move\<close> leaves it.\<close>

definition stray_table :: world where
  "stray_table = open_table\<lparr>d_row := (d_row open_table)
     (0 := (d_row open_table 0)\<lparr>r_classes := {''collapsed''}\<rparr>,
      2 := (d_row open_table 2)\<lparr>r_displayed := False\<rparr>, 3 := (d_row open_table 3)\<lparr>r_displayed := False\<rparr>)\<rparr>"

theorem collapseAll_leaves_the_roots_witness:
  "(\<exists>v. tt_collapseAll demo_settings open_table = Returns v \<and> disp v 0 \<and> disp v 4 \<and>
     \<not> disp v 1 \<and> \<not> disp v 2 \<and> \<not> disp v 3) \<and>
   (\<exists>v. tt_collapseAll demo_settings stray_table = Returns v \<and> collapsed v 0 \<and> disp v 1)"
proof
  obtain v where "tt_collapseAll demo_settings open_table = Returns v"
    "\<forall>n\<in>set (forder open_forest). \<not> expanded v n \<and> (disp v n \<longleftrightarrow> n \<in> root ` set open_forest)"
    using collapseAll_leaves_the_roots [OF open_table_forest open_table_facts(2)] open_table_vis
      open_table_flags by blast
  then show "\<exists>v. tt_collapseAll demo_settings open_table = Returns v \<and> disp v 0 \<and> disp v 4 \<and>
     \<not> disp v 1 \<and> \<not> disp v 2 \<and> \<not> disp v 3"
    unfolding open_forder by (intro exI [of _ v]) (simp add: open_forest_def)
  have fo: "forest_of demo_settings stray_table open_forest"
    unfolding forest_of_def open_forder
    by (auto simp: open_forest_def stray_table_def open_defs keyed_def row_data_def inj_on_def)
  have "tdata stray_table" "chain stray_table 1 [0]" "disp stray_table 1" "collapsed stray_table 0"
    by (simp_all add: stray_table_def open_defs parent_node_def disp_def collapsed_def has_class_def)
  moreover have "0 \<in> set (forder open_forest)" "1 \<in> set (forder open_forest)" by (simp_all add: open_forder)
  ultimately have stray: "tdata stray_table" "chain stray_table 1 [0]" "disp stray_table 1"
    "collapsed stray_table 0" "0 \<in> set (forder open_forest)" "1 \<in> set (forder open_forest)"
    by blast+
  obtain v where v: "tt_collapseAll demo_settings stray_table = Returns v"
    "\<forall>n\<in>set (forder open_forest). collapsed v n \<and>
      (expanded v n \<longleftrightarrow> expanded stray_table n \<and> collapsed stray_table n) \<and>
      (\<forall>as. chain stray_table n as \<longrightarrow>
        (disp v n \<longleftrightarrow> disp stray_table n \<and> (\<forall>a\<in>set as. collapsed stray_table a)))"
    using collapseAll_leaves_the_roots [OF fo stray(1)] by blast
  have "disp v 1 \<longleftrightarrow> disp stray_table 1 \<and> (\<forall>a\<in>set [0]. collapsed stray_table a)"
    using v(2) stray(2,6) by blast
  then show "\<exists>v. tt_collapseAll demo_settings stray_table = Returns v \<and> collapsed v 0 \<and> disp v 1"
    using v stray(3-5) by auto
qed

text \<open>C16: \<open>expandAll\<close> on a visible table in order (the display contract holds, which \<open>move\<close> may break,
  and no node comes in the list of nodes before one of its ancestors) returns with every node
  expanded and every row displayed. Where all nodes are expanded already it does nothing, in any
  state: a row that is hidden then stays hidden.\<close>

theorem expandAll_shows_everything:
  assumes "forest_of s w fs" and "tdata w"
  shows "(vis_inv w fs \<and> d_visible w \<and> parents_first w \<longrightarrow>
      (\<exists>v. tt_expandAll s w = Returns v \<and> forest_of s v fs \<and> vis_inv v fs \<and>
        (\<forall>n\<in>set (forder fs). expanded v n \<and> disp v n))) \<and>
    ((\<forall>n\<in>set (forder fs). expanded w n) \<longrightarrow> tt_expandAll s w = Returns w)"
proof (intro conjI impI)
  assume "vis_inv w fs \<and> d_visible w \<and> parents_first w"
  then obtain v where "tree_expand_all s w = Returns v" "forest_of s v fs" "vis_inv v fs"
    "\<forall>n\<in>set (forder fs). expanded v n \<and> disp v n"
    using expand_all_in_forest [OF assms(1)] by blast
  then show "\<exists>v. tt_expandAll s w = Returns v \<and> forest_of s v fs \<and> vis_inv v fs \<and>
      (\<forall>n\<in>set (forder fs). expanded v n \<and> disp v n)"
    using assms(2) by (simp add: tt_expandAll_def with_tree_def)
next
  assume "\<forall>n\<in>set (forder fs). expanded w n"
  then have "set ns \<subseteq> set (forder fs) \<Longrightarrow> each (\<lambda>w1 n. node_expand s (fuel_of w1) w1 n) w ns = Returns w" for ns
    by (induction ns) (simp_all add: node_expand_def expand_via_def)
  then show "tt_expandAll s w = Returns w"
    using assms(2) forest_ofD(5) [OF assms(1)]
    by (simp add: tt_expandAll_def with_tree_def tree_expand_all_def)
qed

theorem expandAll_shows_everything_witness:
  "(\<exists>v. tt_expandAll demo_settings open_table = Returns v \<and> disp v 3 \<and> expanded v 2) \<and>
   tt_expandAll demo_settings open_table = Returns open_table"
proof -
  have "\<forall>n\<in>set (forder open_forest). expanded open_table n"
    by (simp add: open_forder open_defs expanded_def has_class_def)
  then have "tt_expandAll demo_settings open_table = Returns open_table"
    using expandAll_shows_everything [OF open_table_forest open_table_facts(2)] by blast
  moreover obtain v where "tt_expandAll demo_settings open_table = Returns v"
    "\<forall>n\<in>set (forder open_forest). expanded v n \<and> disp v n"
    using expandAll_shows_everything [OF open_table_forest open_table_facts(2)] open_table_vis
      open_table_facts(1) open_table_parents_first by blast
  ultimately show ?thesis by (auto simp: open_forder)
qed

section \<open>Structure\<close>

text \<open>C22: \<open>ancestors\<close> returns for every node of the table: the chain of parents ends, within the
  fuel, without meeting a node twice.\<close>

theorem ancestors_end:
  assumes "forest_of s w fs" and "n \<in> set (forder fs)"
  shows "\<exists>as. ancestors (fuel_of w) w n = Some as \<and> distinct (n # as) \<and>
      set as \<subseteq> set (forder fs) \<and> chain w n as"
proof -
  obtain as where as: "ancestors (fuel_of w) w n = Some as" "chain w n as"
    by (rule forest_of_ancestors [OF assms])
  have "set as \<subseteq> set (forder fs)"
    using chain_members [OF as(2)] forest_ofD(8) [OF assms(1)] by (auto simp: ran_def)
  then show ?thesis using as chain_distinct [OF as(2)] by blast
qed

theorem ancestors_end_witness:
  "\<exists>as. ancestors (fuel_of open_table) open_table 3 = Some as \<and> distinct (3 # as)"
  using ancestors_end [OF open_table_forest, of 3] by (auto simp: open_forder)

text \<open>C24: \<open>level\<close> is the depth: 0 at the roots, and one more at a child than at its parent.\<close>

theorem level_is_depth:
  assumes "forest_of s w fs"
  shows "(\<forall>t\<in>set fs. level w (root t) = Some 0) \<and>
    (\<forall>m\<in>set (forder fs). \<exists>l. level w m = Some l \<and> (\<forall>c\<in>set (children w m). level w c = Some (Suc l)))"
proof -
  have "\<exists>l. level w m = Some l \<and> (\<forall>c\<in>set (children w m). level w c = Some (Suc l))"
    if m: "m \<in> set (forder fs)" for m
  proof -
    obtain l where "level w m = Some l" using forest_of_level [OF assms m] by blast
    then show ?thesis using level_child [OF assms m] by auto
  qed
  then show ?thesis using level_root [OF assms] by blast
qed

theorem level_is_depth_witness:
  "level open_table 0 = Some 0 \<and> (\<exists>l. level open_table 0 = Some l \<and> level open_table 1 = Some (Suc l))"
proof -
  have "0 \<in> set (forder open_forest)" "Rose 0 [Rose 1 [Rose 3 []], Rose 2 []] \<in> set open_forest"
    "1 \<in> set (children open_table 0)"
    by (simp_all add: open_forder open_forest_def open_defs)
  then show ?thesis using level_is_depth [OF open_table_forest] by (metis rose.sel(1))
qed

text \<open>C23: \<open>findLastNode\<close> returns the last node of the branch in preorder.\<close>

theorem findLastNode_is_last:
  assumes "forest_of s w fs" and "t \<in> set (fsubtrees fs)"
  shows "find_last_node (fuel_of w) w (root t) = Some (last (preorder t))"
  by (rule find_last_node_eq [OF forest_of_subtree(1) [OF assms] forest_height_fuel(1) [OF assms]])

theorem findLastNode_is_last_witness: "find_last_node (fuel_of open_table) open_table 1 = Some 3"
  using findLastNode_is_last [OF open_table_forest open_subtree_1] by simp

end
