(* ===== verification/Tree_Limits.thy ===== *)
theory Tree_Limits
  imports Tree_Properties
begin

text \<open>
  What the plugin does outside its contract: unknown ids, ids of parents
  that are not in the table, rows in an order \<open>loadRows\<close> does not expect; and what its methods
  leave undone inside it.
\<close>

section \<open>Errors\<close>

text \<open>C26: For an id no node has, \<open>collapseNode\<close>, \<open>expandNode\<close>, \<open>removeNode\<close> and \<open>reveal\<close> throw
  the error that names the id, \<open>move\<close> (for either id, if the other one is known or not) throws a
  TypeError, and none of them changes the table.\<close>

theorem unknown_ids_throw:
  assumes "tdata w" and "tmap w (prop_key i) = None"
  shows "tt_collapseNode s i w = Throws (UnknownNode (prop_key i)) w \<and>
      tt_expandNode s i w = Throws (UnknownNode (prop_key i)) w \<and>
      tt_removeNode s i w = Throws (UnknownNode (prop_key i)) w \<and>
      tt_reveal s i w = Throws (UnknownNode (prop_key i)) w \<and>
      tt_move s i j w = Throws TypeError w \<and> tt_move s j i w = Throws TypeError w"
  using assms
  by (auto simp: tt_collapseNode_def tt_expandNode_def tt_removeNode_def tt_reveal_def tt_move_def
      with_node_def with_tree_def split: option.split)

theorem unknown_ids_throw_witness:
  "tt_reveal demo_settings (DNum 9) open_table = Throws (UnknownNode ''9'') open_table"
proof -
  have "prop_key (DNum 9) = ''9''" by code_simp
  then show ?thesis
    using unknown_ids_throw [OF open_table_facts(2), of "DNum 9"]
    by (simp add: open_table_facts(5) open_tree_def)
qed

text \<open>C27: A node whose parent id names no node of the table, and which has no children, is only
  half removed: \<open>removeNode\<close> takes its row out of the table and then throws, and the node is still
  in the list of nodes and under its id. \<open>reveal\<close> of such a node throws and changes nothing.\<close>

theorem orphan_is_half_removed:
  assumes "tdata w" and "tmap w (prop_key i) = Some n" and "children w n = []"
    and "n_parentId (heap w n) = Some p" and "tmap w (prop_key p) = None"
  shows "(\<exists>v. tt_removeNode s i w = Throws TypeError v \<and> row_of w n \<notin> set (d_order v) \<and>
      tmap v = tmap w \<and> tnodes v = tnodes w) \<and> tt_reveal s i w = Throws TypeError w"
proof (rule conjI)
  have pn: "parent_node w n = None" using assms(4,5) by (simp add: parent_node_def)
  let ?u = "update_branch_leaf_class s (upd_node w n (\<lambda>x. x\<lparr>n_children := []\<rparr>)) n"
  let ?v = "detach_row ?u n"
  have u: "tmap ?u = tmap w" "tnodes ?u = tnodes w" "d_order ?u = d_order w"
    "heap ?u = (heap w)(n := (heap w n)\<lparr>n_children := []\<rparr>)"
    by (auto simp: update_branch_leaf_class_def Let_def upd_node_def)
  then have "parent_node ?v n = None" and "n_parentId (heap ?v n) \<noteq> None"
    using assms(4,5) by (simp_all add: parent_node_def detach_row_def)
  then have "tt_removeNode s i w = Throws TypeError ?v"
    using assms(1-3)
    by (simp add: tt_removeNode_def with_node_def with_tree_def fuel_of_def unload_via_def drop_node_def)
  moreover have "row_of w n \<notin> set (d_order ?v)" "tmap ?v = tmap w" "tnodes ?v = tnodes w"
    using u by (simp_all add: detach_row_def remove_row_def)
  ultimately show "\<exists>v. tt_removeNode s i w = Throws TypeError v \<and> row_of w n \<notin> set (d_order v) \<and>
      tmap v = tmap w \<and> tnodes v = tnodes w"
    by blast
  show "tt_reveal s i w = Throws TypeError w"
    using assms(1,2,4) pn by (simp add: tt_reveal_def with_node_def with_tree_def fuel_of_def)
qed

text \<open>The table with the row of node \<open>2\<close> and its child left out: \<open>1\<close>, and \<open>4\<close> below a node that is
  not there.\<close>

definition orphan_table :: world where
  "orphan_table = open_table\<lparr>d_order := [0, 3], tmap := (\<lambda>k. if k = ''1'' then Some 0
     else if k = ''4'' then Some 3 else None), tnodes := [0, 3], troots := [0, 3]\<rparr>"

theorem orphan_is_half_removed_witness:
  "\<exists>v. tt_removeNode demo_settings (DNum 4) orphan_table = Throws TypeError v \<and>
     3 \<notin> set (d_order v) \<and> tnodes v = [0, 3]"
proof -
  have "tdata orphan_table" "tmap orphan_table (prop_key (DNum 4)) = Some 3"
    "children orphan_table 3 = []" "n_parentId (heap orphan_table 3) = Some (DNum 2)"
    "tmap orphan_table (prop_key (DNum 2)) = None" "row_of orphan_table 3 = 3"
    "tnodes orphan_table = [0, 3]"
    by (simp_all add: orphan_table_def open_defs)
  then show ?thesis using orphan_is_half_removed [of orphan_table "DNum 4" 3 "DNum 2"] by auto
qed

text \<open>\<open>removeChild\<close> of a node that is not among the children removes the last child instead:
  its position is -1, which \<open>splice\<close> counts from the end.\<close>

theorem removeChild_of_a_stranger:
  assumes "c \<notin> set (children w p)"
  shows "children (remove_child w p c) p = butlast (children w p)"
  using assms by (simp add: remove_child_def splice1_absent)

theorem removeChild_of_a_stranger_witness: "children (remove_child open_table 0 4) 0 = [1]"
proof -
  have "4 \<notin> set (children open_table 0)" by (simp add: open_defs)
  then show ?thesis using removeChild_of_a_stranger by (simp add: open_defs)
qed

text \<open>C25: A row that names itself as its parent becomes its own and only child, and not a root;
  \<open>collapseNode\<close> on it never returns, however deep the recursion may go.\<close>

theorem own_parent_never_collapses:
  assumes "row_data w r (nodeIdAttr s) = Some i" and "parent_id_of s w r = Some p"
    and "prop_key p = prop_key i" and "tdata w" and "\<not> has_class w r ''collapsed''"
  shows "children (load_row s w r) (nextn w) = [nextn w] \<and> troots (load_row s w r) = troots w \<and>
    tt_collapseNode s i (load_row s w r) = Diverges \<and>
    (\<forall>f. node_collapse s f (load_row s w r) (nextn w) = Diverges)"
proof -
  let ?n = "nextn w"
  define v where "v = load_row s w r"
  define w1 where "w1 = new_node s w r i"
  define w2 where "w2 = w1\<lparr>tnodes := tnodes w1 @ [?n], tmap := (tmap w1)(prop_key i \<mapsto> ?n)\<rparr>"
  have nn: "heap w2 ?n = leaf_node s w r i" "tmap w2 (prop_key i) = Some ?n" "troots w2 = troots w"
    by (simp_all add: w2_def w1_def new_node_facts)
  have "parent_node w2 ?n = Some ?n" using assms(2,3) nn by (simp add: parent_node_def leaf_node_def)
  then have v: "v = add_child w2 ?n ?n"
    using assms(1) by (simp add: v_def load_row_def Let_def w1_def [symmetric] w2_def [symmetric])
  have c: "children v ?n = [?n]" and tr: "troots v = troots w"
    using nn by (simp_all add: v add_child_def leaf_node_def)
  have hide: "node_hide f x ?n = Diverges" if "children x ?n = [?n]" for f and x :: world
    using that by (induction f arbitrary: x) auto
  have "row_of v ?n = r" using nn by (simp add: v add_child_def leaf_node_def)
  moreover have "r_classes (d_row v r) = r_classes (d_row w r)"
    using new_node_facts(6) [of w s r i] by (simp add: v add_child_def w2_def w1_def same_rows_def)
  ultimately have "\<not> collapsed v ?n" using assms(5) by (simp add: collapsed_def has_class_def)
  then have all: "\<forall>f. node_collapse s f v ?n = Diverges"
    using c hide by (simp add: node_collapse_def Let_def hide_children_def)
  have "tdata v" "tmap v (prop_key i) = Some ?n"
    using assms(4) nn new_node_facts(6) [of w s r i]
    by (simp_all add: v add_child_def w2_def w1_def same_rows_def)
  then have "tt_collapseNode s i v = Diverges"
    using all by (simp add: tt_collapseNode_def with_node_def with_tree_def)
  then show ?thesis using c tr all by (simp add: v_def)
qed

definition self_table :: world where
  "self_table = open_table\<lparr>d_row := (d_row open_table)(5 := plain_row 6 (Some 6) ''self'')\<rparr>"

theorem own_parent_never_collapses_witness:
  "tt_collapseNode demo_settings (DNum 6) (load_row demo_settings self_table 5) = Diverges"
proof -
  have "row_data self_table 5 (nodeIdAttr demo_settings) = Some (DNum 6)"
    "parent_id_of demo_settings self_table 5 = Some (DNum 6)" "tdata self_table"
    "\<not> has_class self_table 5 ''collapsed''"
    by (simp_all add: self_table_def open_defs row_data_def parent_id_of_def has_class_def)
  then show ?thesis
    using own_parent_never_collapses [of self_table 5 demo_settings "DNum 6" "DNum 6"] by simp
qed

section \<open>What is left undone\<close>

text \<open>C28: \<open>move\<close> does not look at the destination's state: a displayed node that is moved under a
  node that is hidden or not expanded stays displayed, and the display contract is broken.\<close>

theorem move_ignores_collapsed_destination:
  assumes "forest_of s w fs" and "tdata w" and "nodeIdAttr s \<noteq> parentIdAttr s"
    and "t \<in> set (fsubtrees fs)" and "d \<in> set (forder fs)" and "d \<notin> set (preorder t)"
    and "tmap w (prop_key i) = Some (root t)" and "tmap w (prop_key j) = Some d"
    and "n_parentId (heap w (root t)) \<noteq> Some (n_id (heap w d))"
    and "disp w (root t)" and "\<not> (disp w d \<and> expanded w d)"
  shows "\<exists>v. tt_move s i j w = Returns v \<and> disp v (root t) \<and>
      \<not> vis_inv v (fgraft d t (fprune (root t) fs))"
proof -
  let ?gs = "fgraft d t (fprune (root t) fs)"
  obtain v where v: "tree_move s w (root t) d = Returns v" "forest_of s v ?gs"
    "set (forder ?gs) = set (forder fs)"
    "d_order v = block_behind (row_of w d) (map (row_of w) (preorder t)) (d_order w)"
    "\<forall>m\<in>set (preorder t). rendered s v m"
    "(\<forall>m\<in>set (forder fs). labelled s w m) \<longrightarrow> (\<forall>m\<in>set (forder fs). labelled s v m)"
    "\<And>m. disp v m = disp w m" "\<And>m. expanded v m = expanded w m"
    "parent_node v (root t) = Some d" "children v d = filter (\<lambda>x. x \<noteq> root t) (children w d) @ [root t]"
    "troots v = troots w"
    by (rule tree_move_in_forest [OF assms(1,4,5,6,3,9)], rule that; assumption)
  have "\<not> vis_inv v ?gs"
  proof
    assume "vis_inv v ?gs"
    then have "disp v (root t) = (disp v d \<and> expanded v d)"
      using assms(5) v(3,10) by (auto simp: vis_inv_def vis_ok_def)
    then show False using assms(10,11) v(7,8) by simp
  qed
  moreover have "tt_move s i j w = Returns v"
    using v(1) assms(2,7,8) by (simp add: tt_move_def with_tree_def)
  ultimately show ?thesis using v(7) assms(10) by auto
qed

text \<open>The example table with node \<open>5\<close> collapsed.\<close>

definition half_open_table :: world where
  "half_open_table = open_table\<lparr>d_row := (d_row open_table)
     (4 := (d_row open_table 4)\<lparr>r_classes := {''collapsed''}\<rparr>)\<rparr>"

lemma half_open_forest: "forest_of demo_settings half_open_table open_forest"
  unfolding forest_of_def open_forder
  by (auto simp: open_forest_def half_open_table_def open_defs keyed_def row_data_def inj_on_def)

theorem move_ignores_collapsed_destination_witness:
  "\<exists>v. tt_move demo_settings (DNum 2) (DNum 5) half_open_table = Returns v \<and> disp v 1 \<and>
     \<not> vis_inv v [Rose 0 [Rose 2 []], Rose 4 [Rose 1 [Rose 3 []]]]"
proof -
  have t: "Rose 1 [Rose 3 []] \<in> set (fsubtrees open_forest)" by (rule open_subtree_1)
  have k: "tmap half_open_table (prop_key (DNum 2)) = Some (root (Rose 1 [Rose 3 []]))"
    "tmap half_open_table (prop_key (DNum 5)) = Some 4" "tdata half_open_table"
    "n_parentId (heap half_open_table (root (Rose 1 [Rose 3 []]))) \<noteq> Some (n_id (heap half_open_table 4))"
    "disp half_open_table (root (Rose 1 [Rose 3 []]))"
    "\<not> (disp half_open_table 4 \<and> expanded half_open_table 4)"
    "4 \<in> set (forder open_forest)" "4 \<notin> set (preorder (Rose (1::nat) [Rose 3 []]))"
    by (simp_all add: half_open_table_def open_defs disp_def expanded_def has_class_def open_forder)
  show ?thesis
    using move_ignores_collapsed_destination
        [OF half_open_forest k(3) open_table_facts(3) t k(7,8) k(1,2) k(4-6)]
    by (simp add: open_forest_def)
qed

text \<open>C29: \<open>move\<close> appends the node to the children of the destination but puts its rows directly behind
  the destination's own row: where the destination has other children, the page shows the moved node
  before them and the tree has it behind them.\<close>

theorem move_shows_the_last_child_first:
  assumes "forest_of s w fs" and "tdata w" and "nodeIdAttr s \<noteq> parentIdAttr s"
    and "t \<in> set (fsubtrees fs)" and "d \<in> set (forder fs)" and "d \<notin> set (preorder t)"
    and "tmap w (prop_key i) = Some (root t)" and "tmap w (prop_key j) = Some d"
    and "n_parentId (heap w (root t)) \<noteq> Some (n_id (heap w d))"
    and "c \<in> set (children w d)" and "c \<noteq> root t"
    and "d_order w = xs @ row_of w d # ys" and "row_of w c \<in> set ys"
  shows "\<exists>v xs' ys'. tt_move s i j w = Returns v \<and>
      children v d = filter (\<lambda>m. m \<noteq> root t) (children w d) @ [root t] \<and>
      d_order v = xs' @ row_of w d # row_of w (root t) # ys' \<and> row_of w c \<in> set ys'"
proof -
  let ?gs = "fgraft d t (fprune (root t) fs)" and ?R = "map (row_of w) (preorder t)"
  obtain v where v: "tree_move s w (root t) d = Returns v" "forest_of s v ?gs"
    "set (forder ?gs) = set (forder fs)" "d_order v = block_behind (row_of w d) ?R (d_order w)"
    "\<forall>m\<in>set (preorder t). rendered s v m"
    "(\<forall>m\<in>set (forder fs). labelled s w m) \<longrightarrow> (\<forall>m\<in>set (forder fs). labelled s v m)"
    "\<And>m. disp v m = disp w m" "\<And>m. expanded v m = expanded w m"
    "parent_node v (root t) = Some d" "children v d = filter (\<lambda>x. x \<noteq> root t) (children w d) @ [root t]"
    "troots v = troots w"
    by (rule tree_move_in_forest [OF assms(1,4,5,6,3,9)], rule that; assumption)
  have rows: "row_of w m \<notin> set ?R" if "m \<in> set (forder fs)" "m \<notin> set (preorder t)" for m
    using that inj_onD [OF forest_ofD(10) [OF assms(1)], of m] forest_of_subtree(3) [OF assms(1,4)] by auto
  have ct: "c \<notin> set (preorder t)"
    using child_into_subtree [OF assms(1,4,5,6,10)] assms(11) by blast
  have "row_of w d \<notin> set xs" using forest_ofD(11) [OF assms(1)] assms(12) by simp
  then have "d_order v = filter (\<lambda>x. x \<notin> set ?R) xs @ row_of w d # ?R @ filter (\<lambda>x. x \<notin> set ?R) ys"
    unfolding v(4) block_behind_def assms(12) using rows [OF assms(5,6)] by (simp add: put_behind_split)
  moreover have "?R = row_of w (root t) # map (row_of w) (below t)" by (simp add: preorder_unfold)
  moreover have "row_of w c \<notin> set ?R" by (rule rows [OF forest_kid_in [OF assms(1,5,10)] ct])
  moreover have "tt_move s i j w = Returns v"
    using v(1) assms(2,7,8) by (simp add: tt_move_def with_tree_def)
  ultimately show ?thesis
    using v(10) assms(13)
    by (intro exI [of _ v] exI [of _ "filter (\<lambda>x. x \<notin> set ?R) xs"]
        exI [of _ "map (row_of w) (below t) @ filter (\<lambda>x. x \<notin> set ?R) ys"]) simp
qed

theorem move_shows_the_last_child_first_witness:
  "\<exists>v xs ys. tt_move demo_settings (DNum 5) (DNum 1) open_table = Returns v \<and> children v 0 = [1, 2, 4] \<and>
     d_order v = xs @ 0 # 4 # ys \<and> 2 \<in> set ys"
proof -
  have t: "Rose 4 [] \<in> set (fsubtrees open_forest)" by (simp add: open_subtrees)
  have k: "0 \<in> set (forder open_forest)" "0 \<notin> set (preorder (Rose (4::nat) []))"
    "tmap open_table (prop_key (DNum 5)) = Some (root (Rose 4 []))"
    "tmap open_table (prop_key (DNum 1)) = Some 0"
    "n_parentId (heap open_table (root (Rose 4 []))) \<noteq> Some (n_id (heap open_table 0))"
    "2 \<in> set (children open_table 0)" "2 \<noteq> root (Rose (4::nat) [])"
    "d_order open_table = [] @ row_of open_table 0 # [1, 3, 2, 4]" "row_of open_table 2 \<in> set [1, 3, 2, 4]"
    by (simp_all add: open_defs open_forder)
  have r: "children open_table 0 = [1, 2]" "row_of open_table 0 = 0" "row_of open_table 4 = 4"
    "row_of open_table 2 = 2" by (simp_all add: open_defs)
  show ?thesis
    using move_shows_the_last_child_first [OF open_table_forest open_table_facts(2,3) t k] r by auto
qed

text \<open>C30: \<open>removeNode\<close> does not relabel the parent: a parent whose only child is removed, and
  which is no branch by its own attribute, keeps the class \<open>branch\<close> although it is a leaf now.\<close>

theorem removeNode_leaves_the_parent_a_branch:
  assumes "forest_of s w fs" and "tdata w" and "t \<in> set (fsubtrees fs)"
    and "tmap w (prop_key i) = Some (root t)" and "parent_node w (root t) = Some p"
    and "children w p = [root t]" and "labelled s w p"
    and "row_data w (row_of w p) (branchAttr s) \<noteq> Some (DBool True)"
  shows "\<exists>v. tt_removeNode s i w = Returns v \<and> children v p = [] \<and>
      has_class v (row_of v p) ''branch'' \<and> \<not> is_branch_node s v p \<and> \<not> labelled s v p"
proof -
  obtain v E where v: "remove_node s (fuel_of w) w (root t) = Returns v"
    "forest_of s v (fprune (root t) fs)" "gone w (set (preorder t)) E v"
    "vis_inv w fs \<longrightarrow> vis_inv v (fprune (root t) fs)"
    "\<And>m. m \<in> set (forder fs) \<Longrightarrow> m \<notin> set (preorder t) \<Longrightarrow>
      children v m = filter (\<lambda>x. x \<noteq> root t) (children w m)"
    by (rule remove_in_forest [OF assms(1,3)], rule that; assumption)
  note h = forest_hung [OF assms(1,3,5)]
  have pt: "p \<notin> set (preorder t)" using h(1) by (simp add: hung_def)
  have c: "children v p = []" using v(5) [OF h(2) pt] assms(6) by simp
  have "row_of w p \<notin> row_of w ` set (preorder t)"
    using pt h(2) forest_of_subtree(3) [OF assms(1,3)] inj_onD [OF forest_ofD(10) [OF assms(1)], of p]
    by auto
  then have r: "d_row v (row_of w p) = d_row w (row_of w p)" by (rule goneD(7) [OF v(3)])
  have rp: "row_of v p = row_of w p" by (rule goneD(6) [OF v(3)])
  have "is_branch_node s w p" using assms(6) by (simp add: is_branch_node_def)
  then have "has_class v (row_of v p) ''branch''"
    using assms(7) r rp by (simp add: labelled_def has_class_def)
  moreover have "\<not> is_branch_node s v p"
    using c assms(8) r rp by (simp add: is_branch_node_def row_data_def cong: option.case_cong)
  moreover have "tt_removeNode s i w = Returns v"
    using v(1) assms(2,4) by (simp add: tt_removeNode_def with_node_def with_tree_def)
  ultimately show ?thesis using c by (auto simp: labelled_def)
qed

text \<open>The example table with the class \<open>branch\<close> on the row of node \<open>2\<close>.\<close>

definition marked_table :: world where
  "marked_table = open_table\<lparr>d_row := (d_row open_table)
     (1 := (d_row open_table 1)\<lparr>r_classes := {''expanded'', ''branch''}\<rparr>)\<rparr>"

lemma marked_forest: "forest_of demo_settings marked_table open_forest"
  unfolding forest_of_def open_forder
  by (auto simp: open_forest_def marked_table_def open_defs keyed_def row_data_def inj_on_def)

theorem removeNode_leaves_the_parent_a_branch_witness:
  "\<exists>v. tt_removeNode demo_settings (DNum 4) marked_table = Returns v \<and>
     has_class v (row_of v 1) ''branch'' \<and> children v 1 = []"
proof -
  have t: "Rose 3 [] \<in> set (fsubtrees open_forest)" by (simp add: open_subtrees)
  have k: "tdata marked_table" "tmap marked_table (prop_key (DNum 4)) = Some (root (Rose 3 []))"
    "parent_node marked_table (root (Rose 3 [])) = Some 1"
    "children marked_table 1 = [root (Rose 3 [])]" "labelled demo_settings marked_table 1"
    "row_data marked_table (row_of marked_table 1) (branchAttr demo_settings) \<noteq> Some (DBool True)"
    by (simp_all add: marked_table_def open_defs parent_node_def labelled_def has_class_def
        is_branch_node_def row_data_def)
  show ?thesis
    using removeNode_leaves_the_parent_a_branch [OF marked_forest k(1) t k(2-6)] by auto
qed

end
