(* ===== verification/Token_Tree.thy ===== *)
theory Token_Tree
  imports Tree_Limits
begin

text \<open>
  The behaviour \<open>tokenTree\<close> of \<open>token.js\<close>: every table of tokens that \<open>once\<close> hands out becomes
  an expandable tree table. A page is a family of tables.
\<close>

definition token_tree_attach :: "nat list \<Rightarrow> page \<Rightarrow> page outcome" where
  "token_tree_attach tables pg = tt_init_each (\<lambda>s. s\<lparr>expandable := True\<rparr>) False tables pg"

abbreviation token_settings :: settings where
  "token_settings \<equiv> default_settings\<lparr>expandable := True\<rparr>"

text \<open>What a table looks like when its tree has been made.\<close>

definition roots_only :: "ttable \<Rightarrow> bool" where
  "roots_only t \<longleftrightarrow> t_settings t = token_settings \<and> tdata (t_world t) \<and>
     (\<exists>fs. forest_of token_settings (t_world t) fs \<and> vis_inv (t_world t) fs) \<and>
     (\<forall>n\<in>set (tnodes (t_world t)). disp (t_world t) n \<longleftrightarrow> n_parentId (heap (t_world t) n) = None)"

lemma init_roots_only:
  assumes "pristine token_settings (t_world t)" and "\<not> tdata (t_world t)"
  shows "\<exists>u. tt_init (\<lambda>s. s\<lparr>expandable := True\<rparr>) False t = Returns u \<and> roots_only u"
proof -
  have st: "starts_collapsed token_settings" by (simp add: starts_collapsed_def default_settings_def)
  obtain v fs where v: "tt_init (\<lambda>s. s\<lparr>expandable := True\<rparr>) False t =
      Returns \<lparr>t_world = v, t_settings = token_settings\<rparr>"
    "forest_of token_settings v fs" "vis_inv v fs" "tdata v" "\<forall>t\<in>set fs. \<not> expanded v (root t)"
    using init_forest [of "\<lambda>s. s\<lparr>expandable := True\<rparr>" t False] assms st by auto
  have "disp v n \<longleftrightarrow> n_parentId (heap v n) = None" if n: "n \<in> set (tnodes v)" for n
  proof -
    have nF: "n \<in> set (forder fs)" using n forest_ofD(5) [OF v(2)] by simp
    obtain as where as: "chain v n as" by (rule forest_of_chain [OF v(2) nF])
    have "n_parentId (heap v n) = None \<longleftrightarrow> n \<in> root ` set fs"
      using forest_parent_child [OF v(2) nF] forest_ofD(2) [OF v(2)] by (auto simp: parent_node_def)
    then show ?thesis using disp_below_closed_roots [OF v(2,3,5) as nF] by simp
  qed
  then show ?thesis using v by (auto simp: roots_only_def)
qed

lemma token_tree_attach_all:
  assumes "distinct ts" and "\<forall>i\<in>set ts. pristine token_settings (t_world (pg i)) \<and> \<not> tdata (t_world (pg i))"
  shows "\<exists>pg'. token_tree_attach ts pg = Returns pg' \<and> (\<forall>i\<in>set ts. roots_only (pg' i)) \<and>
      (\<forall>i. i \<notin> set ts \<longrightarrow> pg' i = pg i)"
  using assms
proof (induction ts arbitrary: pg)
  case Nil
  then show ?case by (simp add: token_tree_attach_def tt_init_each_def)
next
  case (Cons i ts)
  obtain u where u: "tt_init (\<lambda>s. s\<lparr>expandable := True\<rparr>) False (pg i) = Returns u" "roots_only u"
    using init_roots_only Cons.prems(2) by (meson list.set_intros(1))
  have "\<forall>j\<in>set ts. pristine token_settings (t_world ((pg(i := u)) j)) \<and> \<not> tdata (t_world ((pg(i := u)) j))"
    using Cons.prems by auto
  moreover have "distinct ts" using Cons.prems(1) by simp
  ultimately obtain pg' where "token_tree_attach ts (pg(i := u)) = Returns pg'" "\<forall>j\<in>set ts. roots_only (pg' j)"
    "\<forall>j. j \<notin> set ts \<longrightarrow> pg' j = (pg(i := u)) j"
    using Cons.IH [of "pg(i := u)"] by blast
  then show ?case using u Cons.prems(1) by (intro exI [of _ pg']) (auto simp: token_tree_attach_def tt_init_each_def)
qed

lemma token_tree_attach_again:
  assumes "\<forall>i\<in>set ts. tdata (t_world (pg i))"
  shows "token_tree_attach ts pg = Returns pg"
  using assms
  by (induction ts) (simp_all add: token_tree_attach_def tt_init_each_def tt_init_def)

end
