(* ===== verification/Tree_Session.thy ===== *)
theory Tree_Session
  imports Tree_Refinement Token_Tree
begin

text \<open>
  Sessions: whatever sequence of methods a page calls on a table, the table represents the forest
  that the sequence of abstract operations gives, and no call hangs. Calls that fail leave the table
  as the error left it and the session goes on, as it does in a page whose event handlers throw.
\<close>

text \<open>The table a page is left with.\<close>

definition after_call :: "tt_call \<Rightarrow> ttable \<Rightarrow> ttable option" where
  "after_call c t =
     (case treetable c t of Returns u \<Rightarrow> Some u | Throws e u \<Rightarrow> Some u | Diverges \<Rightarrow> None)"

text \<open>A session, with the calls made and the operations of the specification they stand for.\<close>

inductive session :: "ttable \<Rightarrow> (tt_call \<times> spec_op) list \<Rightarrow> ttable \<Rightarrow> bool" where
  start: "session t [] t"
| call: "session t cs u \<Longrightarrow> allowed u c \<Longrightarrow> after_call c u = Some v \<Longrightarrow>
     session t (cs @ [(c, spec_of u c)]) v"

inductive_cases session_lastE: "session t (cs @ [c]) v"

lemma after_call_refined:
  assumes "shows_forest t F" and "allowed t c"
  shows "\<exists>u. after_call c t = Some u \<and> shows_forest u (spec_step (spec_of t c) F)"
proof -
  obtain u where "if spec_throws F c then \<exists>e. treetable c t = Throws e u else treetable c t = Returns u"
    "shows_forest u (spec_step (spec_of t c) F)"
    using call_refined [OF assms] unfolding refined_def by blast
  then show ?thesis by (cases "spec_throws F c") (auto simp: after_call_def)
qed

lemma session_refined:
  "session t cs u \<Longrightarrow> shows_forest t F \<Longrightarrow> shows_forest u (fold spec_step (map snd cs) F)"
proof (induction rule: session.induct)
  case (call t cs u c v)
  then show ?case using after_call_refined [of u _ c] by auto
qed simp

end
