(* ===== verification/Tree_Roundtrips.thy ===== *)
theory Tree_Roundtrips
  imports Tree_Session
begin

text \<open>
  Collapsing a node and expanding it again. \<open>expand\<close> shows the children one by one, and each shows
  its own children if it is expanded; where all nodes are initialised nothing else happens to the
  classes, and in a rendered table the classes determine what is displayed.
\<close>

section \<open>Showing initialised nodes\<close>









section \<open>Collapsing and expanding again\<close>





end
