(* ===== verification/Tree_Lazy.thy ===== *)
theory Tree_Lazy
  imports Tree_Session
begin

text \<open>
  Lazy branches: \<open>loadBranch\<close> gives a node children that arrive later, \<open>unloadBranch\<close> takes them
  away again. When the new rows are all children of the node, the forest is known exactly, and so
  is when the page still shows what the tree asks for.
\<close>

section \<open>Leaves under one node\<close>

definition leaves_for :: "settings \<Rightarrow> world \<Rightarrow> nref \<Rightarrow> rref list \<Rightarrow> bool" where
  "leaves_for s w n rs \<longleftrightarrow> new_rows s w rs \<and>
     (\<forall>r\<in>set rs. \<exists>p. parent_id_of s w r = Some p \<and> tmap w (prop_key p) = Some n)"

definition hang_leaves :: "'a \<Rightarrow> 'a list \<Rightarrow> 'a rose list \<Rightarrow> 'a rose list" where
  "hang_leaves n ns fs = foldl (\<lambda>gs m. fgraft n (Rose m []) gs) fs ns"

lemma roots_hang_leaves: "map root (hang_leaves n ns fs) = map root fs"
  unfolding hang_leaves_def
  by (induction ns arbitrary: fs) (simp_all add: fgraft_def comp_def)

lemma set_hang_leaves:
  "n \<in> set (forder fs) \<Longrightarrow> distinct (forder fs) \<Longrightarrow> distinct ns \<Longrightarrow> set ns \<inter> set (forder fs) = {} \<Longrightarrow>
    set (forder (hang_leaves n ns fs)) = set (forder fs) \<union> set ns"
  unfolding hang_leaves_def
proof (induction ns arbitrary: fs)
  case (Cons m ns)
  have "distinct (forder (fgraft n (Rose m []) fs))"
    and "set (forder (fgraft n (Rose m []) fs)) = insert m (set (forder fs))"
    using distinct_fgraft [of fs n "Rose m []"] Cons.prems by auto
  then show ?case using Cons.IH [of "fgraft n (Rose m []) fs"] Cons.prems by auto
qed simp

text \<open>Emptying the node takes the leaves away.\<close>

lemma clear_graft: "clear n (graft n t u) = clear n u"
  by (induction u) simp

lemma fclear_hang_leaves: "fclear n (hang_leaves n ns fs) = fclear n fs"
  unfolding hang_leaves_def
  by (induction ns arbitrary: fs) (simp_all add: fclear_def fgraft_def comp_def clear_graft)

lemma clear_leaf: "rep h u \<Longrightarrow> n_children (h n) = [] \<Longrightarrow> clear n u = u"
  by (induction u) (auto intro!: map_idI)

lemma put_behind_nothing: "put_behind d [] xs = xs"
  by (induction xs) auto

text \<open>New leaves of \<open>n\<close>, on rows that are in the page already.\<close>

definition leaf_rows :: "settings \<Rightarrow> world \<Rightarrow> nref \<Rightarrow> nref rose list \<Rightarrow> rref list \<Rightarrow> bool" where
  "leaf_rows s w n fs rs \<longleftrightarrow> forest_of s w fs \<and> n \<in> set (forder fs) \<and> distinct rs \<and>
     set rs \<subseteq> set (d_order w) \<and> set rs \<inter> row_of w ` set (forder fs) = {} \<and>
     loadable s w {k. tmap w k \<noteq> None} rs \<and> (\<forall>r\<in>set rs. row_data w r (nodeIdAttr s) \<noteq> None) \<and>
     (\<forall>r\<in>set rs. \<exists>p. parent_id_of s w r = Some p \<and> tmap w (prop_key p) = Some n)"

lemma load_leaf:
  assumes "leaf_rows s w n fs (r # rs)"
  defines "w' \<equiv> load_row s w r" and "k \<equiv> nextn w"
  shows "leaf_rows s w' n (fgraft n (Rose k []) fs) rs" and "k \<noteq> n" and "nextn w' = Suc k"
    and "same_rows w w'" and "row_of w' k = r" and "children w' k = []"
    and "\<And>m. m \<noteq> k \<Longrightarrow> row_of w' m = row_of w m"
    and "\<And>m. m \<noteq> k \<Longrightarrow> children w' m = children w m @ (if m = n then [k] else [])"
proof -
  have fo: "forest_of s w fs" and n: "n \<in> set (forder fs)" and dis: "distinct (r # rs)"
    and ord: "set (r # rs) \<subseteq> set (d_order w)" and out: "set (r # rs) \<inter> row_of w ` set (forder fs) = {}"
    and ld: "loadable s w {k. tmap w k \<noteq> None} (r # rs)"
    and ids: "\<forall>r\<in>set (r # rs). row_data w r (nodeIdAttr s) \<noteq> None"
    and par: "\<forall>r\<in>set (r # rs). \<exists>p. parent_id_of s w r = Some p \<and> tmap w (prop_key p) = Some n"
    using assms(1) by (simp_all add: leaf_rows_def)
  obtain i where i: "row_data w r (nodeIdAttr s) = Some i" using ids by auto
  obtain p where p: "parent_id_of s w r = Some p" "tmap w (prop_key p) = Some n" using par by auto
  have new: "tmap w (prop_key i) = None" and ld': "loadable s w (insert (prop_key i) {a. tmap w a \<noteq> None}) rs"
    using ld i by auto
  have neq: "prop_key q \<noteq> prop_key i" if "parent_id_of s w r = Some q" for q
    using that p new by auto
  note v = load_row_facts [OF i neq, folded w'_def k_def]
  have q: "(case parent_id_of s w r of None \<Rightarrow> None | Some p \<Rightarrow> tmap w (prop_key p)) = Some n"
    using p by simp
  have k: "k \<notin> set (forder fs)" "k \<noteq> n" using forest_ofD(6) [OF fo] n by (auto simp: k_def)
  show "k \<noteq> n" by (rule k(2))
  have "forest_of s (load_row s w r) (add_leaf
      (case parent_id_of s w r of None \<Rightarrow> None | Some p \<Rightarrow> tmap w (prop_key p)) (nextn w) fs)"
    by (rule load_row_forest [OF fo i new]) (use ord out p in auto)
  then have fw: "forest_of s w' (fgraft n (Rose k []) fs)" unfolding q by (simp add: w'_def k_def add_leaf_def)
  have F: "set (forder (fgraft n (Rose k []) fs)) = insert k (set (forder fs))"
    using distinct_fgraft [OF forest_ofD(3) [OF fo] n, of "Rose k []"] k by auto
  then have nF: "n \<in> set (forder (fgraft n (Rose k []) fs))" using n by simp
  show sr: "same_rows w w'" by (rule v(6))
  have rd: "row_data w' x a = row_data w x a" "d_order w' = d_order w" for x a
    using sr by (auto simp: same_rows_def)
  have ord': "set rs \<subseteq> set (d_order w')" using ord rd by simp
  have h: "heap w' = ((heap w)(k := leaf_node s w r i))
      (n := (heap w n)\<lparr>n_children := children w n @ [k]\<rparr>)"
    using v(1) k(2) unfolding q by (simp add: Let_def)
  then show rk: "row_of w' k = r" "children w' k = []" using k by (simp_all add: leaf_node_def)
  show rm: "row_of w' m = row_of w m" if "m \<noteq> k" for m using h that by simp
  show "children w' m = children w m @ (if m = n then [k] else [])" if "m \<noteq> k" for m
    using h that by simp
  have "x \<noteq> k" if "x \<in> set (forder fs)" for x using that k by auto
  then have out': "set rs \<inter> row_of w' ` set (forder (fgraft n (Rose k []) fs)) = {}"
    unfolding F using out dis rk rm by fastforce
  have K: "{a. tmap w' a \<noteq> None} = insert (prop_key i) {a. tmap w a \<noteq> None}" using v(3) by auto
  have ld2: "loadable s w' {a. tmap w' a \<noteq> None} rs" unfolding K loadable_same_rows [OF sr] by (rule ld')
  have ids': "\<forall>r\<in>set rs. row_data w' r (nodeIdAttr s) \<noteq> None" using ids rd by simp
  have par': "\<forall>r\<in>set rs. \<exists>p. parent_id_of s w' r = Some p \<and> tmap w' (prop_key p) = Some n"
    using par v(3) new by (fastforce simp: parent_id_same_rows [OF sr])
  show "nextn w' = Suc k" by (rule v(2))
  show "leaf_rows s w' n (fgraft n (Rose k []) fs) rs"
    unfolding leaf_rows_def using fw nF dis ord' out' ld2 ids' par' by simp
qed

text \<open>The state after all rows are loaded.\<close>

lemma load_leaves:
  assumes "leaf_rows s w n fs rs"
  defines "v \<equiv> foldl (load_row s) w rs" and "ns \<equiv> [nextn w..<nextn w + length rs]"
  shows "forest_of s v (hang_leaves n ns fs) \<and> map (row_of v) ns = rs \<and>
    (\<forall>m. children v m = (if m \<in> set ns then [] else children w m @ (if m = n then ns else []))) \<and>
    (\<forall>m. m \<notin> set ns \<longrightarrow> row_of v m = row_of w m) \<and> same_rows w v"
  using assms(1) unfolding v_def ns_def
proof (induction rs arbitrary: w fs)
  case Nil
  then show ?case by (simp add: hang_leaves_def leaf_rows_def)
next
  case (Cons r rs)
  let ?k = "nextn w" and ?w = "load_row s w r"
  let ?ns = "[Suc ?k..<Suc ?k + length rs]" and ?v = "foldl (load_row s) (load_row s w r) rs"
  note st = load_leaf [OF Cons.prems]
  have ns: "[nextn w..<nextn w + length (r # rs)] = ?k # ?ns"
    by (simp add: upt_conv_Cons del: upt_Suc)
  have IH: "forest_of s ?v (hang_leaves n ?ns (fgraft n (Rose ?k []) fs))" "map (row_of ?v) ?ns = rs"
    "\<And>m. children ?v m = (if m \<in> set ?ns then [] else children ?w m @ (if m = n then ?ns else []))"
    "\<And>m. m \<notin> set ?ns \<Longrightarrow> row_of ?v m = row_of ?w m" "same_rows ?w ?v"
    using Cons.IH [OF st(1)] unfolding st(3) by blast+
  have k: "?k \<notin> set ?ns" by (simp del: upt_Suc)
  have "children ?v m = (if m \<in> set (?k # ?ns) then [] else children w m @ (if m = n then ?k # ?ns else []))" for m
    using IH(3) [of m] st(2,6) st(8) [of m] by (cases "m = ?k") (auto simp del: upt_Suc)
  moreover have "row_of ?v m = row_of w m" if "m \<notin> set (?k # ?ns)" for m
    using IH(4) [of m] st(7) [of m] that by simp
  moreover have "map (row_of ?v) (?k # ?ns) = r # rs"
    using IH(2) IH(4) [OF k] st(5) by simp
  moreover have "forest_of s ?v (hang_leaves n (?k # ?ns) fs)" using IH(1) by (simp add: hang_leaves_def)
  ultimately show ?case
    unfolding ns using same_rows_trans [OF st(4) IH(5)] by simp
qed

section \<open>What is displayed\<close>

text \<open>Showing the nodes of the new rows displays them and touches nothing else.\<close>

lemma each_along:
  assumes "\<And>w x. x \<in> X \<Longrightarrow> P w \<Longrightarrow> f w x = g w x"
    and "\<And>w x v. x \<in> X \<Longrightarrow> P w \<Longrightarrow> g w x = Returns v \<Longrightarrow> P v"
  shows "set xs \<subseteq> X \<Longrightarrow> P w \<Longrightarrow> each g w xs = Returns v \<Longrightarrow> each f w xs = Returns v"
proof (induction xs arbitrary: w)
  case (Cons x xs)
  then obtain u where u: "g w x = Returns u" "each g u xs = Returns v" by (auto simp: and_then_Returns_iff)
  then have "P u" using assms(2) [of x w u] Cons.prems(1,2) by simp
  then have "each f u xs = Returns v" using Cons.IH Cons.prems(1) u(2) by simp
  then show ?case using assms(1) Cons.prems u(1) by simp
qed simp

lemma each_map: "each f w (map g xs) = each (\<lambda>w x. f w (g x)) w xs"
  by (induction xs arbitrary: w) simp_all

lemma show_leaves:
  assumes fo: "forest_of s w gs" and ns: "distinct ns" "set ns \<subseteq> set (forder gs)"
    and leaf: "\<forall>m\<in>set ns. children w m = []"
  obtains v where "each (show_row_node s) w (map (row_of w) ns) = Returns v"
    and "touches w (set ns) v" and "\<forall>m\<in>set ns. disp v m"
proof -
  let ?ts = "map (\<lambda>m. Rose m []) ns"
  have F: "forder ?ts = ns" by (induction ns) simp_all
  have "sound w [Rose m []]" if "m \<in> set ns" for m
  proof -
    obtain t where t: "t \<in> set (fsubtrees gs)" "root t = m" using ns(2) \<open>m \<in> set ns\<close> by (blast elim: forest_subtree_at)
    have "kids t = []"
      using rep_children [OF forest_of_subtree(1) [OF fo t(1)]] leaf that t(2) by simp
    then have "t = Rose m []" using t(2) by (cases t) simp
    then show ?thesis using sound_forest_subtree [OF fo t(1)] by simp
  qed
  moreover have "inj_on (row_of w) (set ns)" by (rule inj_on_subset [OF forest_ofD(10) [OF fo] ns(2)])
  ultimately have "sound w ?ts" using ns(1) by (auto simp: sound_def F)
  moreover have "\<forall>t\<in>set ?ts. height t \<le> fuel_of w" by (simp add: fuel_of_def)
  ultimately obtain v where v: "each (node_show s (fuel_of w)) w (map root ?ts) = Returns v"
    "touches w (set (forder ?ts)) v" "\<forall>t\<in>set ?ts. disp v (root t)"
    using showing.shows_children by blast
  have "each (\<lambda>x m. show_row_node s x (row_of w m)) w ns = Returns v"
  proof (rule each_along [where P = "same_shape w" and g = "node_show s (fuel_of w)" and X = "set ns"])
    show "each (node_show s (fuel_of w)) w ns = Returns v" using v(1) by (simp add: comp_def)
    fix x :: world and m
    assume m: "m \<in> set ns" and x: "same_shape w x"
    have "tmap w (prop_key (n_id (heap w m))) = Some m"
      and "row_data w (row_of w m) (nodeIdAttr s) = Some (n_id (heap w m))"
      using forest_ofD(7,13) [OF fo] m ns(2) by (auto simp: keyed_def)
    then show "show_row_node s x (row_of w m) = node_show s (fuel_of w) x m"
      by (simp add: show_row_node_def same_shape_simps [OF x])
    show "same_shape w v" if "node_show s (fuel_of w) x m = Returns v" for v
    proof -
      have fx: "forest_of s x gs" by (rule forest_of_shape [OF x fo])
      obtain t where t: "t \<in> set (fsubtrees gs)" "root t = m" using ns(2) m by (blast elim: forest_subtree_at)
      obtain v' where "node_show s (fuel_of x) x (root t) = Returns v'" "touches x (set (preorder t)) v'"
        using showing.shows_child [OF sound_forest_subtree [OF fx t(1)] forest_height_fuel(1) [OF fx t(1)], of s]
        by blast
      then have "same_shape x v" using that t(2) same_shape_simps(13) [OF x] touches_shape by simp
      then show ?thesis by (rule same_shape_trans [OF x])
    qed
  qed simp_all
  then show thesis using that v(2,3) by (simp add: each_map F)
qed

text \<open>Expanding a node that cannot be seen changes nothing that is displayed.\<close>

lemma expand_hidden:
  assumes "\<not> disp w n" and "node_expand s f w n = Returns v"
  shows "disp v m = disp w m"
proof (cases "expanded w n")
  case True
  then show ?thesis using assms(2) by (simp add: node_expand_def expand_via_def)
next
  case False
  define w1 where "w1 = add_class (remove_class w (row_of w n) ''collapsed'') (row_of w n) ''expanded''"
  define w2 where "w2 = (if n_initialized (heap w1 n) \<and> onNodeExpand s then log_event w1 (NodeExpand n) else w1)"
  have h: "row_of w2 m = row_of w m" "r_displayed (d_row w2 r) = r_displayed (d_row w r)" for m r
    by (simp_all add: w2_def w1_def log_event_def)
  have "\<not> is_visible w2 (row_of w2 n)" using assms(1) by (simp add: is_visible_def disp_def h)
  then have "v = upd_node w2 n (\<lambda>x. x\<lparr>n_title := Some (stringCollapse s)\<rparr>)"
    using assms(2) False by (simp add: node_expand_def expand_via_def Let_def flip: w1_def w2_def)
  then show ?thesis by (simp add: disp_def upd_node_def h)
qed

section \<open>loadBranch with children of the node\<close>

lemma load_leaves_in_forest:
  assumes fo: "forest_of s w fs" and t: "t \<in> set (fsubtrees fs)" and td: "tdata w"
    and lf: "leaves_for s w (root t) rs"
  obtains v ns where "tt_loadBranch s (Some (root t)) rs w = Returns v"
    and "forest_of s v (hang_leaves (root t) ns fs)" and "map (row_of v) ns = rs"
    and "distinct ns" and "set ns \<inter> set (forder fs) = {}"
    and "\<And>m. children v m = (if m \<in> set ns then [] else children w m @ (if m = root t then ns else []))"
    and "d_order v = block_behind (row_of w (last (preorder t))) rs (d_order w)"
    and "tdata v" and "d_visible v = d_visible w" and "expanded v (root t)"
    and "\<And>m. vis_inv w fs \<Longrightarrow> d_visible w \<Longrightarrow> m \<in> set ns \<Longrightarrow> disp v m"
    and "disp v (root t) = disp w (root t)"
    and "vis_inv w fs \<Longrightarrow> d_visible w \<Longrightarrow> disp w (root t) \<Longrightarrow> vis_inv v (hang_leaves (root t) ns fs)"
proof -
  let ?n = "root t"
  define xs where "xs = block_behind (row_of w (last (preorder t))) rs (d_order w)"
  define w1 where "w1 = w\<lparr>d_order := xs\<rparr>"
  have nF: "?n \<in> set (forder fs)" using forest_of_subtree(3) [OF fo t] root_in_preorder by blast
  have new: "distinct rs" "set rs \<inter> row_of w ` set (forder fs) = {}"
    using lf forest_ofD(5) [OF fo] by (auto simp: leaves_for_def new_rows_def)
  note ins = insert_branch_rows_eq [OF fo t new(2,1), folded xs_def w1_def]
  have "leaf_rows s w1 ?n fs rs"
    using ins(2,3) nF new lf
    by (simp add: leaf_rows_def leaves_for_def new_rows_def w1_def parent_id_of_def cong: option.case_cong)
  note ll = load_leaves [OF this]
  define ns where "ns = [nextn w1..<nextn w1 + length rs]"
  define w2 where "w2 = foldl (load_row s) w1 rs"
  let ?gs = "hang_leaves ?n ns fs"
  have f2: "forest_of s w2 ?gs" and rows: "map (row_of w2) ns = rs"
    and ch2: "\<And>m. children w2 m = (if m \<in> set ns then [] else children w m @ (if m = ?n then ns else []))"
    and row2: "\<And>m. m \<notin> set ns \<Longrightarrow> row_of w2 m = row_of w m" and sr: "same_rows w1 w2"
    using ll by (simp_all add: w2_def ns_def w1_def)
  have ns: "distinct ns" "set ns \<inter> set (forder fs) = {}"
    using forest_ofD(6) [OF fo] by (fastforce simp: ns_def w1_def)+
  have F: "set (forder ?gs) = set (forder fs) \<union> set ns"
    by (rule set_hang_leaves [OF nF forest_ofD(3) [OF fo] ns])
  have look2: "disp w2 m = disp w m" "expanded w2 m = expanded w m" if "m \<notin> set ns" for m
    using sr row2 [OF that] by (simp_all add: disp_def expanded_def has_class_def same_rows_def w1_def)
  define w3 where "w3 = load_rows s w1 rs"
  have r3: "relabels w2 w3"
    by (simp add: w3_def load_rows_def Let_def w2_def [symmetric] foldl_update_relabels)
  then have s3: "same_shape w2 w3" by (simp add: relabels_def)
  have f3: "forest_of s w3 ?gs" by (rule forest_of_shape [OF s3 f2])
  have rows3: "map (row_of w3) ns = rs" using rows same_shape_simps(1) [OF s3] by simp
  obtain w4 where w4: "each (show_row_node s) w3 rs = Returns w4" "touches w3 (set ns) w4"
    "\<forall>m\<in>set ns. disp w4 m"
    using show_leaves [OF f3 ns(1), of thesis] F ch2 same_shape_simps(4) [OF s3] unfolding rows3 by auto
  have s4: "same_shape w2 w4" by (rule same_shape_trans [OF s3 touches_shape [OF w4(2)]])
  have look4: "disp w4 m = disp w m" "expanded w4 m = expanded w m"
    if m: "m \<in> set (forder fs)" for m
  proof -
    have out: "m \<notin> set ns" using ns(2) m by auto
    have "inj_on (row_of w3) (insert m (set ns))"
      by (rule inj_on_subset [OF forest_ofD(10) [OF f3]]) (use F m in auto)
    note un = touches_outside [OF w4(2) out this]
    show "disp w4 m = disp w m" "expanded w4 m = expanded w m"
      using un look2 [OF out] relabels_simps(1,2) [OF r3] by simp_all
  qed
  have f4: "forest_of s w4 ?gs" by (rule forest_of_shape [OF s4 f2])
  have nG: "?n \<in> set (forder ?gs)" using F nF by simp
  obtain w5 where w5: "render s w4 ?n = Returns w5" "looks w4 w5"
    using render_returns [of w4 ?n s] forest_of_level [OF f4 nG] by auto
  have s5: "same_shape w2 w5" by (rule same_shape_trans [OF s4]) (use w5(2) in \<open>simp add: looks_def\<close>)
  note sh5 = same_shape_simps [OF s5]
  have f5: "forest_of s w5 ?gs" by (rule forest_of_shape [OF s5 f2])
  have look5: "disp w5 m = disp w m" "expanded w5 m = expanded w m" if "m \<in> set (forder fs)" for m
    using look4 [OF that] looks_simps(1,2) [OF w5(2)] by simp_all
  have shown5: "disp w5 m" if "m \<in> set ns" for m using w4(3) that looks_simps(1) [OF w5(2)] by simp
  obtain u where u: "u \<in> set (fsubtrees ?gs)" "root u = ?n" by (rule forest_subtree_at [OF nG])
  obtain v where v: "node_expand s (fuel_of w5) w5 (root u) = Returns v"
    "touches w5 (set (preorder u)) v" "expanded v (root u)" "disp v (root u) = disp w5 (root u)"
    by (rule expand_in_forest [OF f5 u(1)])
  have sv: "same_shape w2 v" by (rule same_shape_trans [OF s5 touches_shape [OF v(2)]])
  note shv = same_shape_simps [OF sv]
  have ok5: "vis_ok w5 (set (forder ?gs) - {?n}) \<and> (\<forall>r\<in>set ?gs. disp w5 (root r)) \<and>
      (disp w ?n \<longrightarrow> expanded w ?n \<longrightarrow> vis_inv w5 ?gs)" if inv: "vis_inv w fs"
  proof (intro conjI impI)
    have old: "disp w5 c \<longleftrightarrow> disp w5 m \<and> expanded w5 m"
      if m: "m \<in> set (forder fs)" and c: "c \<in> set (children w m)" for m c
      using inv m c look5 [OF m] look5(1) [OF forest_kid_in [OF fo m c]]
      by (simp add: vis_inv_def vis_ok_def)
    then show rest: "vis_ok w5 (set (forder ?gs) - {?n})"
      using ns(2) by (auto simp: vis_ok_def F sh5(4) ch2 split: if_splits)
    have "disp w5 r" if "r \<in> set (map root fs)" for r
      using that inv look5(1) [of r] root_in_forder [of _ fs] by (auto simp: vis_inv_def)
    then have "\<forall>r\<in>set (map root ?gs). disp w5 r" unfolding roots_hang_leaves by blast
    then show roots: "\<forall>r\<in>set ?gs. disp w5 (root r)" by simp
    assume d: "disp w ?n" "expanded w ?n"
    have "disp w5 c \<longleftrightarrow> disp w5 ?n \<and> expanded w5 ?n" if c: "c \<in> set (children w5 ?n)" for c
    proof (cases "c \<in> set ns")
      case True
      then show ?thesis using d shown5 look5 [OF nF] by simp
    next
      case False
      then have "c \<in> set (children w ?n)" using c by (simp add: sh5(4) ch2 split: if_splits)
      then show ?thesis by (rule old [OF nF])
    qed
    then show "vis_inv w5 ?gs" using rest roots by (auto simp: vis_inv_def vis_ok_def)
  qed
  have good: "vis_inv v ?gs" if inv: "vis_inv w fs" and dv: "d_visible w" and d: "disp w ?n"
  proof (cases "expanded w ?n")
    case True
    then have "v = w5"
      using v(1) u(2) look5(2) [OF nF] by (simp add: node_expand_def expand_via_def)
    then show ?thesis using ok5 [OF inv] d True by simp
  next
    case False
    have "d_visible w5" using dv sh5(11) sr by (simp add: same_rows_def w1_def)
    then show ?thesis
      using expand_displayed [OF f5 u(1) _ _ _ _ _ v(1)] ok5 [OF inv] False d look5 [OF nF] u(2) by simp
  qed
  have dn: "disp v ?n = disp w ?n" using v(4) u(2) look5(1) [OF nF] by simp
  have shown: "disp v m" if inv: "vis_inv w fs" and dv: "d_visible w" and m: "m \<in> set ns" for m
  proof (cases "disp w ?n")
    case False
    then have "\<not> disp w5 ?n" using look5(1) [OF nF] by simp
    then show ?thesis using expand_hidden [of w5 "root u"] v(1) u(2) shown5 [OF m] by metis
  next
    case True
    have "m \<in> set (children v ?n)" using m ns(2) nF by (auto simp: shv(4) ch2)
    then show ?thesis
      using good [OF inv dv True] nG v(3) u(2) dn True by (auto simp: vis_inv_def vis_ok_def)
  qed
  have "tt_loadBranch s (Some ?n) rs w = Returns v"
    using td ins(1) w4(1) w5(1) v(1) u(2)
    by (simp add: tt_loadBranch_def with_tree_def flip: w3_def)
  moreover have "d_order v = block_behind (row_of w (last (preorder t))) rs (d_order w)"
    using shv(10) sr by (simp add: same_rows_def w1_def xs_def)
  moreover have "tdata v" "d_visible v = d_visible w" using shv(11,12) sr td by (simp_all add: same_rows_def w1_def)
  moreover have "map (row_of v) ns = rs" using rows shv(1) by simp
  moreover have "children v m = (if m \<in> set ns then [] else children w m @ (if m = ?n then ns else []))" for m
    by (simp only: shv(4) ch2)
  ultimately show thesis
    using that [of v ns] ns forest_of_shape [OF sv f2] v(3) u(2) dn good shown by simp
qed

section \<open>Properties\<close>


text \<open>The table with a spare row for a child of \<open>3\<close>, as it is and with the branch \<open>1\<close> collapsed.\<close>

definition shut_table :: world where
  "shut_table = spare_table\<lparr>d_row := (d_row spare_table)
     (0 := (d_row spare_table 0)\<lparr>r_classes := {''collapsed''}\<rparr>,
      1 := (d_row spare_table 1)\<lparr>r_displayed := False\<rparr>,
      2 := (d_row spare_table 2)\<lparr>r_displayed := False\<rparr>,
      3 := (d_row spare_table 3)\<lparr>r_displayed := False\<rparr>)\<rparr>"


lemma spare_vis: "vis_inv spare_table open_forest" "vis_inv shut_table open_forest"
  unfolding vis_inv_def vis_ok_def open_forder
  by (auto simp: open_forest_def shut_table_def spare_table_def open_defs disp_def expanded_def has_class_def)

lemma spare_leaves: "leaves_for demo_settings spare_table 2 [5]" "leaves_for demo_settings shut_table 2 [5]"
proof -
  have n: "tmap spare_table k \<noteq> None \<longleftrightarrow> k \<in> {''1'', ''2'', ''3'', ''4'', ''5''}"
    "tmap shut_table k \<noteq> None \<longleftrightarrow> k \<in> {''1'', ''2'', ''3'', ''4'', ''5''}" for k
    by (simp_all add: shut_table_def spare_table_def open_defs)
  have "show_int 6 = ''6''" by code_simp
  then show "leaves_for demo_settings spare_table 2 [5]" "leaves_for demo_settings shut_table 2 [5]"
    unfolding leaves_for_def new_rows_def n
    by (simp_all add: shut_table_def spare_table_def open_defs row_data_def parent_id_of_def)
qed

lemma spare_facts:
  "d_visible spare_table" "d_visible shut_table" "tdata spare_table" "tdata shut_table"
  "disp spare_table 2" "\<not> disp shut_table 2" "2 \<in> set (forder open_forest)"
  by (simp_all add: shut_table_def spare_table_def open_defs disp_def open_forder)


text \<open>Unloading a node whose children are leaves takes their rows out of the table.\<close>

lemma unload_leaves:
  assumes fo: "forest_of s u gs" and nG: "n \<in> set (forder gs)" and ch: "children u n = ns"
    and leaf: "\<forall>m\<in>set ns. children u m = []"
  obtains v where "unload_branch s (fuel_of u) u n = Returns v" and "forest_of s v (fclear n gs)"
    and "vis_inv u gs \<longrightarrow> vis_inv v (fclear n gs)"
    and "d_order v = filter (\<lambda>r. r \<notin> row_of u ` set ns) (d_order u)"
proof -
  obtain x where x: "x \<in> set (fsubtrees gs)" "root x = n" by (rule forest_subtree_at [OF nG])
  note rx = forest_of_subtree(1) [OF fo x(1)]
  have "kids k = []" if k: "k \<in> set (kids x)" for k
  proof -
    have "root k \<in> set ns" using rep_children [OF rx] x(2) ch k by simp
    then show ?thesis using rep_children [OF rep_kid [OF rx k]] leaf by simp
  qed
  then have "set (below x) = root ` set (kids x)"
    by (auto simp: below_def set_forder preorder_unfold)
  also have "\<dots> = set ns" using rep_children [OF rx] x(2) ch by (metis set_map)
  finally have below: "set (below x) = set ns" .
  obtain v where v: "unload_branch s (fuel_of u) u (root x) = Returns v"
    "forest_of s v (fclear (root x) gs)" "vis_inv u gs \<longrightarrow> vis_inv v (fclear (root x) gs)"
    "d_order v = filter (\<lambda>r. r \<notin> row_of u ` set (below x)) (d_order u)"
    by (rule unload_in_forest [OF fo x(1)]) blast
  then show thesis using that unfolding x(2) below by blast
qed

text \<open>C9: Filling a leaf with \<open>loadBranch\<close> and emptying it with \<open>unloadBranch\<close> gives the forest and the
  rows of the table back, and a page in order stays in order when the leaf is displayed.\<close>

theorem load_then_unload_restores:
  assumes "forest_of s w fs" and "tdata w" and "n \<in> set (forder fs)" and "leaves_for s w n rs"
    and "children w n = []" and "set rs \<inter> set (d_order w) = {}"
  shows "\<exists>u v. tt_loadBranch s (Some n) rs w = Returns u \<and> children u n \<noteq> [] = (rs \<noteq> []) \<and>
      tt_unloadBranch s n u = Returns v \<and> forest_of s v fs \<and> d_order v = d_order w \<and>
      (vis_inv w fs \<longrightarrow> d_visible w \<longrightarrow> disp w n \<longrightarrow> vis_inv v fs)"
proof -
  obtain t where t: "t \<in> set (fsubtrees fs)" "root t = n" by (rule forest_subtree_at [OF assms(3)])
  have lf: "leaves_for s w (root t) rs" using assms(4) t(2) by simp
  have leaf: "t = Rose n []"
    using rep_children [OF forest_of_subtree(1) [OF assms(1) t(1)]] assms(5) t(2) by (cases t) simp
  obtain u ns where u: "tt_loadBranch s (Some (root t)) rs w = Returns u"
    "forest_of s u (hang_leaves (root t) ns fs)" "map (row_of u) ns = rs"
    "distinct ns" "set ns \<inter> set (forder fs) = {}"
    "\<And>m. children u m = (if m \<in> set ns then [] else children w m @ (if m = root t then ns else []))"
    "d_order u = block_behind (row_of w (last (preorder t))) rs (d_order w)" "tdata u"
    "vis_inv w fs \<Longrightarrow> d_visible w \<Longrightarrow> disp w (root t) \<Longrightarrow> vis_inv u (hang_leaves (root t) ns fs)"
    by (rule load_leaves_in_forest [OF assms(1) t(1) assms(2) lf], rule that; assumption)
  note u = u [unfolded t(2)]
  let ?gs = "hang_leaves n ns fs"
  have ch: "children u n = ns" using u(5,6) assms(3,5) by auto
  have nG: "n \<in> set (forder ?gs)"
    using set_hang_leaves [OF assms(3) forest_ofD(3) [OF assms(1)] u(4,5)] assms(3) by simp
  have leaves: "\<forall>m\<in>set ns. children u m = []" using u(5,6) assms(3) by auto
  obtain v where v: "unload_branch s (fuel_of u) u n = Returns v" "forest_of s v (fclear n ?gs)"
    "vis_inv u ?gs \<longrightarrow> vis_inv v (fclear n ?gs)"
    "d_order v = filter (\<lambda>r. r \<notin> row_of u ` set ns) (d_order u)"
    by (rule unload_leaves [OF u(2) nG ch leaves])
  have rows: "row_of u ` set ns = set rs" using u(3) by (metis set_map)
  have "clear n f = f" if "f \<in> set fs" for f by (rule clear_leaf [OF forest_ofD(1) [OF assms(1) that] assms(5)])
  then have fs: "fclear n ?gs = fs"
    unfolding fclear_hang_leaves by (simp add: fclear_def map_idI)
  have id: "filter (\<lambda>r. r \<notin> set rs) (d_order w) = d_order w" by (rule filter_True) (use assms(6) in auto)
  have "row_of w n \<notin> set rs" using forest_ofD(12) [OF assms(1,3)] assms(6) by auto
  then have "d_order v = d_order w"
    unfolding v(4) rows u(7) leaf by (simp add: block_behind_def id filter_put_behind put_behind_nothing)
  moreover have "tt_unloadBranch s n u = Returns v"
    using v(1) u(8) by (simp add: tt_unloadBranch_def with_tree_def)
  moreover have "ns \<noteq> [] \<longleftrightarrow> rs \<noteq> []" using u(3) by auto
  ultimately show ?thesis using u(1,9) v(2,3) ch unfolding fs by auto
qed

theorem load_then_unload_restores_witness:
  "\<exists>u v. tt_loadBranch demo_settings (Some 2) [5] spare_table = Returns u \<and> children u 2 \<noteq> [] \<and>
     tt_unloadBranch demo_settings 2 u = Returns v \<and> forest_of demo_settings v open_forest \<and>
     d_order v = [0, 1, 3, 2, 4] \<and> vis_inv v open_forest"
proof -
  have "children spare_table 2 = []" "d_order spare_table = [0, 1, 3, 2, 4]"
    by (simp_all add: spare_table_def open_defs)
  then show ?thesis
    using load_then_unload_restores [OF spare_table_forest spare_facts(3,7) spare_leaves(1)]
      spare_vis(1) spare_facts(1,5) by auto
qed

end
