(* ===== verification/Tree_Handlers.thy ===== *)
theory Tree_Handlers
  imports Tree_Session Tree_Example
begin

text \<open>
  The handlers that \<open>render\<close> binds. A node is rendered again and again, by \<open>_initialize\<close>,
  \<open>move\<close>, \<open>sortBranch\<close> and \<open>loadBranch\<close>; every time the old handlers are taken off before new ones are put
  on. So in every session each node of the table has one handler for clicks and one for keys on the
  element they belong to, or none as long as it has no expander.
\<close>

section \<open>The invariant\<close>

definition click_place :: "settings \<Rightarrow> click_target" where
  "click_place s = (if clickableNodeNames s then TreeCell else Expander)"

definition handlers_ok :: "settings \<Rightarrow> node \<Rightarrow> bool" where
  "handlers_ok s x \<longleftrightarrow>
     (\<forall>h. n_clicks x h = (if n_hasExpander x \<and> h = click_place s \<and> target_exists x h then 1 else 0) \<and>
          n_keydowns x h = (if n_hasExpander x \<and> h = click_place s \<and> target_exists x h then 1 else 0))"

text \<open>All nodes of the table but perhaps \<open>X\<close>.\<close>

definition bound_but :: "nref set \<Rightarrow> settings \<Rightarrow> world \<Rightarrow> bool" where
  "bound_but X s w \<longleftrightarrow> distinct (tnodes w) \<and>
     (\<forall>n\<in>set (tnodes w). n < nextn w \<and> (n \<notin> X \<longrightarrow> handlers_ok s (heap w n)))"

abbreviation bound :: "settings \<Rightarrow> world \<Rightarrow> bool" where
  "bound \<equiv> bound_but {}"

lemma handlers_attach: "handlers_ok s x \<Longrightarrow> handlers_ok s (attach_expander s x)"
  by (auto simp: handlers_ok_def attach_defs click_place_def target_exists_def split: click_target.splits)

lemma handlers_same:
  assumes "n_clicks y = n_clicks x" and "n_keydowns y = n_keydowns x"
    and "n_hasExpander y = n_hasExpander x" and "n_treeCell y = n_treeCell x"
  shows "handlers_ok s y = handlers_ok s x"
  using assms by (simp add: handlers_ok_def target_exists_def cong: click_target.case_cong)

lemma bound_frame:
  "heap v = heap w \<Longrightarrow> nextn v = nextn w \<Longrightarrow> tnodes v = tnodes w \<Longrightarrow> bound_but X s v = bound_but X s w"
  by (simp add: bound_but_def)

lemma bound_ops [simp]:
  "bound_but X s (add_class w r c) = bound_but X s w" "bound_but X s (remove_class w r c) = bound_but X s w"
  "bound_but X s (set_displayed w r b) = bound_but X s w" "bound_but X s (set_row_data w r k a) = bound_but X s w"
  "bound_but X s (insert_after r d w) = bound_but X s w" "bound_but X s (remove_row w r) = bound_but X s w"
  "bound_but X s (insert_rows_after rs d w) = bound_but X s w" "bound_but X s (append_rows rs w) = bound_but X s w"
  "bound_but X s (log_event w e) = bound_but X s w" "bound_but X s (upd_row w r f) = bound_but X s w"
  by (rule bound_frame; simp)+

lemma bound_fields [simp]:
  "bound_but X s (w\<lparr>tmap := m\<rparr>) = bound_but X s w" "bound_but X s (w\<lparr>troots := xs\<rparr>) = bound_but X s w"
  "bound_but X s (w\<lparr>tdata := b\<rparr>) = bound_but X s w" "bound_but X s (w\<lparr>tclass := c\<rparr>) = bound_but X s w"
  by (simp_all add: bound_but_def)

lemma bound_upd:
  "bound_but X s w \<Longrightarrow> (\<And>x. handlers_ok s x \<Longrightarrow> handlers_ok s (f x)) \<Longrightarrow> bound_but X s (upd_node w n f)"
  by (simp add: bound_but_def)

lemma bound_upd_fields [simp]:
  "bound_but X s w \<Longrightarrow> bound_but X s (upd_node w n (\<lambda>x. x\<lparr>n_title := t\<rparr>))"
  "bound_but X s w \<Longrightarrow> bound_but X s (upd_node w n (\<lambda>x. x\<lparr>n_padding := q\<rparr>))"
  "bound_but X s w \<Longrightarrow> bound_but X s (upd_node w n (\<lambda>x. x\<lparr>n_initialized := i\<rparr>))"
  "bound_but X s w \<Longrightarrow> bound_but X s (upd_node w n (\<lambda>x. x\<lparr>n_children := g x\<rparr>))"
  "bound_but X s w \<Longrightarrow> bound_but X s (upd_node w n (\<lambda>x. x\<lparr>n_parentId := p\<rparr>))"
  by (erule bound_upd; subst handlers_same; simp)+

lemma bound_links [simp]:
  "bound_but X s w \<Longrightarrow> bound_but X s (add_child w p c)"
  "bound_but X s w \<Longrightarrow> bound_but X s (remove_child w p c)"
  "bound_but X s (update_branch_leaf_class t w n) = bound_but X s w"
  "bound_but X s (update_opt t q w) = bound_but X s w"
  by (simp_all add: add_child_def remove_child_def update_branch_leaf_class_def update_opt_def Let_def
      split: option.split)

section \<open>What returns keeps the invariant\<close>

definition keeps :: "('s \<Rightarrow> bool) \<Rightarrow> 's outcome \<Rightarrow> bool" where
  "keeps P m \<longleftrightarrow> (\<forall>v. m = Returns v \<longrightarrow> P v)"

lemma keeps_simps [simp]: "keeps P (Returns v) = P v" "keeps P (Throws e v)" "keeps P Diverges"
  by (simp_all add: keeps_def)

lemma keeps_then: "keeps Q m \<Longrightarrow> (\<And>v. Q v \<Longrightarrow> keeps P (k v)) \<Longrightarrow> keeps P (and_then m k)"
  by (auto simp: keeps_def and_then_Returns_iff)

lemma keeps_each: "(\<And>v x. P v \<Longrightarrow> keeps P (f v x)) \<Longrightarrow> P w \<Longrightarrow> keeps P (each f w xs)"
  by (induction xs arbitrary: w) (auto intro: keeps_then)

lemma bound_attach [simp]: "bound_but X s w \<Longrightarrow> bound_but X s (upd_node w n (attach_expander s))"
  by (rule bound_upd) (simp_all add: handlers_attach)

lemma keeps_render: "bound s w \<Longrightarrow> keeps (bound s) (render s w n)"
  by (auto simp: render_def Let_def split: option.split)

lemma keeps_hide: "bound s w \<Longrightarrow> keeps (bound s) (node_hide f w n)"
proof (induction f arbitrary: w n)
  case (Suc f)
  show ?case unfolding node_hide.simps
    by (rule keeps_then [OF keeps_each [of "bound s"]]) (use Suc in simp_all)
qed simp

lemma keeps_collapse: "bound s w \<Longrightarrow> keeps (bound s) (node_collapse s f w n)"
  unfolding node_collapse_def hide_children_def Let_def
  by (auto intro!: keeps_then [OF keeps_each [of "bound s"]] keeps_hide)

lemma keeps_expand_via:
  assumes "\<And>v m. bound s v \<Longrightarrow> keeps (bound s) (sh v m)" and "bound s w"
  shows "keeps (bound s) (expand_via sh s w n)"
  unfolding expand_via_def Let_def
  using assms by (auto intro!: keeps_then [of "bound s"] keeps_each [of "bound s"])

lemma keeps_initialize_via:
  assumes "\<And>v m. bound s v \<Longrightarrow> keeps (bound s) (sh v m)" and "bound s w"
  shows "keeps (bound s) (initialize_via sh f s w n)"
  unfolding initialize_via_def Let_def
  using assms by (auto intro!: keeps_then [of "bound s"] keeps_render keeps_collapse keeps_expand_via)

lemma keeps_show: "bound s w \<Longrightarrow> keeps (bound s) (node_show s f w n)"
proof (induction f arbitrary: w n)
  case (Suc f)
  show ?case unfolding node_show.simps Let_def
    by (rule keeps_then [of "bound s"])
      (use Suc in \<open>auto intro!: keeps_initialize_via keeps_each [of "bound s"]\<close>)
qed simp

lemma keeps_expand: "bound s w \<Longrightarrow> keeps (bound s) (node_expand s f w n)"
  unfolding node_expand_def by (rule keeps_expand_via) (rule keeps_show)

lemma keeps_initialize: "bound s w \<Longrightarrow> keeps (bound s) (node_initialize s f w n)"
  unfolding node_initialize_def by (rule keeps_initialize_via) (rule keeps_show)

lemma keeps_reveal: "bound s w \<Longrightarrow> keeps (bound s) (node_reveal s f w n)"
proof (induction f arbitrary: w n)
  case (Suc f)
  show ?case unfolding node_reveal.simps
    by (rule keeps_then [of "bound s"])
      (use Suc in \<open>auto intro: keeps_expand split: option.split\<close>)
qed simp

lemma keeps_toggle: "bound s w \<Longrightarrow> keeps (bound s) (node_toggle s f w n)"
  by (simp add: node_toggle_def keeps_collapse keeps_expand)

lemma keeps_click: "bound s w \<Longrightarrow> keeps (bound s) (fire_click s w n h)"
  unfolding fire_click_def
  by (rule keeps_each) (auto simp: click_handler_def intro: keeps_toggle split: option.split)

text \<open>Moving and sorting.\<close>

lemma keeps_move_rows: "bound s w \<Longrightarrow> keeps (bound s) (move_rows s f w n d)"
proof (induction f arbitrary: w n d)
  case (Suc f)
  show ?case unfolding move_rows.simps
    by (rule keeps_then [of "bound s"]) (use Suc in \<open>auto intro!: keeps_render keeps_each [of "bound s"]\<close>)
qed simp

lemma keeps_set_parent: "bound s w \<Longrightarrow> keeps (bound s) (set_parent s w n d)"
  unfolding set_parent_def Let_def
  by (rule keeps_then [of "bound s"]) (auto split: option.split)

lemma keeps_move: "bound s w \<Longrightarrow> keeps (bound s) (tree_move s w n d)"
  unfolding tree_move_def relocate_def Let_def
  by (auto intro!: keeps_then [of "bound s"] keeps_set_parent keeps_move_rows keeps_render split: option.split)

lemma keeps_sort: "bound s w \<Longrightarrow> keeps (bound s) (tree_sort_branch s c w n)"
  by (simp add: tree_sort_branch_def Let_def keeps_move_rows)

text \<open>Removing: the node whose row is taken out loses its handlers, and leaves the list of nodes.\<close>

lemma bound_splice:
  assumes "bound_but {n} s w"
  shows "bound s (w\<lparr>tnodes := splice1 (in_array n (tnodes w)) (tnodes w)\<rparr>)"
proof (cases "n \<in> set (tnodes w)")
  case True
  then show ?thesis using assms by (simp add: bound_but_def splice1_in_array_distinct)
next
  case False
  then have "m \<in> set (tnodes w) \<and> m \<noteq> n" if "m \<in> set (butlast (tnodes w))" for m
    using in_set_butlastD [OF that] by blast
  then show ?thesis
    using assms False by (simp add: bound_but_def splice1_absent distinct_butlast)
qed

lemma keeps_drop: "bound_but {n} s w \<Longrightarrow> keeps (bound s) (drop_node w n)"
  unfolding drop_node_def
proof (rule keeps_then [of "bound_but {n} s"])
  fix v assume "bound_but {n} s v"
  then have "bound s (v\<lparr>tmap := (tmap v)(prop_key (n_id (heap v n)) := None),
      tnodes := splice1 (in_array n (tnodes v)) (tnodes v)\<rparr>)"
    using bound_splice [of n s "v\<lparr>tmap := (tmap v)(prop_key (n_id (heap v n)) := None)\<rparr>"] by simp
  then show "keeps (bound s) (Returns (v\<lparr>tmap := (tmap v)(prop_key (n_id (heap v n)) := None),
      tnodes := splice1 (in_array n (tnodes v)) (tnodes v)\<rparr>))" by simp
qed (auto split: option.split)

lemma bound_detach: "bound s w \<Longrightarrow> bound_but {n} s (detach_row w n)"
  by (simp add: detach_row_def bound_but_def)

lemma keeps_unload_via:
  assumes "\<And>v m. bound s v \<Longrightarrow> keeps (bound s) (rm v m)" and "bound s w"
  shows "keeps (bound s) (unload_via rm s w n)"
  unfolding unload_via_def
  by (rule keeps_then [OF keeps_each [of "bound s"]]) (use assms in simp_all)

lemma keeps_remove: "bound s w \<Longrightarrow> keeps (bound s) (remove_node s f w n)"
proof (induction f arbitrary: w n)
  case (Suc f)
  show ?case unfolding remove_node.simps
    by (rule keeps_then [OF keeps_unload_via]) (use Suc in \<open>auto intro: keeps_drop bound_detach\<close>)
qed simp

lemma keeps_unload: "bound s w \<Longrightarrow> keeps (bound s) (unload_branch s f w n)"
  unfolding unload_branch_def by (rule keeps_unload_via) (rule keeps_remove)

text \<open>Loading: new nodes have no handlers.\<close>

lemma bound_load_row:
  assumes "bound s w"
  shows "bound s (load_row s w r)"
proof (cases "row_data w r (nodeIdAttr s)")
  case (Some i)
  define w2 where "w2 = (new_node s w r i)\<lparr>tnodes := tnodes (new_node s w r i) @ [nextn w],
    tmap := (tmap (new_node s w r i))(prop_key i \<mapsto> nextn w)\<rparr>"
  have "handlers_ok s (leaf_node s w r i)" by (simp add: handlers_ok_def leaf_node_def)
  then have "bound s w2" using assms by (auto simp: w2_def bound_but_def new_node_facts)
  then show ?thesis
    unfolding load_row_def Some using w2_def by (simp add: Let_def split: option.split)
qed (use assms in \<open>simp add: load_row_def\<close>)

lemma bound_load_rows: "bound s w \<Longrightarrow> bound s (load_rows s w rs)"
proof -
  have row: "bound s v \<Longrightarrow> bound s (foldl (load_row s) v rs)" for v
    by (induction rs arbitrary: v) (simp_all add: bound_load_row)
  have cls: "bound s v \<Longrightarrow> bound s (foldl (update_branch_leaf_class s) v ns)" for v ns
    by (induction ns arbitrary: v) simp_all
  show "bound s w \<Longrightarrow> ?thesis" using row cls by (simp add: load_rows_def Let_def)
qed

lemma keeps_load_branch: "bound s w \<Longrightarrow> keeps (bound s) (tt_loadBranch s n rs w)"
proof -
  assume b: "bound s w"
  have "keeps (bound s) (insert_branch_rows n rs w)"
    using b by (auto simp: insert_branch_rows_def split: option.split)
  moreover have "keeps (bound s) (each (show_row_node s) (load_rows s v rs) rs)" if "bound s v" for v
    by (rule keeps_each)
      (use bound_load_rows [OF that] in \<open>auto simp: show_row_node_def intro: keeps_show split: option.split\<close>)
  ultimately show ?thesis
    unfolding tt_loadBranch_def with_tree_def
    by (auto intro!: keeps_then [of "bound s"] keeps_render keeps_expand split: option.split)
qed

section \<open>Calls and sessions\<close>

lemma bound_on_world:
  assumes "on_world f t = Returns u" and "keeps (bound (t_settings t)) (f (t_settings t) (t_world t))"
  shows "t_settings u = t_settings t \<and> bound (t_settings t) (t_world u)"
  using assms by (cases "f (t_settings t) (t_world t)") (auto simp: on_world_def)

lemma method_keeps_bound:
  assumes b: "bound (t_settings t) (t_world t)" and td: "tdata (t_world t)" and al: "allowed t c"
    and no: "\<nexists>m. c = CallOther m" and r: "treetable c t = Returns u"
  shows "t_settings u = t_settings t \<and> bound (t_settings t) (t_world u)"
proof -
  let ?s = "t_settings t" and ?w = "t_world t"
  have node: "keeps (bound ?s) (with_node ?w i k)" if "\<And>n. keeps (bound ?s) (k n)" for i k
    using that by (simp add: with_node_def with_tree_def split: option.split)
  have all: "keeps (bound ?s) (tt_collapseAll ?s ?w)" "keeps (bound ?s) (tt_expandAll ?s ?w)"
    using b by (auto simp: tt_collapseAll_def tt_expandAll_def with_tree_def tree_collapse_all_def
        tree_expand_all_def intro!: keeps_each [of "bound ?s"] keeps_collapse keeps_expand)
  have expand: "keeps (bound ?s) (tt_expandNode ?s i ?w)" for i
    unfolding tt_expandNode_def
    by (rule node, rule keeps_then [of "bound ?s"]) (use b in \<open>auto intro: keeps_initialize keeps_expand\<close>)
  show ?thesis
  proof (cases c)
    case (CallInit opts force)
    then show ?thesis using al td b r by (simp add: tt_init_def)
  next
    case (CallMove i j)
    show ?thesis
      by (rule bound_on_world [of "\<lambda>s. tt_move s i j"])
        (use r b CallMove in \<open>auto simp: tt_move_def with_tree_def intro: keeps_move split: option.split\<close>)
  next
    case CallCollapseAll
    then show ?thesis using bound_on_world [of tt_collapseAll t u] r all(1) by simp
  next
    case CallExpandAll
    then show ?thesis using bound_on_world [of tt_expandAll t u] r all(2) by simp
  next
    case (CallCollapseNode i)
    show ?thesis
      by (rule bound_on_world [of "\<lambda>s. tt_collapseNode s i"])
        (use r b CallCollapseNode in \<open>simp_all add: tt_collapseNode_def node keeps_collapse\<close>)
  next
    case (CallExpandNode i)
    show ?thesis
      by (rule bound_on_world [of "\<lambda>s. tt_expandNode s i"]) (use r expand CallExpandNode in simp_all)
  next
    case (CallLoadBranch n rs)
    show ?thesis
      by (rule bound_on_world [of "\<lambda>s. tt_loadBranch s n rs"])
        (use r b CallLoadBranch in \<open>simp_all add: keeps_load_branch\<close>)
  next
    case (CallNode i)
    show ?thesis
      by (rule bound_on_world [of "\<lambda>s w. with_tree w (Returns w)"])
        (use r b CallNode in \<open>simp_all add: with_tree_def\<close>)
  next
    case (CallRemoveNode i)
    show ?thesis
      by (rule bound_on_world [of "\<lambda>s. tt_removeNode s i"])
        (use r b CallRemoveNode in \<open>simp_all add: tt_removeNode_def node keeps_remove\<close>)
  next
    case (CallReveal i)
    show ?thesis
      by (rule bound_on_world [of "\<lambda>s. tt_reveal s i"])
        (use r b CallReveal in \<open>simp_all add: tt_reveal_def node keeps_reveal\<close>)
  next
    case (CallSortBranch n a)
    show ?thesis
      by (rule bound_on_world [of "\<lambda>s. tt_sortBranch s n a"])
        (use r b CallSortBranch in \<open>simp_all add: tt_sortBranch_def with_tree_def keeps_sort\<close>)
  next
    case (CallUnloadBranch n)
    show ?thesis
      by (rule bound_on_world [of "\<lambda>s. tt_unloadBranch s n"])
        (use r b CallUnloadBranch in \<open>simp_all add: tt_unloadBranch_def with_tree_def keeps_unload\<close>)
  qed (use al no in simp_all)
qed

lemma call_keeps_bound:
  assumes sh: "shows_forest t F" and al: "allowed t c" and b: "bound (t_settings t) (t_world t)"
    and u: "after_call c t = Some u"
  shows "bound (t_settings u) (t_world u)"
proof -
  have td: "tdata (t_world t)" using sh by (simp add: shows_forest_def)
  have cases: "u = t \<or> treetable c t = Returns u"
    using call_refined [OF sh al] spec_throws_unchanged [OF sh al] u
    by (cases "spec_throws F c") (auto simp: refined_def after_call_def)
  have "bound (t_settings u) (t_world u)" if r: "treetable c t = Returns u"
  proof (cases "\<exists>m. c = CallOther m")
    case True
    then obtain m where c: "c = CallOther m" by blast
    show ?thesis
    proof (cases "\<exists>d. by_name m d")
      case True
      then obtain d where d: "by_name m d" by blast
      then show ?thesis
        using method_keeps_bound [OF b td named_call(2,3) [OF d]] named_call(1) [OF d] r c by metis
    next
      case False
      then show ?thesis using unnamed_call(1) [OF False, of t] al b r c by (auto split: if_splits)
    qed
  next
    case False
    then show ?thesis using method_keeps_bound [OF b td al _ r] by metis
  qed
  then show ?thesis using cases b by blast
qed

lemma session_keeps_bound:
  "session t cs u \<Longrightarrow> shows_forest t F \<Longrightarrow> bound (t_settings t) (t_world t) \<Longrightarrow>
    bound (t_settings u) (t_world u)"
proof (induction rule: session.induct)
  case (call t cs u c v)
  show ?case
    by (rule call_keeps_bound [OF session_refined [OF call.hyps(1) call.prems(1)] call.hyps(2) _ call.hyps(3)])
      (rule call.IH [OF call.prems])
qed simp

lemma init_bound:
  assumes "\<not> tdata (t_world t)" and "tt_init opts False t = Returns u"
  shows "bound (t_settings u) (t_world u)"
proof -
  let ?s = "opts default_settings"
  let ?w = "load_rows ?s ((t_world t)\<lparr>tmap := Map.empty, tnodes := [], troots := []\<rparr>) (d_order (t_world t))"
  have "bound ?s ?w" by (rule bound_load_rows) (simp add: bound_but_def)
  then have "keeps (bound ?s) (tree_render ?s ?w)"
    unfolding tree_render_def by (auto intro!: keeps_each [of "bound ?s"] keeps_show)
  then have "keeps (bound ?s) (and_then (tree_render ?s ?w) (\<lambda>w1.
      let w2 = w1\<lparr>tclass := True, tdata := True\<rparr>
      in Returns (if onInitialized ?s then log_event w2 Initialized else w2)))"
    by (rule keeps_then) (simp add: Let_def)
  then show ?thesis
    using assms unfolding tt_init_def Let_def
    by (cases "tree_render ?s ?w") (auto split: if_splits)
qed

section \<open>Properties\<close>

text \<open>C20: After \<open>init\<close> on a table whose ids are distinct and whose parent ids name earlier rows, and after
  any session of method calls (not \<open>destroy\<close> or a forced \<open>init\<close>), every node of the table that has an
  expander has exactly one click handler and one key handler on the element they belong to, where that
  element exists, and none elsewhere; a node without an expander has none. A click keeps this so.\<close>

theorem handlers_are_bound_once:
  assumes "pristine (opts default_settings) (t_world t)" and "\<not> tdata (t_world t)"
    and "nodeIdAttr (opts default_settings) \<noteq> parentIdAttr (opts default_settings)"
  shows "\<exists>u. treetable (CallInit opts False) t = Returns u \<and>
    (\<forall>cs v n h. session u cs v \<longrightarrow> n \<in> set (tnodes (t_world v)) \<longrightarrow>
      (let x = heap (t_world v) n;
           k = (if n_hasExpander x \<and> target_exists x h \<and>
                  h = (if clickableNodeNames (t_settings v) then TreeCell else Expander) then 1 else 0)
       in n_clicks x h = k \<and> n_keydowns x h = k)) \<and>
    (\<forall>cs v n h y. session u cs v \<longrightarrow> fire_click (t_settings v) (t_world v) n h = Returns y \<longrightarrow>
      bound (t_settings v) y)"
proof -
  obtain u F where u: "treetable (CallInit opts False) t = Returns u" "shows_forest u F"
    using init_shows [of opts t] assms by blast
  have "bound (t_settings u) (t_world u)" using init_bound [OF assms(2)] u(1) by simp
  then have b: "bound (t_settings v) (t_world v)" if "session u cs v" for cs v
    by (rule session_keeps_bound [OF that u(2)])
  have "handlers_ok (t_settings v) (heap (t_world v) n)" if "session u cs v" "n \<in> set (tnodes (t_world v))" for cs v n
    using b [OF that(1)] that(2) by (simp add: bound_but_def)
  moreover have "bound (t_settings v) y"
    if "session u cs v" "fire_click (t_settings v) (t_world v) n h = Returns y" for cs v n h y
    using keeps_click [OF b [OF that(1)], of n h] that(2) by simp
  ultimately show ?thesis
    using u(1) unfolding handlers_ok_def click_place_def Let_def by (intro exI [of _ u]) auto
qed

text \<open>Two rows, the second below the first; \<open>init\<close> renders the first node, and sorting its branch renders it
  again.\<close>

definition pair_table :: ttable where
  "pair_table = \<lparr>t_world = plain_table\<lparr>d_order := [0, 1]\<rparr>, t_settings = default_settings\<rparr>"

definition pair_init :: "ttable outcome" where
  "pair_init = treetable (CallInit (\<lambda>s. s\<lparr>expandable := True\<rparr>) False) pair_table"

lemma pair_runs:
  "case pair_init of
     Returns u \<Rightarrow> tnodes (t_world u) = [0, 1] \<and>
       (case treetable (CallSortBranch 0 (SortFunction (\<lambda>a b. 0))) u of
          Returns v \<Rightarrow> tnodes (t_world v) = [0, 1] \<and> n_hasExpander (heap (t_world v) 0) \<and>
            \<not> clickableNodeNames (t_settings v)
        | _ \<Rightarrow> False)
   | _ \<Rightarrow> False"
  by code_simp

theorem handlers_are_bound_once_witness:
  "\<exists>u v. pair_init = Returns u \<and> session u [(CallSortBranch 0 (SortFunction (\<lambda>a b. 0)),
       spec_of u (CallSortBranch 0 (SortFunction (\<lambda>a b. 0))))] v \<and>
     n_clicks (heap (t_world v) 0) Expander = 1 \<and> n_keydowns (heap (t_world v) 0) Expander = 1 \<and>
     n_clicks (heap (t_world v) 0) TreeCell = 0"
proof -
  let ?o = "\<lambda>s. s\<lparr>expandable := True\<rparr>" and ?c = "CallSortBranch 0 (SortFunction (\<lambda>a b. 0))"
  obtain u where u: "pair_init = Returns u" "tnodes (t_world u) = [0, 1]"
    "case treetable ?c u of Returns v \<Rightarrow> tnodes (t_world v) = [0, 1] \<and> n_hasExpander (heap (t_world v) 0) \<and>
       \<not> clickableNodeNames (t_settings v) | _ \<Rightarrow> False"
    using pair_runs by (auto split: outcome.splits simp del: treetable.simps)
  obtain v where v: "treetable ?c u = Returns v" "tnodes (t_world v) = [0, 1]"
    "n_hasExpander (heap (t_world v) 0)" "\<not> clickableNodeNames (t_settings v)"
    using u(3) by (auto split: outcome.splits simp del: treetable.simps)
  have "after_call ?c u = Some v" using v(1) by (simp add: after_call_def del: treetable.simps)
  moreover have "allowed u ?c" using u(2) by simp
  ultimately have s: "session u [(?c, spec_of u ?c)] v" using session.call [OF session.start] by fastforce
  have "pristine (?o default_settings) (t_world pair_table)"
    by (auto simp: pristine_def pair_table_def plain_table_def open_defs row_data_def parent_id_of_def has_class_def)
  moreover have "\<not> tdata (t_world pair_table)" by (simp add: pair_table_def plain_table_def)
  moreover have "nodeIdAttr (?o default_settings) \<noteq> parentIdAttr (?o default_settings)"
    by (simp add: default_settings_def)
  ultimately obtain u' where u': "treetable (CallInit ?o False) pair_table = Returns u'"
    "\<forall>cs v n h. session u' cs v \<longrightarrow> n \<in> set (tnodes (t_world v)) \<longrightarrow>
      (let x = heap (t_world v) n;
           k = (if n_hasExpander x \<and> target_exists x h \<and>
                  h = (if clickableNodeNames (t_settings v) then TreeCell else Expander) then 1 else 0)
       in n_clicks x h = k \<and> n_keydowns x h = k)"
    using handlers_are_bound_once [of ?o pair_table] by blast
  have "u' = u" using u'(1) u(1) by (simp add: pair_init_def del: treetable.simps)
  note once = u'(2) [unfolded this, rule_format, OF s, of 0]
  show ?thesis
    using once [of Expander] once [of TreeCell] u(1) s v by (auto simp: Let_def target_exists_def)
qed

end
