(* ===== verification/Token_Insert.thy ===== *)
theory Token_Insert
  imports Js_Prelude
begin

text \<open>
  \<open>token.js\<close>: the behaviour \<open>tokenInsert\<close>. Text fields remember who had the focus last, and a
  click on a token link inserts the token into the first editor the code finds, or into that
  field. The editors of other libraries are references; what the code does with them is
  recorded as an action. Two things the browser decides are parameters: how a selection range
  of old Internet Explorers inserts a text (\<open>ie\<close>, \<open>None\<close> where there is no
  \<open>document.selection\<close>), and where a field scrolls to when its value is assigned (\<open>rescroll\<close>).
\<close>

section \<open>State\<close>

type_synonym fref = nat
type_synonym eref = nat

text \<open>\<open>f_sel\<close> is the pair of selection positions of a field that has them; \<open>f_codemirror\<close> is the
  closest \<open>.CodeMirror\<close> around the field, if any, and the editor object stored on it, if any.\<close>

record field =
  f_value :: string
  f_sel :: "(nat \<times> nat) option"
  f_scroll :: int
  f_dialogFocus :: bool
  f_hasFocus :: bool
  f_codemirror :: "eref option option"

datatype action =
    MceInsert eref string
  | CkInsert eref string
  | MirrorReplace eref string
  | MirrorFocus eref
  | WysiwygInsert eref string
  | Alert

record ckeditor_lib =
  ck_current :: "eref option"
  ck_instances :: "string \<Rightarrow> eref option"

record wysiwyg_lib =
  wy_active :: string
  wy_instances :: "string \<Rightarrow> eref option"

record insert_page =
  p_fields :: "fref \<Rightarrow> field"
  p_watched :: "fref set"
  p_focused :: "fref option"
  p_tinyMCE :: "eref option option"
  p_CKEDITOR :: "ckeditor_lib option"
  p_CodeMirror :: bool
  p_wysiwyg :: "wysiwyg_lib option"
  p_ckeditorActiveId :: "string option"
  p_actions :: "action list"

section \<open>insertAtCursor\<close>

text \<open>\<open>editor.value = v\<close>: where the value changes, the text cursor goes to its end.\<close>

definition assign_value :: "(field \<Rightarrow> string \<Rightarrow> int) \<Rightarrow> field \<Rightarrow> string \<Rightarrow> field" where
  "assign_value rescroll f v =
     f\<lparr>f_value := v, f_scroll := rescroll f v,
       f_sel := (if v = f_value f then f_sel f
                 else map_option (\<lambda>_. (length v, length v)) (f_sel f))\<rparr>"

definition insert_at_cursor ::
    "(field \<Rightarrow> string \<Rightarrow> field) option \<Rightarrow> (field \<Rightarrow> string \<Rightarrow> int) \<Rightarrow> field \<Rightarrow> string \<Rightarrow> field" where
  "insert_at_cursor ie rescroll f content =
     (let scroll = f_scroll f;
          f1 = (case ie of
                  Some insertText \<Rightarrow> insertText f content
                | None \<Rightarrow>
                    (case f_sel f of
                       Some (startPos, endPos) \<Rightarrow>
                         assign_value rescroll f
                           (substring (f_value f) 0 startPos @ content @
                            substring (f_value f) endPos (length (f_value f)))
                     | None \<Rightarrow> assign_value rescroll f (f_value f @ content)))
      in f1\<lparr>f_scroll := scroll\<rparr>)"

section \<open>The click on a token\<close>

definition act :: "insert_page \<Rightarrow> action list \<Rightarrow> insert_page" where
  "act p as = p\<lparr>p_actions := p_actions p @ as\<rparr>"

definition insert_in_field ::
    "(field \<Rightarrow> string \<Rightarrow> field) option \<Rightarrow> (field \<Rightarrow> string \<Rightarrow> int) \<Rightarrow> insert_page \<Rightarrow> fref \<Rightarrow> string \<Rightarrow>
     insert_page" where
  "insert_in_field ie rescroll p f content =
     p\<lparr>p_fields := (p_fields p)(f := insert_at_cursor ie rescroll (p_fields p f) content)\<rparr>"

text \<open>The last branches of the handler, from the editors that are looked up by an id.\<close>

definition click_by_id ::
    "(field \<Rightarrow> string \<Rightarrow> field) option \<Rightarrow> (field \<Rightarrow> string \<Rightarrow> int) \<Rightarrow> insert_page \<Rightarrow> string \<Rightarrow>
     insert_page outcome" where
  "click_by_id ie rescroll p content =
     (case (p_wysiwyg p, p_CKEDITOR p, p_ckeditorActiveId p) of
        (w, c, a) \<Rightarrow>
          if (case w of Some wy \<Rightarrow> wy_active wy \<noteq> [] | None \<Rightarrow> False)
          then (case wy_instances (the w) (wy_active (the w)) of
                  Some e \<Rightarrow> Returns (act p [WysiwygInsert e content])
                | None \<Rightarrow> Throws TypeError p)
          else if c \<noteq> None \<and> a \<noteq> None
          then (case ck_instances (the c) (the a) of
                  Some e \<Rightarrow> Returns (act p [CkInsert e content])
                | None \<Rightarrow> Throws TypeError p)
          else (case p_focused p of
                  Some f \<Rightarrow> Returns (insert_in_field ie rescroll p f content)
                | None \<Rightarrow> Returns (act p [Alert])))"

definition token_click ::
    "(field \<Rightarrow> string \<Rightarrow> field) option \<Rightarrow> (field \<Rightarrow> string \<Rightarrow> int) \<Rightarrow> insert_page \<Rightarrow> string \<Rightarrow>
     insert_page outcome" where
  "token_click ie rescroll p content =
     (if (case p_focused p of
            Some f \<Rightarrow> f_dialogFocus (p_fields p f) \<or> f_hasFocus (p_fields p f) | None \<Rightarrow> False)
      then Returns (insert_in_field ie rescroll p (the (p_focused p)) content)
      else case p_tinyMCE p of
        Some (Some e) \<Rightarrow> Returns (act p [MceInsert e content])
      | _ \<Rightarrow>
        (case (case p_CKEDITOR p of Some c \<Rightarrow> ck_current c | None \<Rightarrow> None) of
           Some e \<Rightarrow> Returns (act p [CkInsert e content])
         | None \<Rightarrow>
           (case (if p_CodeMirror p
                  then (case p_focused p of
                          Some f \<Rightarrow> f_codemirror (p_fields p f) | None \<Rightarrow> None)
                  else None) of
              Some (Some e) \<Rightarrow> Returns (act p [MirrorReplace e content, MirrorFocus e])
            | Some None \<Rightarrow> Throws TypeError p
            | None \<Rightarrow> click_by_id ie rescroll p content)))"

section \<open>Events\<close>

text \<open>\<open>attach\<close> watches the text fields of its context, every time it runs; the new token links
  it makes are those \<open>once\<close> hands out, and a click on one inserts its text. A focus on a field
  that is watched stores the field.\<close>

datatype insert_event = Attach "fref list" | Focus fref | Click string

definition watch_fields :: "fref list \<Rightarrow> insert_page \<Rightarrow> insert_page" where
  "watch_fields fs p = p\<lparr>p_watched := p_watched p \<union> set fs\<rparr>"

definition focus_field :: "fref \<Rightarrow> insert_page \<Rightarrow> insert_page" where
  "focus_field f p = (if f \<in> p_watched p then p\<lparr>p_focused := Some f\<rparr> else p)"

definition insert_step ::
    "(field \<Rightarrow> string \<Rightarrow> field) option \<Rightarrow> (field \<Rightarrow> string \<Rightarrow> int) \<Rightarrow> insert_page \<Rightarrow> insert_event \<Rightarrow>
     insert_page outcome" where
  "insert_step ie rescroll p e =
     (case e of
        Attach fs \<Rightarrow> Returns (watch_fields fs p)
      | Focus f \<Rightarrow> Returns (focus_field f p)
      | Click content \<Rightarrow> token_click ie rescroll p content)"

definition insert_run ::
    "(field \<Rightarrow> string \<Rightarrow> field) option \<Rightarrow> (field \<Rightarrow> string \<Rightarrow> int) \<Rightarrow> insert_page \<Rightarrow> insert_event list \<Rightarrow>
     insert_page outcome" where
  "insert_run ie rescroll p es = each (insert_step ie rescroll) p es"

section \<open>Token links\<close>

text \<open>The content of a \<open>.token-key\<close>: its text, and the links wrapped around it. \<open>attach\<close> puts one
  more link around the content of each token it is given.\<close>

record token_key =
  tk_text :: string
  tk_links :: nat

definition link_tokens :: "nat list \<Rightarrow> (nat \<Rightarrow> token_key) \<Rightarrow> nat \<Rightarrow> token_key" where
  "link_tokens ts k = fold (\<lambda>t h. h(t := (h t)\<lparr>tk_links := Suc (tk_links (h t))\<rparr>)) ts k"

section \<open>Properties\<close>

text \<open>The field after an insertion.\<close>

lemma insert_at_cursor_selection:
  assumes "f_sel f = Some (a, b)"
  shows "f_value (insert_at_cursor None rescroll f c) =
      take a (f_value f) @ c @ drop b (f_value f)"
proof -
  have "substring (f_value f) b (length (f_value f)) = drop b (f_value f)"
    by (cases "b \<le> length (f_value f)") (simp_all add: substring_suffix substring_past_end)
  then show ?thesis using assms by (simp add: insert_at_cursor_def assign_value_def substring_prefix)
qed

lemma insert_at_cursor_scroll [simp]: "f_scroll (insert_at_cursor ie rescroll f c) = f_scroll f"
  by (simp add: insert_at_cursor_def Let_def)

lemma insert_at_cursor_at_end:
  assumes "f_sel f = Some (a, b)" and "c \<noteq> []" and "a = b" and "b \<le> length (f_value f)"
  shows "f_sel (insert_at_cursor None rescroll f c) =
    Some (length (f_value f) + length c, length (f_value f) + length c)"
proof -
  let ?v = "take a (f_value f) @ c @ drop b (f_value f)"
  have l: "length ?v = length (f_value f) + length c" using assms(3,4) by simp
  then have "?v \<noteq> f_value f" using assms(2) by (metis add_eq_self_zero length_0_conv)
  moreover have "f_value (insert_at_cursor None rescroll f c) = ?v"
    by (rule insert_at_cursor_selection [OF assms(1)])
  ultimately show ?thesis
    using assms(1) l by (auto simp: insert_at_cursor_def assign_value_def Let_def)
qed

text \<open>\<open>insertAtCursor\<close> on a field with a selection replaces exactly the selected part of the
  value by the content and keeps what is before and behind it; on a field without one it appends
  the content; in both cases the scroll position is the one from before.\<close>

theorem insertAtCursor_replaces_the_selection:
  shows "f_value (insert_at_cursor None rescroll f c) =
      (case f_sel f of
         Some (a, b) \<Rightarrow> take a (f_value f) @ c @ drop b (f_value f)
       | None \<Rightarrow> f_value f @ c) \<and>
    f_scroll (insert_at_cursor ie rescroll f c) = f_scroll f"
  by (cases "f_sel f")
    (auto simp: insert_at_cursor_selection, simp add: insert_at_cursor_def assign_value_def Let_def)

text \<open>C32: A click on a token that returns delivers the token exactly once: either into the field
  that was focused last, with no other action, or by exactly one insertion into one editor, with
  all fields unchanged; it asks the user to click a field, delivering nothing, only if no field
  was ever focused. Which field is focused last does not change.\<close>

theorem token_is_delivered_once:
  assumes "token_click ie rescroll p c = Returns q"
  shows "p_focused q = p_focused p \<and> p_watched q = p_watched p \<and>
    ((\<exists>f. p_focused p = Some f \<and> p_actions q = p_actions p \<and>
        p_fields q = (p_fields p)(f := insert_at_cursor ie rescroll (p_fields p f) c)) \<or>
     (p_fields q = p_fields p \<and>
       (\<exists>e. p_actions q \<in> {p_actions p @ [MceInsert e c], p_actions p @ [CkInsert e c],
          p_actions p @ [MirrorReplace e c, MirrorFocus e], p_actions p @ [WysiwygInsert e c]})) \<or>
     (p_focused p = None \<and> p_fields q = p_fields p \<and> p_actions q = p_actions p @ [Alert]))"
  using assms
  by (auto simp: token_click_def click_by_id_def insert_in_field_def act_def
      split: if_splits option.splits)

definition one_field :: insert_page where
  "one_field = \<lparr>p_fields = (\<lambda>_. \<lparr>f_value = ''Hello world'', f_sel = Some (6, 11), f_scroll = 3,
       f_dialogFocus = False, f_hasFocus = False, f_codemirror = None\<rparr>),
     p_watched = {0}, p_focused = Some 0, p_tinyMCE = None, p_CKEDITOR = None,
     p_CodeMirror = False, p_wysiwyg = None, p_ckeditorActiveId = None, p_actions = []\<rparr>"

lemma one_field_click: "\<exists>q. token_click None (\<lambda>_ _. 0) one_field ''[site:name]'' = Returns q"
  by (simp add: token_click_def click_by_id_def one_field_def)

theorem token_is_delivered_once_witness:
  "\<exists>q. token_click None (\<lambda>_ _. 0) one_field ''[site:name]'' = Returns q \<and> p_focused q = Some 0"
proof -
  obtain q where q: "token_click None (\<lambda>_ _. 0) one_field ''[site:name]'' = Returns q"
    using one_field_click by blast
  then show ?thesis using token_is_delivered_once [OF q] by (auto simp: one_field_def)
qed

text \<open>Where no editor is on the page a click goes to the focused field.\<close>

definition plain_page :: "insert_page \<Rightarrow> bool" where
  "plain_page p \<longleftrightarrow> p_tinyMCE p \<in> {None, Some None} \<and> p_CKEDITOR p = None \<and> \<not> p_CodeMirror p \<and>
     (case p_wysiwyg p of None \<Rightarrow> True | Some w \<Rightarrow> wy_active w = [])"

lemma plain_click:
  "plain_page p \<Longrightarrow> token_click ie rescroll p c =
    Returns (case p_focused p of
       Some f \<Rightarrow> insert_in_field ie rescroll p f c | None \<Rightarrow> act p [Alert])"
  by (auto simp: token_click_def click_by_id_def plain_page_def split: option.splits)

text \<open>The field the focus events name last, among those watched at the time.\<close>

primrec last_focus :: "fref set \<Rightarrow> fref option \<Rightarrow> insert_event list \<Rightarrow> fref option" where
  "last_focus W l [] = l"
| "last_focus W l (e # es) =
     (case e of
        Attach fs \<Rightarrow> last_focus (W \<union> set fs) l es
      | Focus f \<Rightarrow> last_focus W (if f \<in> W then Some f else l) es
      | Click _ \<Rightarrow> last_focus W l es)"

lemma insert_in_field_simps [simp]:
  "p_focused (insert_in_field ie rescroll p f c) = p_focused p"
  "p_watched (insert_in_field ie rescroll p f c) = p_watched p"
  "plain_page (insert_in_field ie rescroll p f c) = plain_page p"
  "p_focused (act p as) = p_focused p" "p_watched (act p as) = p_watched p"
  "plain_page (act p as) = plain_page p"
  by (simp_all add: insert_in_field_def act_def plain_page_def)

lemma run_last_focus:
  "plain_page p \<Longrightarrow> \<exists>q. insert_run ie rescroll p es = Returns q \<and> plain_page q \<and>
    p_focused q = last_focus (p_watched p) (p_focused p) es"
proof (induction es arbitrary: p)
  case Nil
  then show ?case by (simp add: insert_run_def)
next
  case (Cons e es)
  obtain u where u: "insert_step ie rescroll p e = Returns u" "plain_page u"
    "last_focus (p_watched u) (p_focused u) es = last_focus (p_watched p) (p_focused p) (e # es)"
  proof (cases e)
    case (Attach fs)
    then show thesis using that [of "watch_fields fs p"] Cons.prems
      by (simp add: insert_step_def watch_fields_def plain_page_def)
  next
    case (Focus f)
    then show thesis using that [of "focus_field f p"] Cons.prems
      by (simp add: insert_step_def focus_field_def plain_page_def split: if_splits)
  next
    case (Click c)
    then show thesis using that Cons.prems
      by (cases "p_focused p") (simp_all add: insert_step_def plain_click)
  qed
  then show ?case using Cons.IH [OF u(2)] by (auto simp: insert_run_def)
qed

text \<open>C31: On a page without editors, after any sequence of attachments, focus events and clicks,
  the next token goes into the watched field that was focused last, at its selection, and leaves
  every other field alone; if none was focused the user is asked to click one.\<close>

theorem token_goes_to_the_last_focused_field:
  assumes "plain_page p"
  shows "\<exists>q r. insert_run None rescroll p es = Returns q \<and>
    insert_step None rescroll q (Click c) = Returns r \<and>
    (case last_focus (p_watched p) (p_focused p) es of
       None \<Rightarrow> p_fields r = p_fields q \<and> p_actions r = p_actions q @ [Alert]
     | Some f \<Rightarrow> p_actions r = p_actions q \<and> (\<forall>g. g \<noteq> f \<longrightarrow> p_fields r g = p_fields q g) \<and>
         f_value (p_fields r f) =
           (case f_sel (p_fields q f) of
              Some (a, b) \<Rightarrow> take a (f_value (p_fields q f)) @ c @ drop b (f_value (p_fields q f))
            | None \<Rightarrow> f_value (p_fields q f) @ c))"
proof -
  obtain q where q: "insert_run None rescroll p es = Returns q" "plain_page q"
    "p_focused q = last_focus (p_watched p) (p_focused p) es"
    using run_last_focus [OF assms] by blast
  let ?r = "case p_focused q of
    Some f \<Rightarrow> insert_in_field None rescroll q f c | None \<Rightarrow> act q [Alert]"
  have r: "insert_step None rescroll q (Click c) = Returns ?r"
    using plain_click [OF q(2)] by (simp add: insert_step_def)
  have v: "f_value (insert_at_cursor None rescroll f c) =
      (case f_sel f of Some (a, b) \<Rightarrow> take a (f_value f) @ c @ drop b (f_value f)
       | None \<Rightarrow> f_value f @ c)" for f
    by (cases "f_sel f")
      (auto simp: insert_at_cursor_selection, simp add: insert_at_cursor_def assign_value_def Let_def)
  show ?thesis
    by (intro exI [of _ q] exI [of _ ?r] conjI q(1) r, unfold q(3) [symmetric])
      (auto simp: insert_in_field_def act_def v split: option.split)
qed

theorem token_goes_to_the_last_focused_field_witness:
  "\<exists>q r. insert_run None (\<lambda>_ _. 0) one_field [Attach [0, 1], Focus 1, Focus 2] = Returns q \<and>
     insert_step None (\<lambda>_ _. 0) q (Click ''x'') = Returns r \<and> p_fields r 0 = p_fields q 0"
proof -
  have "plain_page one_field" by (simp add: plain_page_def one_field_def)
  then show ?thesis
    using token_goes_to_the_last_focused_field [of one_field "\<lambda>_ _. 0"
        "[Attach [0, 1], Focus 1, Focus 2]" "''x''"]
    by (auto simp: one_field_def)
qed

text \<open>C33: The cursor does not stay behind the token: after an insertion at a caret the caret is at
  the end of the value, so a second token clicked in a row lands at the end of the field.\<close>

theorem second_token_lands_at_the_end:
  assumes "f_sel f = Some (a, a)" and "a \<le> length (f_value f)" and "c \<noteq> []"
  shows "f_value (insert_at_cursor None rescroll (insert_at_cursor None rescroll f c) d) =
      take a (f_value f) @ c @ drop a (f_value f) @ d"
proof -
  let ?g = "insert_at_cursor None rescroll f c"
  have v: "f_value ?g = take a (f_value f) @ c @ drop a (f_value f)"
    by (rule insert_at_cursor_selection [OF assms(1)])
  have l: "length (f_value ?g) = length (f_value f) + length c" using assms(2) by (simp add: v)
  have "f_sel ?g = Some (length (f_value ?g), length (f_value ?g))"
    using insert_at_cursor_at_end [OF assms(1,3) refl assms(2)] by (simp add: l)
  then have "f_value (insert_at_cursor None rescroll ?g d) = f_value ?g @ d"
    using insert_at_cursor_selection [of ?g "length (f_value ?g)" "length (f_value ?g)" rescroll d]
    by simp
  then show ?thesis by (simp add: v)
qed

theorem second_token_lands_at_the_end_witness:
  "f_value (insert_at_cursor None (\<lambda>_ _. 0) (insert_at_cursor None (\<lambda>_ _. 0)
     (p_fields one_field 0\<lparr>f_sel := Some (5, 5)\<rparr>) ''A'') ''B'') = ''HelloA worldB''"
  using second_token_lands_at_the_end [of "p_fields one_field 0\<lparr>f_sel := Some (5, 5)\<rparr>" 5 "''A''"
      "\<lambda>_ _. 0" "''B''"]
  by (simp add: one_field_def)

end
