(* ===== verification/Persisted_Queries.thy ===== *)
theory Persisted_Queries
  imports Js_Prelude
begin

text \<open>
  \<open>persisted_queries.js\<close>: the checkboxes of the form of persisted queries show and hide the table
  row and the vertical tab of their plugin. \<open>attach\<close> looks for the checkboxes, their rows and
  their tabs in the part of the page it is given (the context), and a handler is kept with the rows
  and the tab it captured when it was bound.
\<close>

section \<open>State and operations\<close>

record tab =
  t_shown :: bool
  t_updates :: nat

record handler =
  h_rows :: "nat list"
  h_tab :: "nat option"

text \<open>\<open>f_weight\<close> and \<open>f_settings\<close> give the elements of the page with the class of a plugin, in
  document order; \<open>f_vtab\<close> is the tab stored on an element as \<open>verticalTab\<close>.\<close>

record form =
  f_id :: "nat \<Rightarrow> dval option"
  f_checked :: "nat \<Rightarrow> bool"
  f_handlers :: "nat \<Rightarrow> handler list"
  f_weight :: "string \<Rightarrow> nat list"
  f_settings :: "string \<Rightarrow> nat list"
  f_vtab :: "nat \<Rightarrow> nat option"
  f_row :: "nat \<Rightarrow> bool"
  f_tab :: "nat \<Rightarrow> tab"

text \<open>A part of the page: the checkboxes in it, in document order, and which of the other elements
  lie in it.\<close>

record context_part =
  x_boxes :: "nat list"
  x_rows :: "nat set"
  x_panes :: "nat set"

text \<open>\<open>'...--' + plugin_id\<close>, for an id that may be missing.\<close>

definition plugin_key :: "form \<Rightarrow> nat \<Rightarrow> string" where
  "plugin_key p b = (case f_id p b of None \<Rightarrow> ''undefined'' | Some i \<Rightarrow> prop_key i)"

definition rows_in :: "context_part \<Rightarrow> form \<Rightarrow> nat \<Rightarrow> nat list" where
  "rows_in x p b = filter (\<lambda>r. r \<in> x_rows x) (f_weight p (plugin_key p b))"

text \<open>\<open>data()\<close> reads the first element found, and gives \<open>undefined\<close> when there is none.\<close>

definition tab_in :: "context_part \<Rightarrow> form \<Rightarrow> nat \<Rightarrow> nat option" where
  "tab_in x p b =
     (case filter (\<lambda>e. e \<in> x_panes x) (f_settings p (plugin_key p b)) of
        [] \<Rightarrow> None
      | e # es \<Rightarrow> f_vtab p e)"

definition set_rows :: "nat list \<Rightarrow> bool \<Rightarrow> form \<Rightarrow> form" where
  "set_rows rs v p = p\<lparr>f_row := (\<lambda>r. if r \<in> set rs then v else f_row p r)\<rparr>"

definition set_tab :: "nat option \<Rightarrow> bool \<Rightarrow> form \<Rightarrow> form" where
  "set_tab t v p =
     (case t of
        None \<Rightarrow> p
      | Some i \<Rightarrow> p\<lparr>f_tab := (f_tab p)(i :=
            \<lparr>t_shown = v, t_updates = Suc (t_updates (f_tab p i))\<rparr>)\<rparr>)"

text \<open>The handler of \<open>click.persistedQueryUpdate\<close>.\<close>

definition query_update :: "nat \<Rightarrow> handler \<Rightarrow> form \<Rightarrow> form" where
  "query_update b h p =
     (if f_checked p b then set_tab (h_tab h) True (set_rows (h_rows h) True p)
      else set_tab (h_tab h) False (set_rows (h_rows h) False p))"

definition trigger_update :: "nat \<Rightarrow> form \<Rightarrow> form" where
  "trigger_update b p = fold (query_update b) (f_handlers p b) p"

definition attach_box :: "context_part \<Rightarrow> nat \<Rightarrow> form \<Rightarrow> form" where
  "attach_box x b p =
     (let h = \<lparr>h_rows = rows_in x p b, h_tab = tab_in x p b\<rparr>
      in trigger_update b (p\<lparr>f_handlers := (f_handlers p)(b := f_handlers p b @ [h])\<rparr>))"

definition attach_boxes :: "context_part \<Rightarrow> form \<Rightarrow> form" where
  "attach_boxes x p = fold (attach_box x) (x_boxes x) p"

text \<open>The user's click toggles the checkbox before its handlers run.\<close>

definition click_box :: "nat \<Rightarrow> form \<Rightarrow> form" where
  "click_box b p = trigger_update b (p\<lparr>f_checked := (f_checked p)(b := \<not> f_checked p b)\<rparr>)"

datatype form_event = AttachBoxes context_part | ClickBox nat

definition form_step :: "form_event \<Rightarrow> form \<Rightarrow> form" where
  "form_step e p = (case e of AttachBoxes x \<Rightarrow> attach_boxes x p | ClickBox b \<Rightarrow> click_box b p)"

section \<open>What the handlers do\<close>

text \<open>What no event changes.\<close>

definition same_page :: "form \<Rightarrow> form \<Rightarrow> bool" where
  "same_page p q \<longleftrightarrow> f_id q = f_id p \<and> f_weight q = f_weight p \<and> f_settings q = f_settings p \<and>
     f_vtab q = f_vtab p"

lemma same_page_lookup:
  assumes "same_page p q"
  shows "rows_in x q b = rows_in x p b" and "tab_in x q b = tab_in x p b"
  using assms by (simp_all add: same_page_def rows_in_def tab_in_def plugin_key_def cong: list.case_cong)

lemma same_page_trans: "same_page p q \<Longrightarrow> same_page q r \<Longrightarrow> same_page p r"
  by (simp add: same_page_def)

lemma query_update_same [simp]:
  "f_checked (query_update b h p) = f_checked p" "f_handlers (query_update b h p) = f_handlers p"
  "same_page q (query_update b h p) = same_page q p"
  by (simp_all add: query_update_def set_tab_def set_rows_def same_page_def split: option.split)

lemma fold_update_same [simp]:
  "f_checked (fold (query_update b) hs p) = f_checked p"
  "f_handlers (fold (query_update b) hs p) = f_handlers p"
  "same_page q (fold (query_update b) hs p) = same_page q p"
  by (induction hs arbitrary: p) simp_all

text \<open>Which handlers hold on to a row or a tab.\<close>

definition holds_row :: "handler list \<Rightarrow> nat \<Rightarrow> bool" where
  "holds_row hs r \<longleftrightarrow> (\<exists>h\<in>set hs. r \<in> set (h_rows h))"

definition holds_tab :: "handler list \<Rightarrow> nat \<Rightarrow> bool" where
  "holds_tab hs i \<longleftrightarrow> (\<exists>h\<in>set hs. h_tab h = Some i)"

lemma holds_simps [simp]:
  "holds_row [] r = False" "holds_row (h # hs) r \<longleftrightarrow> r \<in> set (h_rows h) \<or> holds_row hs r"
  "holds_row (hs @ gs) r \<longleftrightarrow> holds_row hs r \<or> holds_row gs r"
  "holds_tab [] i = False" "holds_tab (h # hs) i \<longleftrightarrow> h_tab h = Some i \<or> holds_tab hs i"
  "holds_tab (hs @ gs) i \<longleftrightarrow> holds_tab hs i \<or> holds_tab gs i"
  by (auto simp: holds_row_def holds_tab_def)

lemma query_update_value:
  "f_row (query_update b h p) r = (if r \<in> set (h_rows h) then f_checked p b else f_row p r)"
  "t_shown (f_tab (query_update b h p) i) =
     (if h_tab h = Some i then f_checked p b else t_shown (f_tab p i))"
  by (auto simp: query_update_def set_tab_def set_rows_def split: option.split)

lemma trigger_value:
  "f_row (trigger_update b p) r = (if holds_row (f_handlers p b) r then f_checked p b else f_row p r)"
  "t_shown (f_tab (trigger_update b p) i) =
     (if holds_tab (f_handlers p b) i then f_checked p b else t_shown (f_tab p i))"
proof -
  have "f_row (fold (query_update b) hs q) r = (if holds_row hs r then f_checked q b else f_row q r)"
    "t_shown (f_tab (fold (query_update b) hs q) i) =
       (if holds_tab hs i then f_checked q b else t_shown (f_tab q i))" for hs q
    by (induction hs arbitrary: q) (simp_all add: query_update_value)
  then show "f_row (trigger_update b p) r = (if holds_row (f_handlers p b) r then f_checked p b else f_row p r)"
    "t_shown (f_tab (trigger_update b p) i) =
       (if holds_tab (f_handlers p b) i then f_checked p b else t_shown (f_tab p i))"
    by (simp_all add: trigger_update_def)
qed

lemma trigger_same [simp]:
  "f_checked (trigger_update b p) = f_checked p" "f_handlers (trigger_update b p) = f_handlers p"
  "same_page q (trigger_update b p) = same_page q p"
  by (simp_all add: trigger_update_def)

section \<open>Histories of events\<close>

text \<open>The handlers an event binds to a checkbox, as they are looked up on the page \<open>p\<close>.\<close>

definition found :: "context_part \<Rightarrow> form \<Rightarrow> nat \<Rightarrow> handler" where
  "found x p b = \<lparr>h_rows = rows_in x p b, h_tab = tab_in x p b\<rparr>"

definition bound_by :: "form \<Rightarrow> nat \<Rightarrow> form_event \<Rightarrow> handler list" where
  "bound_by p b e =
     (case e of
        AttachBoxes x \<Rightarrow> map (\<lambda>_. found x p b) (filter (\<lambda>c. c = b) (x_boxes x))
      | ClickBox c \<Rightarrow> [])"

text \<open>Different checkboxes of the page have different rows and tabs, and so do the
  handlers found for them.\<close>

definition separate :: "form \<Rightarrow> bool" where
  "separate p \<longleftrightarrow> (\<forall>b c. b \<noteq> c \<longrightarrow>
     set (f_weight p (plugin_key p b)) \<inter> set (f_weight p (plugin_key p c)) = {} \<and>
     f_vtab p ` set (f_settings p (plugin_key p b)) \<inter> f_vtab p ` set (f_settings p (plugin_key p c)) \<subseteq> {None})"

lemma found_fields: "h_rows (found x p b) = rows_in x p b" "h_tab (found x p b) = tab_in x p b"
  by (simp_all add: found_def)

lemma found_on_page:
  "r \<in> set (h_rows (found x p b)) \<Longrightarrow> r \<in> set (f_weight p (plugin_key p b))"
  "h_tab (found x p b) = Some i \<Longrightarrow> Some i \<in> f_vtab p ` set (f_settings p (plugin_key p b))"
proof -
  show "r \<in> set (h_rows (found x p b)) \<Longrightarrow> r \<in> set (f_weight p (plugin_key p b))"
    by (simp add: found_def rows_in_def)
  assume t: "h_tab (found x p b) = Some i"
  let ?es = "filter (\<lambda>e. e \<in> x_panes x) (f_settings p (plugin_key p b))"
  obtain e es where e: "?es = e # es" "f_vtab p e = Some i"
    using t by (auto simp: found_def tab_in_def split: list.splits)
  then have "e \<in> set ?es" by simp
  then show "Some i \<in> f_vtab p ` set (f_settings p (plugin_key p b))"
    using e(2) by (metis filter_is_subset imageI subsetD)
qed

text \<open>The invariant, for handlers found on the page \<open>p\<close> at the start.\<close>

definition form_inv :: "form \<Rightarrow> form \<Rightarrow> bool" where
  "form_inv p q \<longleftrightarrow> same_page p q \<and>
     (\<forall>b. \<forall>h\<in>set (f_handlers q b). \<exists>x. h = found x p b) \<and>
     (\<forall>b r. holds_row (f_handlers q b) r \<longrightarrow> f_row q r = f_checked q b) \<and>
     (\<forall>b i. holds_tab (f_handlers q b) i \<longrightarrow> t_shown (f_tab q i) = f_checked q b) \<and>
     (\<forall>r. (\<forall>b. \<not> holds_row (f_handlers q b) r) \<longrightarrow> f_row q r = f_row p r) \<and>
     (\<forall>i. (\<forall>b. \<not> holds_tab (f_handlers q b) i) \<longrightarrow> t_shown (f_tab q i) = t_shown (f_tab p i))"

lemma held_once:
  assumes "separate p" and "\<forall>b. \<forall>h\<in>set (hs b). \<exists>x. h = found x p b"
  shows "holds_row (hs b) r \<Longrightarrow> holds_row (hs c) r \<Longrightarrow> b = c"
    and "holds_tab (hs b) i \<Longrightarrow> holds_tab (hs c) i \<Longrightarrow> b = c"
proof -
  have row: "r \<in> set (f_weight p (plugin_key p b))" if "holds_row (hs b) r" for b
    using that assms(2) found_on_page(1) unfolding holds_row_def by metis
  have tab: "Some i \<in> f_vtab p ` set (f_settings p (plugin_key p b))" if "holds_tab (hs b) i" for b
    using that assms(2) found_on_page(2) unfolding holds_tab_def by metis
  show "b = c" if "holds_row (hs b) r" "holds_row (hs c) r"
    using row [OF that(1)] row [OF that(2)] assms(1) by (auto simp: separate_def)
  show "b = c" if "holds_tab (hs b) i" "holds_tab (hs c) i"
  proof (rule ccontr)
    assume "b \<noteq> c"
    then have "Some i \<in> {None}" using tab [OF that(1)] tab [OF that(2)] assms(1) unfolding separate_def by blast
    then show False by simp
  qed
qed

text \<open>Running the handlers of \<open>b\<close> restores the invariant where only \<open>b\<close> may have broken it.\<close>

lemma trigger_restores:
  assumes sep: "separate p" and sp: "same_page p q"
    and hs: "\<forall>b. \<forall>h\<in>set (f_handlers q b). \<exists>x. h = found x p b"
    and row: "\<And>c r. c \<noteq> b \<Longrightarrow> holds_row (f_handlers q c) r \<Longrightarrow> f_row q r = f_checked q c"
    and tab: "\<And>c i. c \<noteq> b \<Longrightarrow> holds_tab (f_handlers q c) i \<Longrightarrow> t_shown (f_tab q i) = f_checked q c"
    and row0: "\<And>r. \<forall>c. \<not> holds_row (f_handlers q c) r \<Longrightarrow> f_row q r = f_row p r"
    and tab0: "\<And>i. \<forall>c. \<not> holds_tab (f_handlers q c) i \<Longrightarrow> t_shown (f_tab q i) = t_shown (f_tab p i)"
  shows "form_inv p (trigger_update b q)"
proof -
  note once = held_once [OF sep hs]
  have "f_row (trigger_update b q) r = f_checked q c" if "holds_row (f_handlers q c) r" for c r
    using that row [of c r] once(1) [of c r b] by (cases "c = b") (auto simp: trigger_value)
  moreover have "t_shown (f_tab (trigger_update b q) i) = f_checked q c" if "holds_tab (f_handlers q c) i" for c i
    using that tab [of c i] once(2) [of c i b] by (cases "c = b") (auto simp: trigger_value)
  ultimately show ?thesis
    using sp hs row0 tab0 by (simp add: form_inv_def trigger_value)
qed

lemma form_inv_attach_box:
  assumes sep: "separate p" and inv: "form_inv p q"
  shows "form_inv p (attach_box x b q)"
    and "f_handlers (attach_box x b q) c = f_handlers q c @ (if c = b then [found x p b] else [])"
    and "f_checked (attach_box x b q) = f_checked q"
proof -
  have sp: "same_page p q" using inv by (simp add: form_inv_def)
  let ?q = "q\<lparr>f_handlers := (f_handlers q)(b := f_handlers q b @ [found x p b])\<rparr>"
  have eq: "attach_box x b q = trigger_update b ?q"
    by (simp add: attach_box_def found_def same_page_lookup [OF sp])
  show "f_handlers (attach_box x b q) c = f_handlers q c @ (if c = b then [found x p b] else [])"
    and "f_checked (attach_box x b q) = f_checked q"
    by (simp_all add: eq)
  show "form_inv p (attach_box x b q)"
    unfolding eq
  proof (rule trigger_restores [OF sep])
    show "same_page p ?q" using sp by (simp add: same_page_def)
    show "\<forall>c. \<forall>h\<in>set (f_handlers ?q c). \<exists>x. h = found x p c"
      using inv by (auto simp: form_inv_def)
    fix c r i
    show "c \<noteq> b \<Longrightarrow> holds_row (f_handlers ?q c) r \<Longrightarrow> f_row ?q r = f_checked ?q c"
      "c \<noteq> b \<Longrightarrow> holds_tab (f_handlers ?q c) i \<Longrightarrow> t_shown (f_tab ?q i) = f_checked ?q c"
      using inv by (simp_all add: form_inv_def)
    have old: "holds_row (f_handlers q c) r \<Longrightarrow> holds_row (f_handlers ?q c) r"
      "holds_tab (f_handlers q c) i \<Longrightarrow> holds_tab (f_handlers ?q c) i" for c
      by auto
    show "\<forall>c. \<not> holds_row (f_handlers ?q c) r \<Longrightarrow> f_row ?q r = f_row p r"
      using inv old(1) unfolding form_inv_def by fastforce
    show "\<forall>c. \<not> holds_tab (f_handlers ?q c) i \<Longrightarrow> t_shown (f_tab ?q i) = t_shown (f_tab p i)"
      using inv old(2) unfolding form_inv_def by fastforce
  qed
qed

lemma form_inv_click:
  assumes "separate p" and inv: "form_inv p q"
  shows "form_inv p (click_box b q)" and "f_handlers (click_box b q) = f_handlers q"
    and "f_checked (click_box b q) c \<longleftrightarrow> (f_checked q c \<noteq> (c = b))"
proof -
  let ?q = "q\<lparr>f_checked := (f_checked q)(b := \<not> f_checked q b)\<rparr>"
  show "f_handlers (click_box b q) = f_handlers q"
    and "f_checked (click_box b q) c \<longleftrightarrow> (f_checked q c \<noteq> (c = b))"
    by (auto simp: click_box_def)
  show "form_inv p (click_box b q)"
    unfolding click_box_def
    by (rule trigger_restores [OF assms(1)])
      (use inv in \<open>simp_all add: form_inv_def same_page_def\<close>)
qed

lemma form_inv_attach:
  assumes "separate p"
  shows "form_inv p q \<Longrightarrow> form_inv p (fold (attach_box x) bs q) \<and>
    f_checked (fold (attach_box x) bs q) = f_checked q \<and>
    f_handlers (fold (attach_box x) bs q) c = f_handlers q c @ map (\<lambda>_. found x p c) (filter (\<lambda>b. b = c) bs)"
proof (induction bs arbitrary: q)
  case (Cons b bs)
  show ?case using Cons.IH [OF form_inv_attach_box(1) [OF assms Cons.prems]]
    by (auto simp: form_inv_attach_box(2,3) [OF assms Cons.prems])
qed simp

lemma form_inv_run:
  assumes "separate p"
  shows "form_inv p q \<Longrightarrow> form_inv p (fold form_step es q) \<and>
    f_handlers (fold form_step es q) b = f_handlers q b @ concat (map (bound_by p b) es) \<and>
    f_checked (fold form_step es q) b = (f_checked q b \<noteq> odd (count_list es (ClickBox b)))"
proof (induction es arbitrary: q)
  case (Cons e es)
  have "form_inv p (form_step e q) \<and> f_handlers (form_step e q) b = f_handlers q b @ bound_by p b e \<and>
      f_checked (form_step e q) b = (f_checked q b \<noteq> (e = ClickBox b))"
    using form_inv_attach [OF assms Cons.prems] form_inv_click [OF assms Cons.prems]
    by (cases e) (auto simp: form_step_def attach_boxes_def bound_by_def)
  then show ?case using Cons.IH [of "form_step e q"] by auto
qed simp

section \<open>Rows and tabs follow the checkboxes\<close>

text \<open>C34: From a form without handlers, after any sequence of attachments to parts of the page and of
  clicks, a checkbox is checked when it was so at the start or clicked an odd number of times,
  but not both; for every attachment, each checkbox in its context shows
  the rows and the tab that were found for it in that context exactly when it is checked, and rows
  and tabs that no attachment found are as they were. Different checkboxes of the page must
  belong to different rows and tabs.\<close>

theorem rows_follow_the_checkboxes:
  assumes "separate p" and "\<forall>b. f_handlers p b = []"
  shows "let q = fold form_step es p in
    (\<forall>b. f_checked q b = (f_checked p b \<noteq> odd (count_list es (ClickBox b)))) \<and>
    (\<forall>x b. AttachBoxes x \<in> set es \<longrightarrow> b \<in> set (x_boxes x) \<longrightarrow>
      (\<forall>r\<in>set (rows_in x p b). f_row q r = f_checked q b) \<and>
      (\<forall>i. tab_in x p b = Some i \<longrightarrow> t_shown (f_tab q i) = f_checked q b)) \<and>
    (\<forall>r. (\<forall>x b. AttachBoxes x \<in> set es \<longrightarrow> b \<in> set (x_boxes x) \<longrightarrow> r \<notin> set (rows_in x p b)) \<longrightarrow>
      f_row q r = f_row p r) \<and>
    (\<forall>i. (\<forall>x b. AttachBoxes x \<in> set es \<longrightarrow> b \<in> set (x_boxes x) \<longrightarrow> tab_in x p b \<noteq> Some i) \<longrightarrow>
      t_shown (f_tab q i) = t_shown (f_tab p i))"
proof -
  define q where "q = fold form_step es p"
  have "form_inv p p" using assms(2) by (simp add: form_inv_def same_page_def)
  note run = form_inv_run [OF assms(1) this, of es, folded q_def]
  have h: "h \<in> set (f_handlers q b) \<longleftrightarrow> (\<exists>x. AttachBoxes x \<in> set es \<and> b \<in> set (x_boxes x) \<and> h = found x p b)" for h b
    using run assms(2) by (force simp: bound_by_def split: form_event.splits)
  have row: "holds_row (f_handlers q b) r \<longleftrightarrow>
      (\<exists>x. AttachBoxes x \<in> set es \<and> b \<in> set (x_boxes x) \<and> r \<in> set (rows_in x p b))" for b r
    unfolding holds_row_def Bex_def h by (metis (no_types) found_fields(1))
  have tab: "holds_tab (f_handlers q b) i \<longleftrightarrow>
      (\<exists>x. AttachBoxes x \<in> set es \<and> b \<in> set (x_boxes x) \<and> tab_in x p b = Some i)" for b i
    unfolding holds_tab_def Bex_def h by (metis (no_types) found_fields(2))
  have inv: "form_inv p q" using run by blast
  show ?thesis unfolding Let_def q_def [symmetric] using run inv unfolding form_inv_def row tab by blast
qed

text \<open>Two checkboxes with a row each, the first with a tab; a context that has both checkboxes but
  not the row of the second, and one that has everything.\<close>

definition two_boxes :: form where
  "two_boxes = \<lparr>f_id = (\<lambda>b. Some (DStr (if b = 0 then ''a'' else if b = 1 then ''b'' else ''c''))),
     f_checked = (\<lambda>b. b = 0), f_handlers = (\<lambda>_. []),
     f_weight = (\<lambda>k. if k = ''a'' then [0] else if k = ''b'' then [1] else []),
     f_settings = (\<lambda>k. if k = ''a'' then [0] else []), f_vtab = (\<lambda>e. Some e),
     f_row = (\<lambda>_. True), f_tab = (\<lambda>_. \<lparr>t_shown = True, t_updates = 0\<rparr>)\<rparr>"

definition part_page :: context_part where
  "part_page = \<lparr>x_boxes = [0, 1], x_rows = {0}, x_panes = {0}\<rparr>"

theorem rows_follow_the_checkboxes_witness:
  "(let q = fold form_step [AttachBoxes part_page, ClickBox 0] two_boxes in
    \<not> f_row q 0 \<and> \<not> t_shown (f_tab q 0) \<and> \<not> f_checked q 1 \<and> f_row q 1)"
proof -
  let ?es = "[AttachBoxes part_page, ClickBox 0]"
  let ?q = "fold form_step ?es two_boxes"
  have "\<forall>b. f_handlers two_boxes b = []" by (simp add: two_boxes_def)
  moreover have "separate two_boxes" by (auto simp: separate_def plugin_key_def two_boxes_def)
  moreover have "rows_in part_page two_boxes b = (if b = 0 then [0] else [])"
    "tab_in part_page two_boxes b = (if b = 0 then Some 0 else None)" for b
    by (simp_all add: rows_in_def tab_in_def part_page_def two_boxes_def plugin_key_def)
  moreover have "\<not> (f_checked two_boxes 0 \<noteq> odd (count_list ?es (ClickBox 0)))"
    "\<not> (f_checked two_boxes 1 \<noteq> odd (count_list ?es (ClickBox 1)))" "f_row two_boxes 1" "0 \<in> set (x_boxes part_page)"
    by (simp_all add: two_boxes_def part_page_def)
  ultimately show ?thesis
    using rows_follow_the_checkboxes [of two_boxes ?es] unfolding Let_def by (auto split: if_splits)
qed

end
