(* ===== verification/Site_Preview.thy ===== *)
theory Site_Preview
  imports Js_Prelude
begin

text \<open>
  \<open>next.site_preview.iframe.js\<close>: the iframe is marked as ready when it has loaded, and messages of
  the previewed site move the page along. The model keeps every assignment to
  \<open>window.location.href\<close>; what the browser then loads is not modelled, and until it has,
  \<open>pathname\<close> stays what it is. The list of routes to skip is the one \<open>Iframe.php\<close> renders into
  the settings.
\<close>

section \<open>Settings\<close>

text \<open>\<open>mb_strtolower\<close> (ASCII letters), \<open>explode("\n", ...)\<close> and \<open>trim\<close>.\<close>

definition lower_char :: "char \<Rightarrow> char" where
  "lower_char c =
     (let n = of_char c :: nat in if 65 \<le> n \<and> n \<le> 90 then char_of (n + 32) else c)"

fun explode_lines :: "string \<Rightarrow> string list" where
  "explode_lines [] = [[]]"
| "explode_lines (c # s) =
     (if c = CHR 0x0A then [] # explode_lines s
      else case explode_lines s of [] \<Rightarrow> [[c]] | l # ls \<Rightarrow> (c # l) # ls)"

definition php_blank :: "char \<Rightarrow> bool" where
  "php_blank c \<longleftrightarrow> (of_char c :: nat) \<in> {0, 9, 10, 11, 13, 32}"

definition php_trim :: "string \<Rightarrow> string" where
  "php_trim s = rev (dropWhile php_blank (rev (dropWhile php_blank s)))"

definition rendered_skip_routes :: "string \<Rightarrow> string list" where
  "rendered_skip_routes cfg = map php_trim (explode_lines (map lower_char cfg))"

section \<open>The page\<close>

text \<open>\<open>drupalSettings.next.iframe_preview\<close>; \<open>None\<close> for \<open>sync_route\<close> or \<open>skip_routes\<close> is
  \<open>undefined\<close>.\<close>

record preview_settings =
  sync_route :: "bool option"
  skip_routes :: "string list option"

record preview =
  v_settings :: "preview_settings option"
  v_pathname :: string
  v_hrefs :: "string list"
  v_listeners :: "preview_settings list"
  v_watched :: "nat list list"
  v_ready :: "nat set"

text \<open>A message: where it comes from, and its data. \<open>Msg_None\<close> is \<open>null\<close> or \<open>undefined\<close>; other
  data has a \<open>type\<close> and a \<open>path\<close>, or lacks them.\<close>

datatype msg_data = Msg_None | Msg (msg_type: "string option") (msg_path: "string option")

record message =
  origin :: string
  data :: msg_data

definition sync_type :: string where
  "sync_type = ''NEXT_DRUPAL_ROUTE_SYNC''"

section \<open>Behaviours\<close>

text \<open>The iframes found by one \<open>attach\<close> are one collection: the load of any of them adds the class
  \<open>ready\<close> to all of them. A later \<open>attach\<close> finds its own collection and binds one more handler.\<close>

definition attach_loader :: "nat list \<Rightarrow> preview \<Rightarrow> preview" where
  "attach_loader iframes p = p\<lparr>v_watched := v_watched p @ [iframes]\<rparr>"

definition iframe_load :: "nat \<Rightarrow> preview \<Rightarrow> preview" where
  "iframe_load i p =
     fold (\<lambda>g q. q\<lparr>v_ready := v_ready q \<union> set g\<rparr>) (filter (\<lambda>g. i \<in> set g) (v_watched p)) p"

definition attach_sync :: "preview \<Rightarrow> preview outcome" where
  "attach_sync p =
     (case v_settings p of
        None \<Rightarrow> Throws TypeError p
      | Some s \<Rightarrow>
          if \<not> (case sync_route s of None \<Rightarrow> False | Some b \<Rightarrow> b) then Returns p
          else Returns (p\<lparr>v_listeners := v_listeners p @ [s]\<rparr>))"

text \<open>The listener.\<close>

definition on_message :: "message \<Rightarrow> preview \<Rightarrow> preview_settings \<Rightarrow> preview outcome" where
  "on_message m p s =
     (case data m of
        Msg_None \<Rightarrow> Throws TypeError p
      | Msg t path \<Rightarrow>
          if t \<noteq> Some sync_type \<or> path = None \<or> path = Some [] then Returns p
          else if (case skip_routes s of None \<Rightarrow> False | Some rs \<Rightarrow> the path \<in> set rs) then Returns p
          else if v_pathname p \<noteq> the path then Returns (p\<lparr>v_hrefs := v_hrefs p @ [the path]\<rparr>)
          else Returns p)"

text \<open>A message runs every listener; an error in one does not keep the others from running.\<close>

definition deliver :: "message \<Rightarrow> preview \<Rightarrow> preview" where
  "deliver m p =
     fold (\<lambda>s q. case on_message m q s of Returns r \<Rightarrow> r | Throws e r \<Rightarrow> r | Diverges \<Rightarrow> q)
       (v_listeners p) p"

section \<open>Properties\<close>

text \<open>The messages a listener with the settings \<open>s\<close> follows.\<close>

definition followed :: "preview_settings \<Rightarrow> string \<Rightarrow> message \<Rightarrow> bool" where
  "followed s pathname m \<longleftrightarrow>
     (\<exists>path. data m = Msg (Some sync_type) (Some path) \<and> path \<noteq> [] \<and>
        path \<noteq> pathname \<and> (\<forall>rs. skip_routes s = Some rs \<longrightarrow> path \<notin> set rs))"

lemma on_message_followed:
  "on_message m p s =
    (if followed s (v_pathname p) m then Returns (p\<lparr>v_hrefs := v_hrefs p @ [the (msg_path (data m))]\<rparr>)
     else if data m = Msg_None then Throws TypeError p else Returns p)"
proof (cases "data m")
  case (Msg t path)
  show ?thesis
  proof (cases path)
    case (Some x)
    then show ?thesis using Msg by (cases "skip_routes s") (auto simp: on_message_def followed_def)
  qed (use Msg in \<open>simp add: on_message_def followed_def\<close>)
qed (simp add: on_message_def followed_def)

text \<open>C36: A listener navigates exactly for route messages with a non-empty path that is neither
  among the routes to skip nor the current one, and then to that path; any other message leaves
  the page alone, with a TypeError if its data is null. Where the message comes from makes no
  difference.\<close>

theorem listener_navigates_exactly:
  "(followed s (v_pathname p) m \<longrightarrow>
      on_message m p s = Returns (p\<lparr>v_hrefs := v_hrefs p @ [the (msg_path (data m))]\<rparr>)) \<and>
   (\<not> followed s (v_pathname p) m \<longrightarrow>
      on_message m p s = (if data m = Msg_None then Throws TypeError p else Returns p)) \<and>
   on_message (m\<lparr>origin := anyone\<rparr>) p s = on_message m p s"
proof -
  have "followed s (v_pathname p) (m\<lparr>origin := anyone\<rparr>) = followed s (v_pathname p) m"
    by (simp add: followed_def)
  then show ?thesis by (simp add: on_message_followed)
qed

theorem listener_navigates_exactly_witness:
  "on_message \<lparr>origin = ''https://elsewhere'',
       data = Msg (Some sync_type) (Some ''/blog'')\<rparr>
     \<lparr>v_settings = None, v_pathname = ''/'', v_hrefs = [], v_listeners = [], v_watched = [], v_ready = {}\<rparr>
     \<lparr>sync_route = Some True, skip_routes = Some [''/user'']\<rparr> =
   Returns \<lparr>v_settings = None, v_pathname = ''/'', v_hrefs = [''/blog''], v_listeners = [],
     v_watched = [], v_ready = {}\<rparr>"
proof -
  let ?m = "\<lparr>origin = ''https://elsewhere'', data = Msg (Some sync_type) (Some ''/blog'')\<rparr>"
  let ?p = "\<lparr>v_settings = None, v_pathname = ''/'', v_hrefs = [], v_listeners = [], v_watched = [], v_ready = {}\<rparr>"
  let ?s = "\<lparr>sync_route = Some True, skip_routes = Some [''/user'']\<rparr>"
  have "followed ?s (v_pathname ?p) ?m" by (simp add: followed_def)
  then show ?thesis using listener_navigates_exactly [of ?s ?p ?m] by simp
qed

text \<open>What one message, and a sequence of messages, do with the listeners attached.\<close>

definition message_path :: "message \<Rightarrow> string" where
  "message_path m = the (msg_path (data m))"

lemma run_listeners:
  "fold (\<lambda>s q. case on_message m q s of Returns r \<Rightarrow> r | Throws e r \<Rightarrow> r | Diverges \<Rightarrow> q) ss p =
    p\<lparr>v_hrefs := v_hrefs p @
      map (\<lambda>_. message_path m) (filter (\<lambda>s. followed s (v_pathname p) m) ss)\<rparr>"
  by (induction ss arbitrary: p) (simp_all add: on_message_followed message_path_def)

text \<open>C35: A sequence of messages assigns \<open>location.href\<close> in the order in which they arrive, once for
  every listener that follows the message, and changes nothing else: a page to which the behaviour was
  attached twice assigns every path twice.\<close>

theorem messages_are_followed_in_order:
  "fold deliver ms p = p\<lparr>v_hrefs := v_hrefs p @ concat (map (\<lambda>m.
    map (\<lambda>_. message_path m) (filter (\<lambda>s. followed s (v_pathname p) m) (v_listeners p))) ms)\<rparr>"
proof (induction ms arbitrary: p)
  case (Cons m ms)
  then show ?case unfolding fold_simps comp_apply deliver_def run_listeners by simp
qed simp

section \<open>The loader\<close>

datatype preview_event = Loader "nat list" | Loaded nat | Sync | Message message

fun preview_step :: "preview_event \<Rightarrow> preview \<Rightarrow> preview" where
  "preview_step (Loader g) p = attach_loader g p"
| "preview_step (Loaded i) p = iframe_load i p"
| "preview_step Sync p =
     (case attach_sync p of Returns q \<Rightarrow> q | Throws e q \<Rightarrow> q | Diverges \<Rightarrow> p)"
| "preview_step (Message m) p = deliver m p"

definition preview_run :: "preview_event list \<Rightarrow> preview \<Rightarrow> preview" where
  "preview_run es p = fold preview_step es p"

lemma iframe_load_fields:
  "v_ready (iframe_load i p) = v_ready p \<union> \<Union> (set ` {g \<in> set (v_watched p). i \<in> set g})"
  "v_watched (iframe_load i p) = v_watched p"
proof -
  have "fold (\<lambda>g q. q\<lparr>v_ready := v_ready q \<union> set g\<rparr>) gs p =
      p\<lparr>v_ready := v_ready p \<union> \<Union> (set ` set gs)\<rparr>" for gs and p :: preview
    by (induction gs arbitrary: p) (auto simp: Un_assoc)
  then show "v_ready (iframe_load i p) = v_ready p \<union> \<Union> (set ` {g \<in> set (v_watched p). i \<in> set g})"
    "v_watched (iframe_load i p) = v_watched p"
    by (simp_all add: iframe_load_def)
qed

lemma deliver_fields [simp]:
  "v_ready (deliver m p) = v_ready p" "v_watched (deliver m p) = v_watched p"
  by (simp_all add: deliver_def run_listeners)

lemma sync_fields [simp]:
  "v_ready (preview_step Sync p) = v_ready p" "v_watched (preview_step Sync p) = v_watched p"
  by (auto simp: attach_sync_def split: option.split)

declare preview_step.simps(3) [simp del]

lemma run_watched: "set (v_watched (preview_run es p)) = set (v_watched p) \<union> {g. Loader g \<in> set es}"
proof (induction es rule: rev_induct)
  case (snoc e es)
  then show ?case
    by (cases e) (auto simp: preview_run_def attach_loader_def iframe_load_fields)
qed (simp add: preview_run_def)

text \<open>\<open>i\<close> was found together with an iframe that has loaded since.\<close>

definition loaded_since :: "preview_event list \<Rightarrow> nat \<Rightarrow> bool" where
  "loaded_since es i \<longleftrightarrow>
     (\<exists>xs ys zs g j. es = xs @ Loader g # ys @ Loaded j # zs \<and> i \<in> set g \<and> j \<in> set g)"

lemma loaded_since_snoc:
  "loaded_since (es @ [e]) i \<longleftrightarrow>
    loaded_since es i \<or> (\<exists>j g. e = Loaded j \<and> Loader g \<in> set es \<and> i \<in> set g \<and> j \<in> set g)"
  (is "?L \<longleftrightarrow> ?R")
proof
  assume ?L
  then obtain xs ys zs g j where
    r: "es @ [e] = xs @ Loader g # ys @ Loaded j # zs" "i \<in> set g" "j \<in> set g"
    unfolding loaded_since_def by blast
  show ?R
  proof (cases zs rule: rev_cases)
    case Nil
    then have "es @ [e] = (xs @ Loader g # ys) @ [Loaded j]" using r(1) by simp
    then have "es = xs @ Loader g # ys" "e = Loaded j" unfolding append1_eq_conv by simp_all
    then show ?thesis using r by auto
  next
    case (snoc vs v)
    then have "es @ [e] = (xs @ Loader g # ys @ Loaded j # vs) @ [v]" using r(1) by simp
    then have "es = xs @ Loader g # ys @ Loaded j # vs" unfolding append1_eq_conv by simp
    then show ?thesis using r(2,3) unfolding loaded_since_def by blast
  qed
next
  assume ?R
  then show ?L
  proof
    assume "loaded_since es i"
    then obtain xs ys zs g j where
      "es = xs @ Loader g # ys @ Loaded j # zs" "i \<in> set g" "j \<in> set g"
      unfolding loaded_since_def by blast
    then have "es @ [e] = xs @ Loader g # ys @ Loaded j # (zs @ [e])" "i \<in> set g" "j \<in> set g"
      by simp_all
    then show ?thesis unfolding loaded_since_def by blast
  next
    assume "\<exists>j g. e = Loaded j \<and> Loader g \<in> set es \<and> i \<in> set g \<and> j \<in> set g"
    then obtain j g xs ys where "e = Loaded j" "es = xs @ Loader g # ys" "i \<in> set g" "j \<in> set g"
      by (auto dest: split_list)
    then have "es @ [e] = xs @ Loader g # ys @ Loaded j # []" "i \<in> set g" "j \<in> set g" by simp_all
    then show ?thesis unfolding loaded_since_def by blast
  qed
qed

text \<open>C37: On a page that starts with no iframe handled, an iframe is marked as ready exactly when one
  of the iframes found together with it has loaded after they were found, itself or another one,
  whatever else happened.\<close>

theorem ready_when_one_of_its_group_has_loaded:
  assumes "v_watched p = []" and "v_ready p = {}"
  shows "i \<in> v_ready (preview_run es p) \<longleftrightarrow> loaded_since es i"
proof (induction es rule: rev_induct)
  case Nil
  then show ?case using assms by (simp add: preview_run_def loaded_since_def)
next
  case (snoc e es)
  have w: "set (v_watched (preview_run es p)) = {g. Loader g \<in> set es}"
    using run_watched [of es p] assms(1) by simp
  have app: "preview_run (es @ [x]) p = preview_step x (preview_run es p)" for x
    by (simp add: preview_run_def)
  show ?case
  proof (cases e)
    case (Loaded j)
    then show ?thesis unfolding loaded_since_snoc app using snoc.IH w by (auto simp: iframe_load_fields)
  qed (simp_all add: snoc.IH loaded_since_snoc app attach_loader_def)
qed

theorem ready_when_one_of_its_group_has_loaded_witness:
  "2 \<in> v_ready (preview_run [Loader [1, 2], Loaded 1]
     \<lparr>v_settings = None, v_pathname = ''/'', v_hrefs = [], v_listeners = [], v_watched = [], v_ready = {}\<rparr>)"
proof -
  have "[Loader [1, 2], Loaded 1] = [] @ Loader [1, 2] # [] @ Loaded 1 # []" by simp
  then have "loaded_since [Loader [1, 2], Loaded 1] 2"
    unfolding loaded_since_def by (metis list.set_intros)
  then show ?thesis by (subst ready_when_one_of_its_group_has_loaded) simp_all
qed

section \<open>Skipped routes\<close>

text \<open>Nothing the settings carry has an upper-case letter.\<close>

definition has_upper :: "string \<Rightarrow> bool" where
  "has_upper s \<longleftrightarrow> (\<exists>c\<in>set s. 65 \<le> (of_char c :: nat) \<and> (of_char c :: nat) \<le> 90)"

lemma lower_char_not_upper: "\<not> (65 \<le> (of_char (lower_char c) :: nat) \<and> (of_char (lower_char c) :: nat) \<le> 90)"
  by (auto simp: lower_char_def Let_def)

lemma set_explode_lines: "l \<in> set (explode_lines s) \<Longrightarrow> set l \<subseteq> set s"
proof (induction s arbitrary: l)
  case (Cons c s)
  show ?case
  proof (cases "c = CHR 0x0A")
    case True
    then show ?thesis using Cons by auto
  next
    case False
    then show ?thesis using Cons by (auto split: list.splits) (metis list.set_intros subsetD)+
  qed
qed simp

lemma set_php_trim: "set (php_trim s) \<subseteq> set s"
  unfolding php_trim_def by (auto dest!: set_dropWhileD)

lemma rendered_no_upper: "r \<in> set (rendered_skip_routes cfg) \<Longrightarrow> \<not> has_upper r"
proof -
  assume "r \<in> set (rendered_skip_routes cfg)"
  then obtain l where l: "l \<in> set (explode_lines (map lower_char cfg))" "r = php_trim l"
    by (auto simp: rendered_skip_routes_def)
  have "set r \<subseteq> lower_char ` set cfg"
    using set_php_trim [of l] set_explode_lines [OF l(1)] l(2) by auto
  then show ?thesis using lower_char_not_upper by (auto simp: has_upper_def)
qed

text \<open>C38: The routes to skip reach the page in lower case but are compared with the path as it is:
  a path with an upper-case letter is never skipped, whatever the administrator configured, the
  path itself included.\<close>

theorem upper_case_routes_are_never_skipped:
  assumes "has_upper path" and "path \<noteq> v_pathname p"
    and "skip_routes s = Some (rendered_skip_routes cfg)"
  shows "on_message \<lparr>origin = from, data = Msg (Some sync_type) (Some path)\<rparr> p s =
    Returns (p\<lparr>v_hrefs := v_hrefs p @ [path]\<rparr>)"
proof -
  have "path \<notin> set (rendered_skip_routes cfg)" using rendered_no_upper assms(1) by blast
  moreover have "path \<noteq> []" using assms(1) by (auto simp: has_upper_def)
  ultimately show ?thesis using assms(2,3) by (simp add: on_message_def)
qed

theorem upper_case_routes_are_never_skipped_witness:
  "\<exists>q. on_message \<lparr>origin = ''o'', data = Msg (Some sync_type) (Some ''/Blog'')\<rparr>
     \<lparr>v_settings = None, v_pathname = ''/'', v_hrefs = [], v_listeners = [], v_watched = [], v_ready = {}\<rparr>
     \<lparr>sync_route = Some True, skip_routes = Some (rendered_skip_routes ''/Blog'')\<rparr> = Returns q \<and>
     v_hrefs q = [''/Blog'']"
  using upper_case_routes_are_never_skipped [of "''/Blog''"
      "\<lparr>v_settings = None, v_pathname = ''/'', v_hrefs = [], v_listeners = [], v_watched = [], v_ready = {}\<rparr>"
      "\<lparr>sync_route = Some True, skip_routes = Some (rendered_skip_routes ''/Blog'')\<rparr>" "''/Blog''"]
  by (simp add: has_upper_def)

end
