(* ===== verification/Graphql_Explorer.thy ===== *)
theory Graphql_Explorer
  imports Js_Prelude
begin

text \<open>
  The GraphQL explorer: the React component of \<open>Explorer.js\<close> and the behaviours of
  \<open>explorer/src/index.js\<close> and \<open>voyager/src/index.js\<close> that render into their containers. A
  component keeps its state between renderings; the callbacks it passed on at the last rendering
  see the state of that rendering. GraphiQL, its explorer, React and \<open>once\<close> are not part of the
  repository: their calls into the code are events, the elements \<open>once\<close> hands out and the schema
  \<open>buildClientSchema\<close> builds are parameters.
\<close>

section \<open>The component Explorer\<close>

datatype graphiql_call = RunQuery "string option" | PrettifyQuery | ToggleHistory

record explorer =
  e_open :: bool
  e_query :: "string option"
  e_ref :: bool
  e_calls :: "graphiql_call list"

text \<open>What the last rendering passed to the two editors, and what its callbacks have captured.\<close>

record rendering =
  r_explorerQuery :: "string option"
  r_editorQuery :: "string option"
  r_explorerIsOpen :: bool

definition explorer_init :: "string option \<Rightarrow> explorer" where
  "explorer_init q = \<lparr>e_open = False, e_query = q, e_ref = False, e_calls = []\<rparr>"

definition explorer_render :: "explorer \<Rightarrow> rendering" where
  "explorer_render e =
     \<lparr>r_explorerQuery = e_query e, r_editorQuery = e_query e, r_explorerIsOpen = e_open e\<rparr>"

text \<open>The callbacks of a rendering. \<open>graphiQLEl.current\<close> is \<open>null\<close> until the editor is mounted.\<close>

definition on_edit :: "string option \<Rightarrow> explorer \<Rightarrow> explorer" where
  "on_edit q e = e\<lparr>e_query := q\<rparr>"

definition on_toggle_explorer :: "rendering \<Rightarrow> explorer \<Rightarrow> explorer" where
  "on_toggle_explorer r e = e\<lparr>e_open := \<not> r_explorerIsOpen r\<rparr>"

definition call_graphiql :: "graphiql_call \<Rightarrow> explorer \<Rightarrow> explorer outcome" where
  "call_graphiql c e =
     (if e_ref e then Returns (e\<lparr>e_calls := e_calls e @ [c]\<rparr>) else Throws TypeError e)"

text \<open>A batch of events between two renderings; React renders after the batch and mounts the
  editor with the first rendering.\<close>

datatype explorer_event = EditExplorer "string option" | EditEditor "string option" | Toggle

fun run_event :: "rendering \<Rightarrow> explorer_event \<Rightarrow> explorer \<Rightarrow> explorer" where
  "run_event r (EditExplorer q) e = on_edit q e"
| "run_event r (EditEditor q) e = on_edit q e"
| "run_event r Toggle e = on_toggle_explorer r e"

definition explorer_batch :: "explorer_event list \<Rightarrow> explorer \<Rightarrow> explorer" where
  "explorer_batch es e = fold (run_event (explorer_render e)) es (e\<lparr>e_ref := True\<rparr>)"

section \<open>The behaviours\<close>

record request =
  q_url :: string
  q_method :: string
  q_credentials :: string
  q_contentType :: string
  q_body :: string

text \<open>The fetcher, for the text \<open>JSON.stringify\<close> gives for its parameters.\<close>

definition graphql_fetcher :: "string \<Rightarrow> string \<Rightarrow> request" where
  "graphql_fetcher url params =
     \<lparr>q_url = url, q_method = ''post'', q_credentials = ''same-origin'',
      q_contentType = ''application/json'', q_body = params\<rparr>"

text \<open>The settings of the page: \<open>graphqlIntrospectionData\<close> with its \<open>data\<close>, the request URL and the
  texts of the query and its variables, each where it is there.\<close>

record graphql_settings =
  s_introspection :: "string option"
  s_requestUrl :: string
  s_query :: "string option"
  s_variables :: "string option"

record 'schema explorer_props =
  x_container :: nat
  x_url :: string
  x_schema :: 'schema
  x_query :: "string option"
  x_variables :: "string option"

text \<open>\<open>x || undefined\<close> for a text.\<close>

definition or_undefined :: "string option \<Rightarrow> string option" where
  "or_undefined x = (case x of None \<Rightarrow> None | Some s \<Rightarrow> if s = [] then None else Some s)"

text \<open>\<open>fresh\<close> are the containers \<open>once\<close> hands out. The rendered trees are kept in order.\<close>

definition render_explorer ::
    "(string \<Rightarrow> 'schema) \<Rightarrow> nat list \<Rightarrow> graphql_settings \<Rightarrow> 'schema explorer_props list \<Rightarrow>
     'schema explorer_props list outcome" where
  "render_explorer build fresh s done =
     (case fresh of
        [] \<Rightarrow> Returns done
      | c # _ \<Rightarrow>
          (case s_introspection s of
             None \<Rightarrow> Throws TypeError done
           | Some d \<Rightarrow> Returns (done @ [\<lparr>x_container = c, x_url = s_requestUrl s, x_schema = build d,
                 x_query = or_undefined (s_query s), x_variables = or_undefined (s_variables s)\<rparr>])))"

record voyager_props =
  y_container :: nat
  y_introspection :: "string option"
  y_skipRelay :: bool
  y_sortByAlphabet :: bool

definition render_voyager ::
    "nat list \<Rightarrow> graphql_settings \<Rightarrow> voyager_props list \<Rightarrow> voyager_props list" where
  "render_voyager fresh s done =
     (case fresh of
        [] \<Rightarrow> done
      | c # _ \<Rightarrow> done @ [\<lparr>y_container = c, y_introspection = s_introspection s, y_skipRelay = True,
            y_sortByAlphabet = True\<rparr>])"

section \<open>Properties\<close>

definition is_toggle :: "explorer_event \<Rightarrow> bool" where
  "is_toggle x \<longleftrightarrow> x = Toggle"

primrec last_edit :: "string option \<Rightarrow> explorer_event list \<Rightarrow> string option" where
  "last_edit q [] = q"
| "last_edit q (x # xs) =
     (case x of EditExplorer r \<Rightarrow> last_edit r xs | EditEditor r \<Rightarrow> last_edit r xs | Toggle \<Rightarrow> last_edit q xs)"

lemma fold_events:
  "fold (run_event r) es e =
    e\<lparr>e_open := (if list_ex is_toggle es then \<not> r_explorerIsOpen r else e_open e),
      e_query := last_edit (e_query e) es\<rparr>"
proof (induction es arbitrary: e)
  case (Cons x es)
  then show ?case
    by (cases x) (simp_all add: on_edit_def on_toggle_explorer_def is_toggle_def)
qed simp

text \<open>C39: After any batches of events both editors show the same query, the one edited last in
  either of them. The explorer's pane turns over once for every batch in which it was toggled,
  however often: a second toggle before the next rendering has no effect, because both callbacks
  see the state of the last rendering.\<close>

theorem explorer_stays_in_step:
  "let e = fold explorer_batch bs (explorer_init q); r = explorer_render e in
     r_explorerQuery r = last_edit q (concat bs) \<and> r_editorQuery r = r_explorerQuery r \<and>
     r_explorerIsOpen r = odd (length (filter (list_ex is_toggle) bs))"
proof -
  have app: "last_edit p (xs @ ys) = last_edit (last_edit p xs) ys" for p xs ys
    by (induction xs arbitrary: p) (auto split: explorer_event.split)
  have "e_query (fold explorer_batch bs e) = last_edit (e_query e) (concat bs) \<and>
      e_open (fold explorer_batch bs e) =
        (e_open e \<noteq> odd (length (filter (list_ex is_toggle) bs)))" for e
  proof (induction bs arbitrary: e)
    case (Cons b bs)
    then show ?case by (auto simp: explorer_batch_def fold_events app explorer_render_def)
  qed simp
  then show ?thesis by (simp add: Let_def explorer_render_def explorer_init_def)
qed

text \<open>The behaviour renders nothing when \<open>once\<close> hands out no container; otherwise it renders
  one explorer, into the first container, with the schema built from the introspection data; an
  empty query or empty variables become \<open>undefined\<close>; without introspection data it throws before
  anything is rendered. The fetcher posts JSON to the configured URL.\<close>

theorem explorer_renders_into_the_first_container:
  "render_explorer build [] s done = Returns done \<and>
   (s_introspection s = None \<longrightarrow> render_explorer build (c # cs) s done = Throws TypeError done) \<and>
   (\<forall>d. s_introspection s = Some d \<longrightarrow>
     (\<exists>x. render_explorer build (c # cs) s done = Returns (done @ [x]) \<and> x_container x = c \<and>
        x_schema x = build d \<and> (x_query x = None \<longleftrightarrow> s_query s \<in> {None, Some []}) \<and>
        q_url (graphql_fetcher (x_url x) params) = s_requestUrl s \<and>
        q_body (graphql_fetcher (x_url x) params) = params))"
  by (auto simp: render_explorer_def or_undefined_def graphql_fetcher_def split: option.split)

theorem explorer_renders_into_the_first_container_witness:
  "\<exists>x. render_explorer (\<lambda>s. s) [7] \<lparr>s_introspection = Some ''abc'', s_requestUrl = ''/graphql'',
       s_query = Some [], s_variables = None\<rparr> [] = Returns [x] \<and> x_schema x = ''abc'' \<and> x_query x = None"
  using explorer_renders_into_the_first_container [of "\<lambda>s. s"
      "\<lparr>s_introspection = Some ''abc'', s_requestUrl = ''/graphql'', s_query = Some [], s_variables = None\<rparr>"
      "[]" 7 "[]"]
  by auto

end
