(* ===== verification/Path_Summary.thy ===== *)
theory Path_Summary
  imports Js_Prelude
begin

text \<open>
  \<open>pathauto.js\<close>: the summary of the path settings of a form, from the alias field and the checkbox
  for automatic aliases. A field that is not there gives \<open>undefined\<close>. \<open>Drupal.t\<close> replaces the
  placeholder by the escaped text; the escaping is a parameter.
\<close>

record path_form =
  pf_alias :: "string option"
  pf_automatic :: "bool option"

definition path_summary :: "(string \<Rightarrow> string) \<Rightarrow> path_form \<Rightarrow> string" where
  "path_summary escape f =
     (if pf_automatic f = Some True then ''Automatic alias''
      else case pf_alias f of
             Some path \<Rightarrow> if path \<noteq> [] then ''Alias: '' @ escape path else ''No alias''
           | None \<Rightarrow> ''No alias'')"

text \<open>The summary says which of the three cases holds: automatic aliases win over an alias that
  is typed in, and an empty or missing alias field counts as no alias.\<close>

theorem summary_tells_the_case:
  "(path_summary escape f = ''Automatic alias'' \<longleftrightarrow> pf_automatic f = Some True) \<and>
   (path_summary escape f = ''No alias'' \<longleftrightarrow>
      pf_automatic f \<noteq> Some True \<and> pf_alias f \<in> {None, Some []}) \<and>
   (\<forall>path. pf_automatic f \<noteq> Some True \<longrightarrow> pf_alias f = Some path \<longrightarrow> path \<noteq> [] \<longrightarrow>
      path_summary escape f = ''Alias: '' @ escape path)"
  by (auto simp: path_summary_def split: option.splits)

theorem summary_tells_the_case_witness:
  "path_summary (\<lambda>s. s) \<lparr>pf_alias = Some ''/x'', pf_automatic = Some False\<rparr> = ''Alias: /x''"
  using summary_tells_the_case [of "\<lambda>s. s" "\<lparr>pf_alias = Some ''/x'', pf_automatic = Some False\<rparr>"]
  by simp

end
