(* ===== verification/Spec2Isabelle.thy ===== *)
theory Spec2Isabelle
  imports Tree_Roundtrips Tree_Lazy Tree_Handlers Token_Insert Persisted_Queries Site_Preview Graphql_Explorer Path_Summary
begin

text \<open>
  The browser code of a Drupal site's contributed modules: the tree table plugin
  \<open>token/js/jquery.treetable.js\<close> and the behaviours that use it or stand beside it
  (all paths below \<open>src/web/modules/contrib/\<close>).

  \<^bold>\<open>The program.\<close> \<open>jquery.treetable.js\<close> turns the rows of an HTML table into a tree: the rows carry an id
  and the id of their parent, and the plugin keeps one Node object for every row and one Tree object
  for every table, hides and shows rows as branches are collapsed and expanded, and moves, removes, sorts
  and loads branches. \<open>token/js/token.js\<close> makes every table of tokens such a table and inserts the
  token that is clicked into an editor or the last focused field. \<open>graphql/js/persisted_queries.js\<close>
  shows the settings of checked plugins, \<open>next/js/next.site_preview.iframe.js\<close> follows the route of a
  previewed site, \<open>graphql/assets/explorer/src/\<close> and \<open>graphql/assets/voyager/src/\<close> render the GraphQL
  tools, and \<open>pathauto/pathauto.js\<close> summarises a form.

  \<^bold>\<open>Which theory models what.\<close>
  \<^item> \<open>Js_Prelude\<close>: outcomes (return, throw with the state left, divergence), the loop over an array,
    values of \<open>data()\<close> as property keys, \<open>$.inArray\<close>, \<open>splice\<close>, \<open>sort\<close>, string functions. The
    locale \<open>stable_sort\<close> is what the code relies on of \<open>sort\<close>.
  \<^item> \<open>Rose_Forest\<close>: forests of node references, with cutting a subtree out, hanging it elsewhere,
    emptying and reordering a branch: the abstract view of the Node objects.
  \<^item> \<open>Table_Dom\<close>: the rows of a table and the jQuery calls on them. The locale \<open>row_order\<close> is what the
    recursion of \<open>_moveRows\<close> needs of \<open>insertAfter\<close>; it is interpreted on the page and on lists.
  \<^item> \<open>Tree_Node\<close>: the class Node (lines 11 to 238), one definition per method. The state is the
    record \<open>world\<close>: the page, the Node objects in a heap, and the fields of the Tree object.
  \<^item> \<open>Tree_Table\<close>: the class Tree (240 to 419), the plugin's methods (422 to 613) and their dispatch
    (615 to 623), also by a bare name (\<open>call_by_name\<close>): the empty text means \<open>init\<close>, the name of a
    method calls it without arguments, the functions every object inherits answer and change nothing,
    other names throw. What \<open>node\<close> returns is \<open>tt_node\<close>.
  \<^item> \<open>Tree_Forest\<close>: \<open>forest_of s w fs\<close>, the refinement relation between the state and a forest, and
    what it gives for \<open>parentNode\<close>, \<open>ancestors\<close>, \<open>level\<close> and \<open>findLastNode\<close>.
  \<^item> \<open>Tree_Display\<close>, \<open>Tree_Show\<close>, \<open>Tree_Visibility\<close>: what collapsing, expanding, hiding and showing
    change (\<open>touches\<close>), and the display contract \<open>vis_inv\<close>: a row is displayed exactly when it is a
    root's or its parent is displayed and expanded. The locale \<open>child_display\<close> is what \<open>expand\<close> and
    \<open>_initialize\<close> need of the showing of one child; \<open>node_show\<close> provides it by induction on the fuel.
  \<^item> \<open>Tree_Load\<close>, \<open>Tree_Init\<close>, \<open>Tree_Remove\<close>, \<open>Tree_Move\<close>, \<open>Tree_Sort\<close>, \<open>Tree_Branch\<close>, \<open>Tree_All\<close>:
    each operation refines its counterpart on forests.
  \<^item> \<open>Tree_Example\<close>, \<open>Tree_Properties\<close>, \<open>Tree_Limits\<close>: the example table, what the methods promise,
    and what they do with bad input or leave undone.
  \<^item> \<open>Forest_Names\<close>, \<open>Tree_Refinement\<close>: the specification. A table stands for the forest of the names of
    its nodes (\<open>shows_forest\<close>); a call stands for one operation on that forest (\<open>spec_of\<close>,
    \<open>spec_step\<close>), and \<open>call_refined\<close> is the simulation: the call returns or throws as \<open>spec_throws\<close>
    says and leaves a table that stands for the result. The calls it covers are those of \<open>allowed\<close>.
  \<^item> \<open>Token_Tree\<close>, \<open>Tree_Session\<close>: tables of tokens, and sequences of calls (the step relation \<open>session\<close>).
  \<^item> \<open>Tree_Handlers\<close>: the handlers that \<open>render\<close> takes off and puts on, as an invariant of sessions.
  \<^item> \<open>Tree_Roundtrips\<close>, \<open>Tree_Lazy\<close>: collapsing and expanding again; branches that are loaded late,
    when that keeps the display contract, and unloading them again.
  \<^item> \<open>Token_Insert\<close>, \<open>Persisted_Queries\<close>, \<open>Site_Preview\<close>, \<open>Graphql_Explorer\<close>, \<open>Path_Summary\<close>: the
    other behaviours, one theory each with its properties.

  \<^bold>\<open>Fuel.\<close> Methods that follow references recurse on \<open>fuel_of w\<close>, one more than the number of Node
  objects ever made. In a state that represents a forest no path visits a node twice, so every path is
  shorter than that and the fuel suffices (\<open>forest_height_fuel\<close>, \<open>chain_length\<close>): the properties below
  say that the methods return. \<open>Diverges\<close> is left for states in which the code itself recurses without
  bound, such as a row that is its own parent (\<open>own_parent_never_collapses\<close>).

  \<^bold>\<open>What is assumed.\<close> Rows are made into a tree once, ids are distinct and parents come before their
  children (\<open>pristine\<close>, \<open>loadable\<close>); outside this \<open>Tree_Limits\<close> shows what happens. Comparators handed
  to \<open>sortBranch\<close> are pure. For comparators that are not \<open>consistent\<close> the language leaves the order of
  the sorted array open; \<open>js_sort\<close> is then one of the orders it allows. The display contract \<open>vis_inv\<close>
  may be broken by \<open>move\<close> and by loading rows under a hidden node; properties that need it say so.

  \<^bold>\<open>What is not modelled.\<close> Ids that name properties of \<open>Object.prototype\<close> (the lookup \<open>tree[id]\<close> would
  find those); values of \<open>data()\<close> that are objects or fractions; letters beyond Latin-1 in case conversion;
  tables with several bodies or nested tables; the bodies of callbacks (that they are called is in the
  log); Node objects kept by a caller after a forced second \<open>init\<close>; what the browser, the editors,
  GraphiQL and React do with a call. The bundles in the \<open>dist\<close> directories are generated, the build
  configurations have no behaviour, and the PHP of the modules is not covered, except for the list of
  routes that \<open>Iframe.php\<close> renders.
\<close>

section \<open>Tables of tokens\<close>

text \<open>C18: The behaviour \<open>tokenTree\<close> turns every table that \<open>once\<close> hands out into a tree of which
  the rows of the roots are displayed and no other row of a node, leaves all other tables alone, and
  changes nothing when it meets the same tables again.\<close>

theorem tokenTree_makes_trees:
  assumes "distinct ts"
    and "\<forall>i\<in>set ts. pristine token_settings (t_world (pg i)) \<and> \<not> tdata (t_world (pg i))"
  shows "\<exists>pg'. token_tree_attach ts pg = Returns pg' \<and> (\<forall>i\<in>set ts. roots_only (pg' i)) \<and>
      (\<forall>i. i \<notin> set ts \<longrightarrow> pg' i = pg i) \<and> token_tree_attach ts pg' = Returns pg'"
proof -
  obtain pg' where pg': "token_tree_attach ts pg = Returns pg'" "\<forall>i\<in>set ts. roots_only (pg' i)"
    "\<forall>i. i \<notin> set ts \<longrightarrow> pg' i = pg i"
    using token_tree_attach_all [OF assms] by blast
  then have "\<forall>i\<in>set ts. tdata (t_world (pg' i))" by (simp add: roots_only_def)
  then show ?thesis using pg' token_tree_attach_again by blast
qed

theorem tokenTree_makes_trees_witness:
  "\<exists>pg'. token_tree_attach [0, 1] (\<lambda>_. \<lparr>t_world = plain_table, t_settings = default_settings\<rparr>) = Returns pg' \<and>
     roots_only (pg' 0) \<and> roots_only (pg' 1) \<and> t_world (pg' 2) = plain_table"
proof -
  have "\<forall>i\<in>set [0, 1]. pristine token_settings
      (t_world ((\<lambda>_::nat. \<lparr>t_world = plain_table, t_settings = default_settings\<rparr>) i)) \<and>
      \<not> tdata (t_world ((\<lambda>_::nat. \<lparr>t_world = plain_table, t_settings = default_settings\<rparr>) i))"
    using plain_table_pristine by (simp add: demo_settings_def plain_table_def)
  moreover have "distinct [0, 1::nat]" "2 \<notin> set [0, 1::nat]" by simp_all
  ultimately obtain pg' where "token_tree_attach [0, 1]
      (\<lambda>_. \<lparr>t_world = plain_table, t_settings = default_settings\<rparr>) = Returns pg'"
    "roots_only (pg' 0)" "roots_only (pg' 1)"
    "pg' 2 = \<lparr>t_world = plain_table, t_settings = default_settings\<rparr>"
    using tokenTree_makes_trees by (metis list.set_intros)
  then show ?thesis by auto
qed

section \<open>Sessions\<close>

text \<open>C1: \<open>init\<close> on a table whose ids are distinct and whose parent ids name earlier rows makes the
  forest that the rows ask for, row by row. From then on every sequence of method calls leaves the
  table with the forest that the operations the calls stand for give, calls that throw included, and
  no further call hangs. (\<open>destroy\<close> and a forced second \<open>init\<close> end the session; the
  rows given to \<open>loadBranch\<close> are new, and Node objects given to a method are nodes of the table.)\<close>

theorem sessions_follow_the_specification:
  assumes "pristine (opts default_settings) (t_world t)" and "\<not> tdata (t_world t)"
    and "nodeIdAttr (opts default_settings) \<noteq> parentIdAttr (opts default_settings)"
  shows "let F = spec_step
        (Load (row_labels (opts default_settings) (t_world t) (d_order (t_world t)))) [] in
      \<exists>u. treetable (CallInit opts False) t = Returns u \<and> shows_forest u F \<and>
      (\<forall>cs v. session u cs v \<longrightarrow>
        shows_forest v (fold spec_step (map snd cs) F) \<and>
        (\<forall>c. allowed v c \<longrightarrow> (\<exists>x. after_call c v = Some x)))"
proof -
  let ?F = "spec_step (Load (row_labels (opts default_settings) (t_world t) (d_order (t_world t)))) []"
  obtain u where u: "treetable (CallInit opts False) t = Returns u" "shows_forest u ?F"
    using init_shows [of opts t] assms by blast
  have "shows_forest v (fold spec_step (map snd cs) ?F) \<and>
      (\<forall>c. allowed v c \<longrightarrow> (\<exists>x. after_call c v = Some x))" if "session u cs v" for cs v
    using session_refined [OF that u(2)] after_call_refined by blast
  then show ?thesis unfolding Let_def using u by blast
qed

theorem sessions_follow_the_specification_witness:
  "\<exists>u x. treetable (CallInit (\<lambda>s. s\<lparr>expandable := True\<rparr>) False)
      \<lparr>t_world = plain_table, t_settings = default_settings\<rparr> = Returns u \<and>
     shows_forest u [Rose ''1'' [Rose ''2'' [Rose ''4'' []], Rose ''3'' []], Rose ''5'' []] \<and>
     after_call (CallMove (DNum 2) (DNum 5)) u = Some x"
proof -
  let ?o = "\<lambda>s. s\<lparr>expandable := True\<rparr>" and ?t = "\<lparr>t_world = plain_table, t_settings = default_settings\<rparr>"
  have o: "?o default_settings = demo_settings" by (simp add: demo_settings_def)
  have F: "spec_step (Load (row_labels (?o default_settings) (t_world ?t) (d_order (t_world ?t)))) [] =
      [Rose ''1'' [Rose ''2'' [Rose ''4'' []], Rose ''3'' []], Rose ''5'' []]"
    by code_simp
  have "pristine (?o default_settings) (t_world ?t)" using plain_table_pristine o by simp
  moreover have "\<not> tdata (t_world ?t)" by (simp add: plain_table_def)
  moreover have "nodeIdAttr (?o default_settings) \<noteq> parentIdAttr (?o default_settings)"
    by (simp add: default_settings_def)
  ultimately obtain u where u: "treetable (CallInit ?o False) ?t = Returns u"
    "shows_forest u [Rose ''1'' [Rose ''2'' [Rose ''4'' []], Rose ''3'' []], Rose ''5'' []]"
    "\<forall>cs v. session u cs v \<longrightarrow> (\<forall>c. allowed v c \<longrightarrow> (\<exists>x. after_call c v = Some x))"
    using sessions_follow_the_specification [of ?o ?t] unfolding F Let_def by blast
  have "allowed u (CallMove (DNum 2) (DNum 5))" by simp
  then obtain x where "after_call (CallMove (DNum 2) (DNum 5)) u = Some x"
    using u(3) session.start by blast
  then show ?thesis using u(1,2) by blast
qed

text \<open>C2: On a table that stands for a forest of names, every call but \<open>destroy\<close> and a forced \<open>init\<close>, with
  Node objects of the table where it takes one and, for \<open>loadBranch\<close>, rows that are new with distinct ids
  and follow their parents (\<open>allowed\<close>), refines one operation on that forest: moves hang a subtree
  under another node, \<open>removeNode\<close> and \<open>unloadBranch\<close> cut, \<open>sortBranch\<close> reorders the children of one
  node, \<open>loadBranch\<close> adds leaves, and everything else leaves the forest alone. Such a call throws exactly
  when one of the names it asks for is not in the forest, or when it is made by a text that cannot be
  called so, and then nothing of the table has changed. (A call made by its name alone is the call with
  undefined arguments; a function that all objects inherit answers and changes nothing.)\<close>

theorem calls_refine_the_specification:
  assumes "shows_forest t F" and "allowed t c"
  shows "if spec_throws F c
    then \<exists>e. treetable c t = Throws e t \<and> spec_step (spec_of t c) F = F
    else \<exists>u. treetable c t = Returns u \<and> shows_forest u (spec_step (spec_of t c) F)"
proof (cases "spec_throws F c")
  case True
  then show ?thesis
    using spec_throws_unchanged [OF assms True] spec_throws_keeps [OF assms(1)] by auto
next
  case False
  then show ?thesis using call_refined [OF assms] unfolding refined_def by auto
qed

theorem calls_refine_the_specification_witness:
  "\<exists>u. treetable (CallMove (DNum 2) (DNum 5)) \<lparr>t_world = open_table, t_settings = demo_settings\<rparr> = Returns u \<and>
     shows_forest u [Rose ''1'' [Rose ''3'' []], Rose ''5'' [Rose ''2'' [Rose ''4'' []]]]"
proof -
  let ?t = "\<lparr>t_world = open_table, t_settings = demo_settings\<rparr>"
  let ?F = "[Rose ''1'' [Rose ''2'' [Rose ''4'' []], Rose ''3'' []], Rose ''5'' []]"
  let ?c = "CallMove (DNum 2) (DNum 5)"
  have "names open_table open_forest = ?F" by code_simp
  then have sh: "shows_forest ?t ?F"
    unfolding shows_forest_def using open_table_forest open_table_facts(2,3) by auto
  have "\<not> spec_throws ?F ?c" by (simp add: spec_throws_def)
  moreover have "spec_step (spec_of ?t ?c) ?F = [Rose ''1'' [Rose ''3'' []], Rose ''5'' [Rose ''2'' [Rose ''4'' []]]]"
    by code_simp
  ultimately show ?thesis using calls_refine_the_specification [OF sh, of ?c] by auto
qed

end
